(* ===== verification/Prelude.thy ===== *)
theory Prelude
  imports Main "HOL-Library.Multiset" "HOL-Library.Product_Lexorder"
begin

unbundle bit_operations_syntax

text \<open>
  Shared vocabulary of the development: Rust's fixed-width integers as \<open>int\<close> and \<open>nat\<close> with
  the wrap-around written out, \<open>Result\<close> values as sums, and the two collections of the Rust
  standard library the components store their state in. A \<open>BTreeMap\<close> is an association list
  whose keys ascend strictly (\<open>bt_inv\<close>), which is the order its iterators, \<open>first_key_value\<close>
  and \<open>pop_first\<close> expose; a \<open>VecDeque\<close> or a \<open>Vec\<close> is a list.
\<close>

named_theorems bt_simps \<open>lookup and membership after an update of an ordered map\<close>
named_theorems res_simps \<open>unfolding of the result combinators\<close>

section \<open>Fixed-width integers\<close>

type_synonym usize = nat
type_synonym isize = int

definition usize_bound :: nat where
  "usize_bound = 2 ^ 64"

definition wrap_isize :: "int \<Rightarrow> isize" where
  "wrap_isize x = (x + 2 ^ 63) mod 2 ^ 64 - 2 ^ 63"

definition isize_range :: "int \<Rightarrow> bool" where
  "isize_range x \<longleftrightarrow> - (2 ^ 63) \<le> x \<and> x < 2 ^ 63"

lemma wrap_isize_id [simp]: "isize_range x \<Longrightarrow> wrap_isize x = x"
  by (simp add: wrap_isize_def isize_range_def)

lemma wrap_isize_range [simp]: "isize_range (wrap_isize x)"
proof -
  have "0 \<le> (x + 2 ^ 63) mod 2 ^ 64" "(x + 2 ^ 63) mod 2 ^ 64 < (2::int) ^ 64"
    by simp_all
  then show ?thesis by (simp add: wrap_isize_def isize_range_def)
qed

lemma isize_range_0 [simp]: "isize_range 0"
  by (simp add: isize_range_def)

text \<open>Narrower machine integers: an \<open>as\<close> cast or a wrapping operation keeps the low bits. The default
  build is the release profile, in which plain arithmetic wraps too.\<close>

definition wrap_i16 :: "int \<Rightarrow> int" where
  "wrap_i16 x = (x + 2 ^ 15) mod 2 ^ 16 - 2 ^ 15"

definition wrap_i32 :: "int \<Rightarrow> int" where
  "wrap_i32 x = (x + 2 ^ 31) mod 2 ^ 32 - 2 ^ 31"

definition u16_add :: "nat \<Rightarrow> nat \<Rightarrow> nat" where
  "u16_add a b = (a + b) mod 2 ^ 16"

definition u16_sub :: "nat \<Rightarrow> nat \<Rightarrow> nat" where
  "u16_sub a b = (a + 2 ^ 16 - b) mod 2 ^ 16"

lemma wrap_i16_id [simp]: "- 32768 \<le> x \<Longrightarrow> x < 32768 \<Longrightarrow> wrap_i16 x = x"
  by (simp add: wrap_i16_def)

lemma wrap_i32_id [simp]: "- 2147483648 \<le> x \<Longrightarrow> x < 2147483648 \<Longrightarrow> wrap_i32 x = x"
  by (simp add: wrap_i32_def)

definition usize_sub :: "usize \<Rightarrow> usize \<Rightarrow> usize" where
  "usize_sub a b = (a + usize_bound - b) mod usize_bound"

lemma usize_sub_id: "b \<le> a \<Longrightarrow> a < usize_bound \<Longrightarrow> usize_sub a b = a - b"
proof -
  assume "b \<le> a" "a < usize_bound"
  then have "a + usize_bound - b = (a - b) + usize_bound" "a - b < usize_bound" by simp_all
  then show ?thesis by (simp only: usize_sub_def mod_add_self2 mod_less)
qed

text \<open>Bit flags: \<open>contains\<close> of a flags word.\<close>

definition has_flag :: "nat \<Rightarrow> nat \<Rightarrow> bool" where
  "has_flag flags f \<longleftrightarrow> flags AND f = f"

definition usize_add :: "usize \<Rightarrow> usize \<Rightarrow> usize" where
  "usize_add a b = (a + b) mod usize_bound"

definition checked_add :: "usize \<Rightarrow> usize \<Rightarrow> usize option" where
  "checked_add a b = (if a + b < usize_bound then Some (a + b) else None)"

definition checked_sub :: "usize \<Rightarrow> usize \<Rightarrow> usize option" where
  "checked_sub a b = (if b \<le> a then Some (a - b) else None)"

lemma checked_add_Some [simp]:
  "checked_add a b = Some c \<longleftrightarrow> c = a + b \<and> a + b < usize_bound"
  by (auto simp: checked_add_def)

lemma checked_add_None [simp]: "checked_add a b = None \<longleftrightarrow> usize_bound \<le> a + b"
  by (auto simp: checked_add_def)

lemma checked_sub_Some [simp]: "checked_sub a b = Some c \<longleftrightarrow> b \<le> a \<and> c = a - b"
  by (auto simp: checked_sub_def)

lemma checked_sub_None [simp]: "checked_sub a b = None \<longleftrightarrow> a < b"
  by (auto simp: checked_sub_def)

lemma usize_add_id: "a + b < usize_bound \<Longrightarrow> usize_add a b = a + b"
  by (simp add: usize_add_def)

section \<open>Results\<close>

text \<open>\<open>Result<T, E>\<close> is \<open>'e + 't\<close>: \<open>Inl\<close> is \<open>Err\<close>, \<open>Inr\<close> is \<open>Ok\<close>; \<open>rbind\<close> is the \<open>?\<close> operator.\<close>

definition rbind :: "'e + 'a \<Rightarrow> ('a \<Rightarrow> 'e + 'b) \<Rightarrow> 'e + 'b" where
  "rbind r f = (case r of Inl e \<Rightarrow> Inl e | Inr x \<Rightarrow> f x)"

definition ok_or :: "'a option \<Rightarrow> 'e \<Rightarrow> 'e + 'a" where
  "ok_or x e = (case x of None \<Rightarrow> Inl e | Some v \<Rightarrow> Inr v)"

definition is_ok :: "'e + 'a \<Rightarrow> bool" where
  "is_ok r = (case r of Inl _ \<Rightarrow> False | Inr _ \<Rightarrow> True)"

lemma rbind_Inl [simp, res_simps]: "rbind (Inl e) f = Inl e"
  by (simp add: rbind_def)

lemma rbind_Inr [simp, res_simps]: "rbind (Inr x) f = f x"
  by (simp add: rbind_def)

lemma rbind_eq_Inr: "rbind r f = Inr y \<longleftrightarrow> (\<exists>x. r = Inr x \<and> f x = Inr y)"
  by (cases r) auto

lemma rbind_eq_Inl: "rbind r f = Inl e \<longleftrightarrow> r = Inl e \<or> (\<exists>x. r = Inr x \<and> f x = Inl e)"
  by (cases r) auto

lemma ok_or_simps [simp, res_simps]: "ok_or None e = Inl e" "ok_or (Some v) e = Inr v"
  by (simp_all add: ok_or_def)

lemma ok_or_eq_Inr: "ok_or x e = Inr v \<longleftrightarrow> x = Some v"
  by (cases x) auto

lemma ok_or_eq_Inl: "ok_or x e = Inl e' \<longleftrightarrow> x = None \<and> e' = e"
  by (cases x) auto

lemma is_ok_simps [simp]: "is_ok (Inr v)" "\<not> is_ok (Inl e)"
  by (simp_all add: is_ok_def)

text \<open>Reading \<open>n\<close> consecutive items, in order, stopping at the first error.\<close>

primrec read_all :: "(nat \<Rightarrow> 'e + 'a) \<Rightarrow> nat \<Rightarrow> 'e + 'a list" where
  "read_all rd 0 = Inr []"
| "read_all rd (Suc n) = rbind (read_all rd n) (\<lambda>xs. rbind (rd n) (\<lambda>x. Inr (xs @ [x])))"

section \<open>Ordered maps\<close>

fun bt_insert :: "'k::linorder \<Rightarrow> 'v \<Rightarrow> ('k \<times> 'v) list \<Rightarrow> ('k \<times> 'v) list" where
  "bt_insert k v [] = [(k, v)]"
| "bt_insert k v ((k', v') # m) =
     (if k < k' then (k, v) # (k', v') # m
      else if k = k' then (k, v) # m
      else (k', v') # bt_insert k v m)"

fun bt_remove :: "'k \<Rightarrow> ('k \<times> 'v) list \<Rightarrow> ('k \<times> 'v) list" where
  "bt_remove k [] = []"
| "bt_remove k ((k', v') # m) = (if k = k' then m else (k', v') # bt_remove k m)"

definition bt_inv :: "('k::linorder \<times> 'v) list \<Rightarrow> bool" where
  "bt_inv m \<longleftrightarrow> sorted_wrt (<) (map fst m)"

lemma bt_inv_Nil [simp]: "bt_inv []"
  by (simp add: bt_inv_def)

lemma bt_inv_Cons [simp]: "bt_inv ((k, v) # m) \<longleftrightarrow> (\<forall>k' \<in> fst ` set m. k < k') \<and> bt_inv m"
  by (auto simp: bt_inv_def)

lemma bt_inv_append:
  "bt_inv (a @ b) \<longleftrightarrow> bt_inv a \<and> bt_inv b \<and> (\<forall>x \<in> fst ` set a. \<forall>y \<in> fst ` set b. x < y)"
  by (auto simp: bt_inv_def sorted_wrt_append)

lemma fst_set_bt_insert [bt_simps]: "fst ` set (bt_insert k v m) = insert k (fst ` set m)"
  by (induction m rule: bt_insert.induct) (auto simp: insert_commute)

lemma bt_inv_insert [simp, intro]: "bt_inv m \<Longrightarrow> bt_inv (bt_insert k v m)"
  by (induction k v m rule: bt_insert.induct) (auto simp: fst_set_bt_insert)

lemma map_of_bt_insert [bt_simps]: "map_of (bt_insert k v m) = (map_of m)(k \<mapsto> v)"
  by (induction k v m rule: bt_insert.induct) (auto simp: fun_eq_iff)

lemma set_bt_remove_subset: "set (bt_remove k m) \<subseteq> set m"
  by (induction k m rule: bt_remove.induct) auto

lemma bt_inv_remove [simp, intro]: "bt_inv m \<Longrightarrow> bt_inv (bt_remove k m)"
  by (induction k m rule: bt_remove.induct)
    (use set_bt_remove_subset in \<open>fastforce+\<close>)

lemma bt_inv_distinct: "bt_inv m \<Longrightarrow> distinct (map fst m)"
  by (simp add: bt_inv_def strict_sorted_iff)

lemma map_of_bt_remove [bt_simps]:
  "bt_inv m \<Longrightarrow> map_of (bt_remove k m) = (map_of m)(k := None)"
proof (induction k m rule: bt_remove.induct)
  case (2 k k' v' m)
  then have "k' \<notin> fst ` set m" by auto
  then have "map_of m k' = None" by (simp add: map_of_eq_None_iff)
  with 2 show ?case by (auto simp: fun_eq_iff)
qed simp

lemma set_bt_remove:
  "bt_inv m \<Longrightarrow> set (bt_remove k m) = {e \<in> set m. fst e \<noteq> k}"
  by (induction k m rule: bt_remove.induct) force+

lemma set_bt_insert:
  "bt_inv m \<Longrightarrow> set (bt_insert k v m) = insert (k, v) {e \<in> set m. fst e \<noteq> k}"
  by (induction k v m rule: bt_insert.induct) force+

lemma bt_remove_notin: "k \<notin> fst ` set m \<Longrightarrow> bt_remove k m = m"
  by (induction k m rule: bt_remove.induct) auto

lemma mset_bt_insert_fresh:
  "k \<notin> fst ` set m \<Longrightarrow> mset (bt_insert k v m) = add_mset (k, v) (mset m)"
  by (induction k v m rule: bt_insert.induct) auto

lemma bt_remove_insert_fresh:
  "bt_inv m \<Longrightarrow> k \<notin> fst ` set m \<Longrightarrow> bt_remove k (bt_insert k v m) = m"
  by (induction k v m rule: bt_insert.induct) (auto simp: bt_remove_notin)

lemma bt_inv_filter [simp, intro]: "bt_inv m \<Longrightarrow> bt_inv (filter P m)"
  by (induction m) auto

lemma bt_inv_map_of_mem: "bt_inv m \<Longrightarrow> (k, v) \<in> set m \<longleftrightarrow> map_of m k = Some v"
  by (simp add: bt_inv_distinct)

lemma bt_inv_eqI:
  assumes "bt_inv m" "bt_inv n" "map_of m = map_of n"
  shows "m = n"
proof -
  have "set m = set n"
    using assms by (metis bt_inv_map_of_mem subrelI subset_antisym)
  moreover have "sorted (map fst m)" "sorted (map fst n)" "distinct (map fst m)" "distinct (map fst n)"
    using assms by (auto simp: bt_inv_def strict_sorted_iff)
  moreover have "inj_on fst (set m \<union> set n)"
    using \<open>set m = set n\<close> \<open>distinct (map fst m)\<close> by (simp add: distinct_map)
  ultimately show ?thesis
    by (intro map_sorted_distinct_set_unique)
qed

section \<open>Lists and multisets\<close>

lemma distinct_map_add_mset:
  assumes "mset xs = add_mset x (mset ys)"
  shows "distinct (map f xs) \<longleftrightarrow> f x \<notin> f ` set ys \<and> distinct (map f ys)"
proof -
  have "mset (map f xs) = mset (map f (x # ys))" using assms by simp
  then have "distinct (map f xs) \<longleftrightarrow> distinct (map f (x # ys))"
    by (rule mset_eq_imp_distinct_iff)
  then show ?thesis by auto
qed

lemma set_add_mset: "mset xs = add_mset x (mset ys) \<Longrightarrow> set xs = insert x (set ys)"
  by (metis set_mset_add_mset_insert set_mset_mset)

text \<open>Summing a measure of the values of an ordered map.\<close>

definition bt_sum :: "('v \<Rightarrow> nat) \<Rightarrow> ('k \<times> 'v) list \<Rightarrow> nat" where
  "bt_sum f m = sum_list (map (f \<circ> snd) m)"

lemma bt_sum_simps [simp]: "bt_sum f [] = 0" "bt_sum f ((k, v) # m) = f v + bt_sum f m"
  by (simp_all add: bt_sum_def)

lemma bt_sum_remove: "map_of m k = Some v \<Longrightarrow> bt_sum f (bt_remove k m) + f v = bt_sum f m"
  by (induction k m rule: bt_remove.induct) (auto split: if_splits)

lemma bt_sum_insert:
  "bt_inv m \<Longrightarrow> bt_sum f (bt_insert k v m) + (case map_of m k of None \<Rightarrow> 0 | Some v' \<Rightarrow> f v')
     = bt_sum f m + f v"
proof (induction k v m rule: bt_insert.induct)
  case (2 k v k' v' m)
  have "map_of m k = None" if "k < k'"
    using 2(2) that by (force simp: map_of_eq_None_iff)
  with 2 show ?case by auto
qed simp

lemma length_bt_insert:
  "length (bt_insert k v m) = (if k \<in> fst ` set m then length m else Suc (length m))" if "bt_inv m"
  using that by (induction k v m rule: bt_insert.induct) force+

lemma length_bt_remove: "length (bt_remove k m) \<le> length m"
  by (induction k m rule: bt_remove.induct) auto

text \<open>A predicate on the values of an ordered map.\<close>

definition bt_all :: "('v \<Rightarrow> bool) \<Rightarrow> ('k \<times> 'v) list \<Rightarrow> bool" where
  "bt_all P m \<longleftrightarrow> list_all (P \<circ> snd) m"

lemma bt_all_simps [simp]: "bt_all P []" "bt_all P ((k, v) # m) \<longleftrightarrow> P v \<and> bt_all P m"
  by (simp_all add: bt_all_def)

lemma bt_all_insert [simp]: "bt_all P m \<Longrightarrow> P v \<Longrightarrow> bt_all P (bt_insert k v m)"
  by (induction k v m rule: bt_insert.induct) simp_all

lemma bt_all_remove [simp]: "bt_all P m \<Longrightarrow> bt_all P (bt_remove k m)"
  by (induction k m rule: bt_remove.induct) simp_all

lemma bt_all_get: "bt_all P m \<Longrightarrow> map_of m k = Some v \<Longrightarrow> P v"
  by (induction m) (auto split: if_splits)

lemma fold_inv: "P s \<Longrightarrow> (\<And>x s. P s \<Longrightarrow> P (f x s)) \<Longrightarrow> P (fold f xs s)"
  by (induction xs arbitrary: s) auto

lemma P_if: "P a \<Longrightarrow> P b \<Longrightarrow> P (if c then a else b)"
  by simp

end
