(* ===== verification/Errno.thy ===== *)
theory Errno
  imports Prelude
begin

text \<open>
  Error values (\<open>xmodules/xerrno\<close>). \<open>XError\<close> is the kernel-internal error enumeration with its
  \<open>i32\<close> discriminants 1 to 22, \<open>LinuxError\<close> the errno enumeration the build script generates from
  \<open>errno.h\<close>; the constructors kept here are the ones the modelled components return, and
  \<open>linux_code\<close> gives them the numbers of \<open>errno.h\<close>.
\<close>

datatype xerror =
    AddrInUse | AlreadyExists | BadAddress | BadState | ConnectionRefused | ConnectionReset
  | DirectoryNotEmpty | InvalidData | InvalidInput | Io | IsADirectory | NoMemory
  | NotADirectory | NotConnected | NotFound | PermissionDenied | ResourceBusy | StorageFull
  | UnexpectedEof | Unsupported | WouldBlock | WriteZero

datatype linux_error =
    EPERM | ENOENT | ESRCH | EINTR | EIO | E2BIG | EBADF | ECHILD
  | EAGAIN | ENOMEM | EACCES | EFAULT | EBUSY | EEXIST | EXDEV | ENOTDIR
  | EISDIR | EINVAL | EMFILE | EFBIG | ENOSPC | ESPIPE | EROFS | EPIPE
  | ERANGE | ENAMETOOLONG | ENOSYS | ENOTEMPTY | ELOOP | ENOMSG | EIDRM | EOPNOTSUPP
  | EADDRINUSE | ECONNRESET | ENOTCONN | ETIMEDOUT | ECONNREFUSED

type_synonym 'a xresult = "xerror + 'a"
type_synonym 'a linux_result = "linux_error + 'a"

definition xerror_variants :: "xerror list" where
  "xerror_variants =
     [AddrInUse, AlreadyExists, BadAddress, BadState, ConnectionRefused, ConnectionReset,
      DirectoryNotEmpty, InvalidData, InvalidInput, Io, IsADirectory, NoMemory,
      NotADirectory, NotConnected, NotFound, PermissionDenied, ResourceBusy,
      StorageFull, UnexpectedEof, Unsupported, WouldBlock, WriteZero]"

primrec xerror_code :: "xerror \<Rightarrow> int" where
  "xerror_code AddrInUse = 1"
| "xerror_code AlreadyExists = 2"
| "xerror_code BadAddress = 3"
| "xerror_code BadState = 4"
| "xerror_code ConnectionRefused = 5"
| "xerror_code ConnectionReset = 6"
| "xerror_code DirectoryNotEmpty = 7"
| "xerror_code InvalidData = 8"
| "xerror_code InvalidInput = 9"
| "xerror_code Io = 10"
| "xerror_code IsADirectory = 11"
| "xerror_code NoMemory = 12"
| "xerror_code NotADirectory = 13"
| "xerror_code NotConnected = 14"
| "xerror_code NotFound = 15"
| "xerror_code PermissionDenied = 16"
| "xerror_code ResourceBusy = 17"
| "xerror_code StorageFull = 18"
| "xerror_code UnexpectedEof = 19"
| "xerror_code Unsupported = 20"
| "xerror_code WouldBlock = 21"
| "xerror_code WriteZero = 22"

text \<open>\<open>TryFrom<i32>\<close>: a code in \<open>1..=variant_count\<close> is transmuted to the variant with that
  discriminant, every other code is handed back as the error.\<close>

definition xerror_try_from :: "int \<Rightarrow> int + xerror" where
  "xerror_try_from value =
     (if 0 < value \<and> value \<le> int (length xerror_variants)
      then Inr (xerror_variants ! nat (value - 1)) else Inl value)"

primrec linux_error_from :: "xerror \<Rightarrow> linux_error" where
  "linux_error_from AddrInUse = EADDRINUSE"
| "linux_error_from AlreadyExists = EEXIST"
| "linux_error_from BadAddress = EFAULT"
| "linux_error_from BadState = EFAULT"
| "linux_error_from ConnectionRefused = ECONNREFUSED"
| "linux_error_from ConnectionReset = ECONNRESET"
| "linux_error_from DirectoryNotEmpty = ENOTEMPTY"
| "linux_error_from InvalidData = EINVAL"
| "linux_error_from InvalidInput = EINVAL"
| "linux_error_from Io = EIO"
| "linux_error_from IsADirectory = EISDIR"
| "linux_error_from NoMemory = ENOMEM"
| "linux_error_from NotADirectory = ENOTDIR"
| "linux_error_from NotConnected = ENOTCONN"
| "linux_error_from NotFound = ENOENT"
| "linux_error_from PermissionDenied = EACCES"
| "linux_error_from ResourceBusy = EBUSY"
| "linux_error_from StorageFull = ENOSPC"
| "linux_error_from UnexpectedEof = EIO"
| "linux_error_from Unsupported = ENOSYS"
| "linux_error_from WouldBlock = EAGAIN"
| "linux_error_from WriteZero = EIO"

primrec linux_code :: "linux_error \<Rightarrow> int" where
  "linux_code EPERM = 1"
| "linux_code ENOENT = 2"
| "linux_code ESRCH = 3"
| "linux_code EINTR = 4"
| "linux_code EIO = 5"
| "linux_code E2BIG = 7"
| "linux_code EBADF = 9"
| "linux_code ECHILD = 10"
| "linux_code EAGAIN = 11"
| "linux_code ENOMEM = 12"
| "linux_code EACCES = 13"
| "linux_code EFAULT = 14"
| "linux_code EBUSY = 16"
| "linux_code EEXIST = 17"
| "linux_code EXDEV = 18"
| "linux_code ENOTDIR = 20"
| "linux_code EISDIR = 21"
| "linux_code EINVAL = 22"
| "linux_code EMFILE = 24"
| "linux_code EFBIG = 27"
| "linux_code ENOSPC = 28"
| "linux_code ESPIPE = 29"
| "linux_code EROFS = 30"
| "linux_code EPIPE = 32"
| "linux_code ERANGE = 34"
| "linux_code ENAMETOOLONG = 36"
| "linux_code ENOSYS = 38"
| "linux_code ENOTEMPTY = 39"
| "linux_code ELOOP = 40"
| "linux_code ENOMSG = 42"
| "linux_code EIDRM = 43"
| "linux_code EOPNOTSUPP = 95"
| "linux_code EADDRINUSE = 98"
| "linux_code ECONNRESET = 104"
| "linux_code ENOTCONN = 107"
| "linux_code ETIMEDOUT = 110"
| "linux_code ECONNREFUSED = 111"

lemma xerror_code_range: "0 < xerror_code e \<and> xerror_code e \<le> 22"
  by (cases e) simp_all

lemma xerror_variants_nth: "xerror_variants ! nat (xerror_code e - 1) = e"
  by (cases e) (simp_all add: xerror_variants_def)

lemma xerror_code_nth:
  "i < 22 \<Longrightarrow> xerror_code (xerror_variants ! i) = int i + 1"
  by (simp add: xerror_variants_def less_Suc_eq numeral_eq_Suc) auto

lemma linux_code_inj: "linux_code a = linux_code b \<longleftrightarrow> a = b"
  by (cases a; cases b) simp_all

text \<open>C38: an internal error survives the trip through its \<open>i32\<close> code, and \<open>try_from\<close> accepts exactly
  the codes of the 22 variants: whatever it accepts has the code it was given.\<close>

theorem xerror_try_from_code:
  "xerror_try_from v = Inr e \<longleftrightarrow> xerror_code e = v"
proof
  assume "xerror_try_from v = Inr e"
  then have v: "0 < v" "v \<le> 22" and e: "e = xerror_variants ! nat (v - 1)"
    by (auto simp: xerror_try_from_def xerror_variants_def split: if_splits)
  then have "nat (v - 1) < 22" by linarith
  from xerror_code_nth [OF this] v e show "xerror_code e = v" by simp
next
  assume "xerror_code e = v"
  then show "xerror_try_from v = Inr e"
    using xerror_code_range [of e] xerror_variants_nth [of e]
    by (auto simp: xerror_try_from_def xerror_variants_def)
qed

end
