(* ===== verification/Sched.thy ===== *)
theory Sched
  imports Prelude "HOL-Library.Signed_Division"
begin

text \<open>
  The schedulers of \<open>xmodules/xsched\<close>. A task is an \<open>Arc\<close> pointer \<open>'p\<close>; the fields a scheduler keeps
  in the task itself (time slice, virtual runtime, nice value, id) are atomics of the shared
  object, so the models hold them in a store indexed by the pointer, next to the ready queue.
  The trait \<open>BaseScheduler\<close> is the record \<open>base_scheduler_ops\<close> and its contract the locale
  \<open>base_scheduler\<close>, discharged for the FIFO, round-robin and completely-fair implementations.
  The intrusive linked list of the first two is a third-party crate: its operations are the
  record \<open>linked_list_ops\<close>, its documented behaviour the locale \<open>intrusive_list\<close>. A result \<open>None\<close> of a
  scheduler operation is a panic of the code.
\<close>

section \<open>The scheduler trait and its contract\<close>

record ('s, 'p) base_scheduler_ops =
  add_task :: "'s \<Rightarrow> 'p \<Rightarrow> 's option"
  remove_task :: "'s \<Rightarrow> 'p \<Rightarrow> ('s \<times> 'p option) option"
  pick_next_task :: "'s \<Rightarrow> ('s \<times> 'p option) option"
  put_prev_task :: "'s \<Rightarrow> 'p \<Rightarrow> bool \<Rightarrow> 's option"
  task_tick :: "'s \<Rightarrow> 'p \<Rightarrow> ('s \<times> bool) option"
  set_priority :: "'s \<Rightarrow> 'p \<Rightarrow> isize \<Rightarrow> ('s \<times> bool) option"

text \<open>A client's calls, and a run of them: the tasks a run hands over and the ones it gets back.\<close>

datatype 'p sched_call =
    Add 'p | Remove 'p | Pick | Put 'p bool | Tick 'p | SetPrio 'p isize

primrec sched_step ::
    "('s, 'p) base_scheduler_ops \<Rightarrow> 's \<Rightarrow> 'p sched_call \<Rightarrow> ('s \<times> 'p option) option" where
  "sched_step B s (Add p) = map_option (\<lambda>s'. (s', None)) (add_task B s p)"
| "sched_step B s (Remove p) = remove_task B s p"
| "sched_step B s Pick = pick_next_task B s"
| "sched_step B s (Put p preempt) = map_option (\<lambda>s'. (s', None)) (put_prev_task B s p preempt)"
| "sched_step B s (Tick p) = map_option (\<lambda>(s', _). (s', None)) (task_tick B s p)"
| "sched_step B s (SetPrio p n) = map_option (\<lambda>(s', _). (s', None)) (set_priority B s p n)"

fun sched_run ::
    "('s, 'p) base_scheduler_ops \<Rightarrow> 's \<Rightarrow> 'p sched_call list \<Rightarrow> ('s \<times> 'p list) option" where
  "sched_run B s [] = Some (s, [])"
| "sched_run B s (c # cs) =
     (case sched_step B s c of
        None \<Rightarrow> None
      | Some (s', out) \<Rightarrow>
          map_option (\<lambda>(s'', outs). (s'', (case out of None \<Rightarrow> outs | Some p \<Rightarrow> p # outs)))
            (sched_run B s' cs))"

fun handed_in :: "'p sched_call list \<Rightarrow> 'p list" where
  "handed_in [] = []"
| "handed_in (Add p # cs) = p # handed_in cs"
| "handed_in (Put p _ # cs) = p # handed_in cs"
| "handed_in (_ # cs) = handed_in cs"

text \<open>The caller's side of the contract holds at every call of a run.\<close>

fun calls_ok ::
    "('s, 'p) base_scheduler_ops \<Rightarrow> ('s \<Rightarrow> 'p sched_call \<Rightarrow> bool) \<Rightarrow> 's \<Rightarrow> 'p sched_call list \<Rightarrow> bool"
  where
  "calls_ok B pre s [] \<longleftrightarrow> True"
| "calls_ok B pre s (c # cs) \<longleftrightarrow>
     pre s c \<and> (case sched_step B s c of None \<Rightarrow> True | Some (s', _) \<Rightarrow> calls_ok B pre s' cs)"

locale base_scheduler =
  fixes B :: "('s, 'p) base_scheduler_ops"
    and inv :: "'s \<Rightarrow> bool"
    and ready :: "'s \<Rightarrow> 'p list"
    and pre :: "'s \<Rightarrow> 'p sched_call \<Rightarrow> bool"
  assumes add_law: "inv s \<Longrightarrow> pre s (Add p) \<Longrightarrow>
      \<exists>s'. add_task B s p = Some s' \<and> inv s' \<and> mset (ready s') = add_mset p (mset (ready s))"
    and put_law: "inv s \<Longrightarrow> pre s (Put p b) \<Longrightarrow>
      \<exists>s'. put_prev_task B s p b = Some s' \<and> inv s' \<and> mset (ready s') = add_mset p (mset (ready s))"
    and remove_law: "inv s \<Longrightarrow> pre s (Remove p) \<Longrightarrow>
      \<exists>s'. remove_task B s p = Some (s', Some p) \<and> inv s' \<and>
           mset (ready s) = add_mset p (mset (ready s'))"
    and pick_law: "inv s \<Longrightarrow> pre s Pick \<Longrightarrow>
      \<exists>s'. inv s' \<and> ready s' = tl (ready s) \<and>
           pick_next_task B s = Some (s', (case ready s of [] \<Rightarrow> None | p # _ \<Rightarrow> Some p))"
    and tick_law: "inv s \<Longrightarrow> pre s (Tick p) \<Longrightarrow>
      \<exists>s' b. task_tick B s p = Some (s', b) \<and> inv s' \<and> ready s' = ready s"
    and prio_law: "inv s \<Longrightarrow> pre s (SetPrio p n) \<Longrightarrow>
      \<exists>s' b. set_priority B s p n = Some (s', b) \<and> inv s' \<and> ready s' = ready s"
begin

lemma step_conserves:
  assumes "inv s" "pre s c"
  shows "\<exists>s' out. sched_step B s c = Some (s', out) \<and> inv s' \<and>
    mset (ready s') + mset (case out of None \<Rightarrow> [] | Some p \<Rightarrow> [p])
      = mset (ready s) + mset (handed_in [c])"
proof (cases c)
  case (Add p) with add_law [of s p] assms show ?thesis by auto
next
  case (Remove p) with remove_law [of s p] assms show ?thesis by auto
next
  case Pick
  with pick_law [of s] assms show ?thesis by (cases "ready s") auto
next
  case (Put p b) with put_law [of s p b] assms show ?thesis by auto
next
  case (Tick p) with tick_law [of s p] assms show ?thesis by auto
next
  case (SetPrio p n) with prio_law [of s p n] assms show ?thesis by auto
qed

lemma handed_in_Cons: "handed_in (c # cs) = handed_in [c] @ handed_in cs"
  by (cases c) auto

text \<open>No call panics, and the tasks queued at the end together with the tasks handed back are the
  tasks queued at the start together with the tasks handed in.\<close>

lemma run_conserves:
  "inv s \<Longrightarrow> calls_ok B pre s cs \<Longrightarrow>
    \<exists>s' outs. sched_run B s cs = Some (s', outs) \<and> inv s' \<and>
      mset (ready s') + mset outs = mset (ready s) + mset (handed_in cs)"
proof (induction cs arbitrary: s)
  case (Cons c cs)
  obtain s1 o1 where 1: "sched_step B s c = Some (s1, o1)" "inv s1"
    and m1: "mset (ready s1) + mset (case o1 of None \<Rightarrow> [] | Some p \<Rightarrow> [p])
      = mset (ready s) + mset (handed_in [c])"
    using step_conserves [of s c] Cons.prems by auto
  obtain s2 o2 where 2: "sched_run B s1 cs = Some (s2, o2)" "inv s2"
    and m2: "mset (ready s2) + mset o2 = mset (ready s1) + mset (handed_in cs)"
    using Cons.IH [of s1] Cons.prems 1 by auto
  let ?x = "mset (case o1 of None \<Rightarrow> [] | Some p \<Rightarrow> [p])"
  have "mset (ready s2) + (mset o2 + ?x) = (mset (ready s2) + mset o2) + ?x"
    by (simp add: ac_simps)
  also have "\<dots> = (mset (ready s1) + ?x) + mset (handed_in cs)"
    unfolding m2 by (simp add: ac_simps)
  also have "\<dots> = mset (ready s) + mset (handed_in (c # cs))"
    unfolding m1 handed_in_Cons [of c cs] by (simp add: ac_simps)
  finally have "mset (ready s2) + (mset o2 + ?x) = mset (ready s) + mset (handed_in (c # cs))" .
  then show ?case using 1 2 by (cases o1) simp_all
qed simp

end

section \<open>The intrusive linked list\<close>

record ('q, 'p) linked_list_ops =
  ll_push_back :: "'q \<Rightarrow> 'p \<Rightarrow> 'q"
  ll_push_front :: "'q \<Rightarrow> 'p \<Rightarrow> 'q"
  ll_pop_front :: "'q \<Rightarrow> 'q \<times> 'p option"
  ll_cursor_remove :: "'q \<Rightarrow> 'p \<Rightarrow> 'q \<times> 'p option"

locale intrusive_list =
  fixes L :: "('q, 'p) linked_list_ops"
    and view :: "'q \<Rightarrow> 'p list"
  assumes push_back: "p \<notin> set (view q) \<Longrightarrow> view (ll_push_back L q p) = view q @ [p]"
    and push_front: "p \<notin> set (view q) \<Longrightarrow> view (ll_push_front L q p) = p # view q"
    and pop_front: "snd (ll_pop_front L q) = (case view q of [] \<Rightarrow> None | p # _ \<Rightarrow> Some p)"
      "view (fst (ll_pop_front L q)) = tl (view q)"
    and cursor_remove: "p \<in> set (view q) \<Longrightarrow> snd (ll_cursor_remove L q p) = Some p"
      "p \<in> set (view q) \<Longrightarrow> view (fst (ll_cursor_remove L q p)) = remove1 p (view q)"

definition list_ops :: "('p list, 'p) linked_list_ops" where
  "list_ops = \<lparr>ll_push_back = (\<lambda>q p. q @ [p]), ll_push_front = (\<lambda>q p. p # q),
     ll_pop_front = (\<lambda>q. (tl q, (case q of [] \<Rightarrow> None | p # _ \<Rightarrow> Some p))),
     ll_cursor_remove = (\<lambda>q p. (remove1 p q, if p \<in> set q then Some p else None))\<rparr>"

interpretation plain_list: intrusive_list list_ops "\<lambda>q. q"
  by unfold_locales (auto simp: list_ops_def)

section \<open>FIFO\<close>

record 'q fifo_scheduler =
  fifo_queue :: 'q

definition fifo_add_task ::
    "('q, 'p) linked_list_ops \<Rightarrow> 'q fifo_scheduler \<Rightarrow> 'p \<Rightarrow> 'q fifo_scheduler" where
  "fifo_add_task L s task = s\<lparr>fifo_queue := ll_push_back L (fifo_queue s) task\<rparr>"

definition fifo_remove_task ::
    "('q, 'p) linked_list_ops \<Rightarrow> 'q fifo_scheduler \<Rightarrow> 'p \<Rightarrow> 'q fifo_scheduler \<times> 'p option" where
  "fifo_remove_task L s task =
     (let (q, removed) = ll_cursor_remove L (fifo_queue s) task in (s\<lparr>fifo_queue := q\<rparr>, removed))"

definition fifo_pick_next_task ::
    "('q, 'p) linked_list_ops \<Rightarrow> 'q fifo_scheduler \<Rightarrow> 'q fifo_scheduler \<times> 'p option" where
  "fifo_pick_next_task L s =
     (let (q, next) = ll_pop_front L (fifo_queue s) in (s\<lparr>fifo_queue := q\<rparr>, next))"

definition fifo_put_prev_task ::
    "('q, 'p) linked_list_ops \<Rightarrow> 'q fifo_scheduler \<Rightarrow> 'p \<Rightarrow> bool \<Rightarrow> 'q fifo_scheduler" where
  "fifo_put_prev_task L s prev preempt = s\<lparr>fifo_queue := ll_push_back L (fifo_queue s) prev\<rparr>"

definition fifo_task_tick :: "'q fifo_scheduler \<Rightarrow> 'p \<Rightarrow> bool" where
  "fifo_task_tick s current = False"

definition fifo_set_priority :: "'q fifo_scheduler \<Rightarrow> 'p \<Rightarrow> isize \<Rightarrow> bool" where
  "fifo_set_priority s task prio = False"

definition fifo_ops ::
    "('q, 'p) linked_list_ops \<Rightarrow> ('q fifo_scheduler, 'p) base_scheduler_ops" where
  "fifo_ops L =
     \<lparr>add_task = (\<lambda>s p. Some (fifo_add_task L s p)),
      remove_task = (\<lambda>s p. Some (fifo_remove_task L s p)),
      pick_next_task = (\<lambda>s. Some (fifo_pick_next_task L s)),
      put_prev_task = (\<lambda>s p b. Some (fifo_put_prev_task L s p b)),
      task_tick = (\<lambda>s p. Some (s, fifo_task_tick s p)),
      set_priority = (\<lambda>s p n. Some (s, fifo_set_priority s p n))\<rparr>"

lemmas fifo_defs = fifo_add_task_def fifo_remove_task_def fifo_pick_next_task_def
  fifo_put_prev_task_def fifo_task_tick_def fifo_set_priority_def fifo_ops_def

section \<open>Round robin\<close>

record ('q, 'p) rr_scheduler =
  rr_queue :: 'q
  rr_time_slice :: "'p \<Rightarrow> isize"

definition rr_new_slice :: "usize \<Rightarrow> isize" where
  "rr_new_slice S = wrap_isize (int S)"

definition rr_reset_time_slice ::
    "usize \<Rightarrow> ('q, 'p) rr_scheduler \<Rightarrow> 'p \<Rightarrow> ('q, 'p) rr_scheduler" where
  "rr_reset_time_slice S s task =
     s\<lparr>rr_time_slice := (rr_time_slice s)(task := wrap_isize (int S))\<rparr>"

definition rr_add_task ::
    "('q, 'p) linked_list_ops \<Rightarrow> ('q, 'p) rr_scheduler \<Rightarrow> 'p \<Rightarrow> ('q, 'p) rr_scheduler" where
  "rr_add_task L s task = s\<lparr>rr_queue := ll_push_back L (rr_queue s) task\<rparr>"

definition rr_remove_task ::
    "('q, 'p) linked_list_ops \<Rightarrow> ('q, 'p) rr_scheduler \<Rightarrow> 'p \<Rightarrow> ('q, 'p) rr_scheduler \<times> 'p option"
  where
  "rr_remove_task L s task =
     (let (q, removed) = ll_cursor_remove L (rr_queue s) task in (s\<lparr>rr_queue := q\<rparr>, removed))"

definition rr_pick_next_task ::
    "('q, 'p) linked_list_ops \<Rightarrow> ('q, 'p) rr_scheduler \<Rightarrow> ('q, 'p) rr_scheduler \<times> 'p option" where
  "rr_pick_next_task L s =
     (let (q, next) = ll_pop_front L (rr_queue s) in (s\<lparr>rr_queue := q\<rparr>, next))"

definition rr_put_prev_task ::
    "('q, 'p) linked_list_ops \<Rightarrow> usize \<Rightarrow> ('q, 'p) rr_scheduler \<Rightarrow> 'p \<Rightarrow> bool \<Rightarrow> ('q, 'p) rr_scheduler"
  where
  "rr_put_prev_task L S s prev preempt =
     (if rr_time_slice s prev > 0 \<and> preempt
      then s\<lparr>rr_queue := ll_push_front L (rr_queue s) prev\<rparr>
      else let s' = rr_reset_time_slice S s prev
           in s'\<lparr>rr_queue := ll_push_back L (rr_queue s') prev\<rparr>)"

definition rr_task_tick :: "('q, 'p) rr_scheduler \<Rightarrow> 'p \<Rightarrow> ('q, 'p) rr_scheduler \<times> bool" where
  "rr_task_tick s current =
     (let old_slice = rr_time_slice s current in
      (s\<lparr>rr_time_slice := (rr_time_slice s)(current := wrap_isize (old_slice - 1))\<rparr>, old_slice \<le> 1))"

definition rr_set_priority :: "('q, 'p) rr_scheduler \<Rightarrow> 'p \<Rightarrow> isize \<Rightarrow> bool" where
  "rr_set_priority s task prio = False"

definition rr_ops ::
    "('q, 'p) linked_list_ops \<Rightarrow> usize \<Rightarrow> (('q, 'p) rr_scheduler, 'p) base_scheduler_ops" where
  "rr_ops L S =
     \<lparr>add_task = (\<lambda>s p. Some (rr_add_task L s p)),
      remove_task = (\<lambda>s p. Some (rr_remove_task L s p)),
      pick_next_task = (\<lambda>s. Some (rr_pick_next_task L s)),
      put_prev_task = (\<lambda>s p b. Some (rr_put_prev_task L S s p b)),
      task_tick = (\<lambda>s p. Some (rr_task_tick s p)),
      set_priority = (\<lambda>s p n. Some (s, rr_set_priority s p n))\<rparr>"

lemmas rr_defs = rr_new_slice_def rr_reset_time_slice_def rr_add_task_def rr_remove_task_def
  rr_pick_next_task_def rr_put_prev_task_def rr_task_tick_def rr_set_priority_def rr_ops_def

text \<open>The caller of both queue schedulers hands over tasks that are not queued and removes tasks
  that are.\<close>

fun queue_pre :: "('s \<Rightarrow> 'p list) \<Rightarrow> 's \<Rightarrow> 'p sched_call \<Rightarrow> bool" where
  "queue_pre ready s (Add p) \<longleftrightarrow> p \<notin> set (ready s)"
| "queue_pre ready s (Put p _) \<longleftrightarrow> p \<notin> set (ready s)"
| "queue_pre ready s (Remove p) \<longleftrightarrow> p \<in> set (ready s)"
| "queue_pre ready s _ \<longleftrightarrow> True"

sublocale intrusive_list \<subseteq> fifo: base_scheduler "fifo_ops L" "\<lambda>s. distinct (view (fifo_queue s))"
    "\<lambda>s. view (fifo_queue s)" "queue_pre (\<lambda>s. view (fifo_queue s))"
proof (unfold_locales, goal_cases)
  case (1 s p) then show ?case by (simp add: fifo_defs push_back)
next
  case (2 s p b) then show ?case by (simp add: fifo_defs push_back)
next
  case (3 s p) then show ?case by (simp add: fifo_defs Let_def case_prod_beta cursor_remove)
next
  case (4 s) then show ?case by (simp add: fifo_defs Let_def case_prod_beta pop_front distinct_tl)
next
  case (5 s p) then show ?case by (auto simp: fifo_defs)
next
  case (6 s p n) then show ?case by (auto simp: fifo_defs)
qed

sublocale intrusive_list \<subseteq> rr: base_scheduler "rr_ops L S" "\<lambda>s. distinct (view (rr_queue s))"
    "\<lambda>s. view (rr_queue s)" "queue_pre (\<lambda>s. view (rr_queue s))" for S
proof (unfold_locales, goal_cases)
  case (1 s p) then show ?case by (simp add: rr_defs push_back)
next
  case (2 s p b) then show ?case by (simp add: rr_defs Let_def push_back push_front)
next
  case (3 s p) then show ?case by (simp add: rr_defs Let_def case_prod_beta cursor_remove)
next
  case (4 s) then show ?case by (simp add: rr_defs Let_def case_prod_beta pop_front distinct_tl)
next
  case (5 s p) then show ?case by (simp add: rr_defs Let_def)
next
  case (6 s p n) then show ?case by (auto simp: rr_defs)
qed

context intrusive_list
begin

lemmas fifo_run_conserves = fifo.run_conserves
lemmas rr_run_conserves = rr.run_conserves

end

section \<open>Completely fair scheduler\<close>

record cfs_task =
  init_vruntime :: isize
  delta :: isize
  nice :: isize
  cfs_id :: isize

record 'p cfs_scheduler =
  cfs_queue :: "((isize \<times> isize) \<times> 'p) list"
  min_vruntime :: "isize option"
  id_pool :: isize
  cfs_tasks :: "'p \<Rightarrow> cfs_task"

definition NICE2WEIGHT_POS :: "isize list" where
  "NICE2WEIGHT_POS =
     [1024, 820, 655, 526, 423, 335, 272, 215, 172, 137, 110, 87, 70, 56, 45, 36, 29, 23, 18, 15]"

definition NICE2WEIGHT_NEG :: "isize list" where
  "NICE2WEIGHT_NEG =
     [1024, 1277, 1586, 1991, 2501, 3121, 3906, 4904, 6100, 7620, 9548, 11916, 14949, 18705, 23254,
      29154, 36291, 46273, 56483, 71755, 88761]"

definition cfs_task_new :: cfs_task where
  "cfs_task_new = \<lparr>init_vruntime = 0, delta = 0, nice = 0, cfs_id = 0\<rparr>"

text \<open>Indexing past the end of a weight table panics: \<open>None\<close>.\<close>

definition get_weight :: "cfs_task \<Rightarrow> isize option" where
  "get_weight t =
     (let table = (if nice t \<ge> 0 then NICE2WEIGHT_POS else NICE2WEIGHT_NEG);
          i = nat (if nice t \<ge> 0 then nice t else - nice t)
      in if i < length table then Some (table ! i) else None)"

definition get_vruntime :: "cfs_task \<Rightarrow> isize option" where
  "get_vruntime t =
     (if nice t = 0 then Some (wrap_isize (init_vruntime t + delta t))
      else map_option
        (\<lambda>w. wrap_isize (init_vruntime t + wrap_isize (delta t * 1024) sdiv w)) (get_weight t))"

definition set_vruntime :: "isize \<Rightarrow> cfs_task \<Rightarrow> cfs_task" where
  "set_vruntime v t = t\<lparr>init_vruntime := v\<rparr>"

definition cfs_task_set_priority :: "isize \<Rightarrow> cfs_task \<Rightarrow> cfs_task option" where
  "cfs_task_set_priority n t =
     map_option (\<lambda>v. t\<lparr>init_vruntime := v, delta := 0, nice := n\<rparr>) (get_vruntime t)"

definition set_id :: "isize \<Rightarrow> cfs_task \<Rightarrow> cfs_task" where
  "set_id i t = t\<lparr>cfs_id := i\<rparr>"

definition cfs_task_task_tick :: "cfs_task \<Rightarrow> cfs_task" where
  "cfs_task_task_tick t = t\<lparr>delta := wrap_isize (delta t + 1)\<rparr>"

definition cfs_new :: "('p \<Rightarrow> cfs_task) \<Rightarrow> 'p cfs_scheduler" where
  "cfs_new ts = \<lparr>cfs_queue = [], min_vruntime = None, id_pool = 0, cfs_tasks = ts\<rparr>"

text \<open>\<open>first_key_value\<close> of the ready queue, as the new \<open>min_vruntime\<close>.\<close>

definition first_vruntime :: "((isize \<times> isize) \<times> 'p) list \<Rightarrow> isize option" where
  "first_vruntime q = (case q of [] \<Rightarrow> None | ((v, _), _) # _ \<Rightarrow> Some v)"

definition cfs_add_task :: "'p cfs_scheduler \<Rightarrow> 'p \<Rightarrow> 'p cfs_scheduler" where
  "cfs_add_task s task =
     (let vruntime = (case min_vruntime s of None \<Rightarrow> 0 | Some v \<Rightarrow> v);
          taskid = id_pool s;
          q = bt_insert (vruntime, taskid) task (cfs_queue s)
      in \<lparr>cfs_queue = q, min_vruntime = first_vruntime q, id_pool = wrap_isize (id_pool s + 1),
          cfs_tasks = (cfs_tasks s)(task := set_id taskid (set_vruntime vruntime (cfs_tasks s task)))\<rparr>)"

definition cfs_remove_task :: "'p cfs_scheduler \<Rightarrow> 'p \<Rightarrow> ('p cfs_scheduler \<times> 'p option) option" where
  "cfs_remove_task s task =
     map_option
       (\<lambda>v. let key = (v, cfs_id (cfs_tasks s task)) in
         (case map_of (cfs_queue s) key of
            None \<Rightarrow> (s, None)
          | Some tmp \<Rightarrow>
              let q = bt_remove key (cfs_queue s)
              in (s\<lparr>cfs_queue := q, min_vruntime := first_vruntime q\<rparr>, Some tmp)))
       (get_vruntime (cfs_tasks s task))"

definition cfs_pick_next_task :: "'p cfs_scheduler \<Rightarrow> 'p cfs_scheduler \<times> 'p option" where
  "cfs_pick_next_task s =
     (case cfs_queue s of [] \<Rightarrow> (s, None) | (_, v) # q \<Rightarrow> (s\<lparr>cfs_queue := q\<rparr>, Some v))"

definition cfs_put_prev_task :: "'p cfs_scheduler \<Rightarrow> 'p \<Rightarrow> bool \<Rightarrow> 'p cfs_scheduler option" where
  "cfs_put_prev_task s prev preempt =
     (let taskid = id_pool s; t = set_id taskid (cfs_tasks s prev)
      in map_option
           (\<lambda>v. s\<lparr>cfs_queue := bt_insert (v, taskid) prev (cfs_queue s),
                  id_pool := wrap_isize (id_pool s + 1), cfs_tasks := (cfs_tasks s)(prev := t)\<rparr>)
           (get_vruntime t))"

definition cfs_task_tick :: "'p cfs_scheduler \<Rightarrow> 'p \<Rightarrow> ('p cfs_scheduler \<times> bool) option" where
  "cfs_task_tick s current =
     (let t = cfs_task_task_tick (cfs_tasks s current);
          s' = s\<lparr>cfs_tasks := (cfs_tasks s)(current := t)\<rparr>
      in if cfs_queue s = [] then Some (s', False)
         else case min_vruntime s of
             None \<Rightarrow> Some (s', True)
           | Some m \<Rightarrow> map_option (\<lambda>v. (s', v > m)) (get_vruntime t))"

definition cfs_set_priority ::
    "'p cfs_scheduler \<Rightarrow> 'p \<Rightarrow> isize \<Rightarrow> ('p cfs_scheduler \<times> bool) option" where
  "cfs_set_priority s task prio =
     (if -20 \<le> prio \<and> prio \<le> 19
      then map_option (\<lambda>t. (s\<lparr>cfs_tasks := (cfs_tasks s)(task := t)\<rparr>, True))
             (cfs_task_set_priority prio (cfs_tasks s task))
      else Some (s, False))"

definition cfs_ops :: "('p cfs_scheduler, 'p) base_scheduler_ops" where
  "cfs_ops =
     \<lparr>add_task = (\<lambda>s p. Some (cfs_add_task s p)), remove_task = cfs_remove_task,
      pick_next_task = (\<lambda>s. Some (cfs_pick_next_task s)), put_prev_task = cfs_put_prev_task,
      task_tick = cfs_task_tick, set_priority = cfs_set_priority\<rparr>"

definition nice_ok :: "cfs_task \<Rightarrow> bool" where
  "nice_ok t \<longleftrightarrow> -20 \<le> nice t \<and> nice t \<le> 19"

text \<open>Every queued task sits under the key \<open>(vruntime, id)\<close> its own fields give, and ids are fresh.\<close>

definition cfs_inv :: "'p cfs_scheduler \<Rightarrow> bool" where
  "cfs_inv s \<longleftrightarrow>
     bt_inv (cfs_queue s) \<and> distinct (map snd (cfs_queue s)) \<and> 0 \<le> id_pool s \<and> isize_range (id_pool s) \<and>
     (\<forall>v. min_vruntime s = Some v \<longrightarrow> isize_range v) \<and>
     (\<forall>((v, i), p) \<in> set (cfs_queue s).
        get_vruntime (cfs_tasks s p) = Some v \<and> cfs_id (cfs_tasks s p) = i \<and> i < id_pool s \<and>
        nice_ok (cfs_tasks s p))"

definition cfs_ready :: "'p cfs_scheduler \<Rightarrow> 'p list" where
  "cfs_ready s = map snd (cfs_queue s)"

fun cfs_pre :: "'p cfs_scheduler \<Rightarrow> 'p sched_call \<Rightarrow> bool" where
  "cfs_pre s (Add p) \<longleftrightarrow>
     p \<notin> set (cfs_ready s) \<and> nice_ok (cfs_tasks s p) \<and> delta (cfs_tasks s p) = 0 \<and>
     id_pool s + 1 < 2 ^ 63"
| "cfs_pre s (Put p _) \<longleftrightarrow>
     p \<notin> set (cfs_ready s) \<and> nice_ok (cfs_tasks s p) \<and> id_pool s + 1 < 2 ^ 63"
| "cfs_pre s (Remove p) \<longleftrightarrow> p \<in> set (cfs_ready s)"
| "cfs_pre s (Tick p) \<longleftrightarrow> p \<notin> set (cfs_ready s) \<and> nice_ok (cfs_tasks s p)"
| "cfs_pre s (SetPrio p n) \<longleftrightarrow> nice_ok (cfs_tasks s p)"
| "cfs_pre s Pick \<longleftrightarrow> True"

lemma get_weight_pos: "nice_ok t \<Longrightarrow> \<exists>w > 0. get_weight t = Some w"
proof -
  assume "nice_ok t"
  then have "nice t \<ge> 0 \<Longrightarrow> nat (nice t) < length NICE2WEIGHT_POS"
    and "\<not> nice t \<ge> 0 \<Longrightarrow> nat (- nice t) < length NICE2WEIGHT_NEG"
    by (auto simp: nice_ok_def NICE2WEIGHT_POS_def NICE2WEIGHT_NEG_def)
  moreover have "\<forall>w \<in> set NICE2WEIGHT_POS \<union> set NICE2WEIGHT_NEG. w > 0"
    by (simp add: NICE2WEIGHT_POS_def NICE2WEIGHT_NEG_def)
  ultimately show ?thesis
    by (auto simp: get_weight_def Let_def)
qed

lemma get_vruntime_total:
  assumes "nice_ok t"
  obtains v where "get_vruntime t = Some v" "isize_range v"
  using get_weight_pos [OF assms] by (cases "nice t = 0") (auto simp: get_vruntime_def)

lemma get_vruntime_set_id [simp]: "get_vruntime (set_id i t) = get_vruntime t"
  by (simp add: get_vruntime_def get_weight_def set_id_def)

lemma get_vruntime_delta_0:
  "nice_ok t \<Longrightarrow> delta t = 0 \<Longrightarrow> get_vruntime t = Some (wrap_isize (init_vruntime t))"
  using get_weight_pos [of t] by (auto simp: get_vruntime_def signed_divide_int_def)

lemma cfs_set_priority_vruntime:
  assumes "nice_ok t" "-20 \<le> n" "n \<le> 19" "cfs_task_set_priority n t = Some t'"
  shows "get_vruntime t' = get_vruntime t" "nice_ok t'" "cfs_id t' = cfs_id t"
proof -
  obtain v where v: "get_vruntime t = Some v" "isize_range v"
    using get_vruntime_total [OF assms(1)] .
  with assms have t': "t' = t\<lparr>init_vruntime := v, delta := 0, nice := n\<rparr>"
    by (simp add: cfs_task_set_priority_def)
  then show "nice_ok t'" "cfs_id t' = cfs_id t" using assms by (simp_all add: nice_ok_def)
  with t' v show "get_vruntime t' = get_vruntime t"
    by (simp add: get_vruntime_delta_0)
qed

lemma cfs_inv_entry:
  "cfs_inv s \<Longrightarrow> ((v, i), p) \<in> set (cfs_queue s) \<Longrightarrow>
    get_vruntime (cfs_tasks s p) = Some v \<and> cfs_id (cfs_tasks s p) = i \<and> i < id_pool s \<and>
    nice_ok (cfs_tasks s p)"
  by (auto simp: cfs_inv_def)

lemma cfs_inv_bt: "cfs_inv s \<Longrightarrow> bt_inv (cfs_queue s)"
  by (simp add: cfs_inv_def)

lemma first_vruntime_range:
  assumes "cfs_inv s" "set q \<subseteq> set (cfs_queue s)" "first_vruntime q = Some v"
  shows "isize_range v"
proof -
  obtain i p where "((v, i), p) \<in> set (cfs_queue s)"
    using assms by (auto simp: first_vruntime_def split: list.splits)
  with assms(1) have g: "get_vruntime (cfs_tasks s p) = Some v" and n: "nice_ok (cfs_tasks s p)"
    by (auto dest: cfs_inv_entry)
  show ?thesis using get_vruntime_total [OF n] g by auto
qed

text \<open>Inserting a task under the next id keeps the invariant, whatever its virtual runtime.\<close>

lemma cfs_insert_inv:
  assumes inv: "cfs_inv s" and p: "p \<notin> set (cfs_ready s)" and pool: "id_pool s + 1 < 2 ^ 63"
    and t: "get_vruntime t = Some v" "cfs_id t = id_pool s" "nice_ok t"
    and m: "\<And>w. m = Some w \<Longrightarrow> isize_range w"
  shows "cfs_inv \<lparr>cfs_queue = bt_insert (v, id_pool s) p (cfs_queue s), min_vruntime = m,
      id_pool = wrap_isize (id_pool s + 1), cfs_tasks = (cfs_tasks s)(p := t)\<rparr>" (is "cfs_inv ?s'")
    and "mset (map snd (bt_insert (v, id_pool s) p (cfs_queue s))) = add_mset p (mset (cfs_ready s))"
proof -
  let ?k = "(v, id_pool s)"
  have fresh: "?k \<notin> fst ` set (cfs_queue s)"
    using cfs_inv_entry [OF inv] by fastforce
  then have ms: "mset (bt_insert ?k p (cfs_queue s)) = add_mset (?k, p) (mset (cfs_queue s))"
    by (rule mset_bt_insert_fresh)
  then show mr: "mset (map snd (bt_insert ?k p (cfs_queue s))) = add_mset p (mset (cfs_ready s))"
    by (simp add: cfs_ready_def)
  have d: "distinct (map snd (bt_insert ?k p (cfs_queue s)))"
    using inv p by (simp add: distinct_map_add_mset [OF ms] cfs_inv_def cfs_ready_def)
  have pool': "wrap_isize (id_pool s + 1) = id_pool s + 1"
    using inv pool by (intro wrap_isize_id) (simp add: cfs_inv_def isize_range_def)
  have st: "set (bt_insert ?k p (cfs_queue s)) = insert (?k, p) (set (cfs_queue s))"
    using ms by (rule set_add_mset)
  have "q \<noteq> p" if "(k, q) \<in> set (cfs_queue s)" for k q
    using p that by (force simp: cfs_ready_def)
  then show "cfs_inv ?s'"
    using inv d pool pool' t m unfolding cfs_inv_def
    by (auto simp: st isize_range_def)
qed

interpretation cfs: base_scheduler cfs_ops cfs_inv cfs_ready cfs_pre
proof (unfold_locales, goal_cases)
  case (1 s p)
  let ?v = "case min_vruntime s of None \<Rightarrow> 0 | Some v \<Rightarrow> v"
  let ?t = "set_id (id_pool s) (set_vruntime ?v (cfs_tasks s p))"
  let ?q = "bt_insert (?v, id_pool s) p (cfs_queue s)"
  have r: "isize_range ?v" using 1 by (auto simp: cfs_inv_def split: option.splits)
  have t: "get_vruntime ?t = Some ?v" "cfs_id ?t = id_pool s" "nice_ok ?t"
    using 1 r by (auto simp: get_vruntime_delta_0 set_vruntime_def nice_ok_def) (simp_all add: set_id_def)
  have m: "isize_range w" if "first_vruntime ?q = Some w" for w
    using that r first_vruntime_range [OF 1(1), of "cfs_queue s"]
    by (cases "cfs_queue s") (auto simp: first_vruntime_def split: if_splits)
  show ?case
    using cfs_insert_inv [OF 1(1) _ _ t m] 1
    by (simp add: cfs_ops_def cfs_add_task_def Let_def cfs_ready_def)
next
  case (2 s p b)
  let ?t = "set_id (id_pool s) (cfs_tasks s p)"
  have n: "nice_ok ?t" "cfs_id ?t = id_pool s" using 2 by (simp_all add: nice_ok_def set_id_def)
  obtain v where v: "get_vruntime ?t = Some v" using get_vruntime_total [OF n(1)] .
  have m: "isize_range w" if "min_vruntime s = Some w" for w
    using that 2 by (auto simp: cfs_inv_def)
  have eq: "s\<lparr>cfs_queue := q, id_pool := i, cfs_tasks := ts\<rparr>
      = \<lparr>cfs_queue = q, min_vruntime = min_vruntime s, id_pool = i, cfs_tasks = ts\<rparr>" for q i ts
    by (cases s) simp
  show ?case
    using cfs_insert_inv [OF 2(1) _ _ v n(2,1) m] 2 v
    by (simp add: cfs_ops_def cfs_put_prev_task_def Let_def eq cfs_ready_def)
next
  case (3 s p)
  then obtain v i where e: "((v, i), p) \<in> set (cfs_queue s)" by (auto simp: cfs_ready_def)
  let ?q = "bt_remove (v, i) (cfs_queue s)"
  have bt: "bt_inv (cfs_queue s)" using 3 by (simp add: cfs_inv_def)
  then have q: "cfs_queue s = bt_insert (v, i) p ?q"
    by (intro bt_inv_eqI) (use e in \<open>auto simp: bt_simps bt_inv_map_of_mem [OF bt] fun_upd_idem\<close>)
  have nin: "(v, i) \<notin> fst ` set ?q" using bt by (auto simp: set_bt_remove)
  have ms: "mset (cfs_queue s) = add_mset ((v, i), p) (mset ?q)"
    by (subst q) (rule mset_bt_insert_fresh [OF nin])
  have sub: "set ?q \<subseteq> set (cfs_queue s)" by (rule set_bt_remove_subset)
  have "distinct (map snd ?q)"
    using 3(1) by (simp add: distinct_map_add_mset [OF ms] cfs_inv_def)
  then have "cfs_inv (s\<lparr>cfs_queue := ?q, min_vruntime := first_vruntime ?q\<rparr>)"
    using 3(1) first_vruntime_range [OF 3(1) sub] bt cfs_inv_entry [OF 3(1) subsetD [OF sub]]
    by (auto simp: cfs_inv_def [of "s\<lparr>cfs_queue := _, min_vruntime := _\<rparr>"]) (simp_all add: cfs_inv_def)
  moreover have "mset (cfs_ready s) = add_mset p (mset (map snd ?q))"
    using ms by (simp add: cfs_ready_def)
  ultimately show ?case
    using cfs_inv_entry [OF 3(1) e] e
    by (simp add: cfs_ops_def cfs_remove_task_def Let_def bt_inv_map_of_mem [OF bt] cfs_ready_def)
next
  case (4 s)
  then show ?case
    by (auto simp: cfs_ops_def cfs_pick_next_task_def cfs_ready_def cfs_inv_def split: list.splits)
next
  case (5 s p)
  let ?t = "cfs_task_task_tick (cfs_tasks s p)"
  have "nice_ok ?t" using 5 by (simp add: nice_ok_def cfs_task_task_tick_def)
  then obtain v where v: "get_vruntime ?t = Some v" by (rule get_vruntime_total)
  have "cfs_inv (s\<lparr>cfs_tasks := (cfs_tasks s)(p := ?t)\<rparr>)"
    using 5 unfolding cfs_inv_def by (auto simp: cfs_ready_def rev_image_eqI)
  with v show ?case
    by (auto simp: cfs_ops_def cfs_task_tick_def Let_def cfs_ready_def split: option.splits)
next
  case (6 s p n)
  show ?case
  proof (cases "-20 \<le> n \<and> n \<le> 19")
    case True
    obtain v where "get_vruntime (cfs_tasks s p) = Some v"
      using get_vruntime_total 6 by (metis cfs_pre.simps(5))
    then obtain t where t: "cfs_task_set_priority n (cfs_tasks s p) = Some t"
      by (simp add: cfs_task_set_priority_def)
    have "cfs_inv (s\<lparr>cfs_tasks := (cfs_tasks s)(p := t)\<rparr>)"
      using 6 True cfs_set_priority_vruntime [OF _ _ _ t] unfolding cfs_inv_def by auto
    with True t show ?thesis by (auto simp: cfs_ops_def cfs_set_priority_def cfs_ready_def)
  qed (use 6 in \<open>auto simp: cfs_ops_def cfs_set_priority_def\<close>)
qed

section \<open>Properties\<close>

text \<open>The results of \<open>n\<close> consecutive timer ticks of a running task.\<close>

primrec rr_ticks :: "nat \<Rightarrow> ('q, 'p) rr_scheduler \<Rightarrow> 'p \<Rightarrow> ('q, 'p) rr_scheduler \<times> bool list" where
  "rr_ticks 0 s p = (s, [])"
| "rr_ticks (Suc n) s p =
     (let (s', b) = rr_task_tick s p; (s'', bs) = rr_ticks n s' p in (s'', b # bs))"

lemma rr_ticks_slice:
  assumes "rr_time_slice s p = int n + int k" "int n + int k < 2 ^ 63" "0 < k"
  shows "snd (rr_ticks n s p) = replicate n False \<and>
    rr_time_slice (fst (rr_ticks n s p)) p = int k \<and> rr_queue (fst (rr_ticks n s p)) = rr_queue s"
  using assms
proof (induction n arbitrary: s)
  case (Suc n)
  let ?s = "fst (rr_task_tick s p)"
  have 1: "rr_time_slice ?s p = int n + int k" "\<not> snd (rr_task_tick s p)" "rr_queue ?s = rr_queue s"
    using Suc.prems by (simp_all add: rr_task_tick_def Let_def isize_range_def)
  then show ?case using Suc.IH [OF 1(1)] Suc.prems
    by (simp add: case_prod_beta Let_def)
qed simp

lemma rr_ticks_append:
  "rr_ticks (m + n) s p =
     (let (s', a) = rr_ticks m s p; (s'', b) = rr_ticks n s' p in (s'', a @ b))"
  by (induction m arbitrary: s) (simp_all add: case_prod_beta Let_def)

lemma rr_ticks_full:
  assumes "rr_time_slice s p = int (Suc m)" "int (Suc m) < 2 ^ 63"
  shows "snd (rr_ticks (Suc m) s p) = replicate m False @ [True]"
    and "rr_time_slice (fst (rr_ticks (Suc m) s p)) p = 0"
    and "rr_queue (fst (rr_ticks (Suc m) s p)) = rr_queue s"
proof -
  have "rr_time_slice s p = int m + int 1" "int m + int 1 < 2 ^ 63" using assms by simp_all
  note r = rr_ticks_slice [OF this]
  have eq: "rr_ticks (Suc m) s p = rr_ticks (m + 1) s p" by simp
  show "snd (rr_ticks (Suc m) s p) = replicate m False @ [True]"
    "rr_time_slice (fst (rr_ticks (Suc m) s p)) p = 0"
    "rr_queue (fst (rr_ticks (Suc m) s p)) = rr_queue s"
    using r unfolding eq rr_ticks_append
    by (simp_all add: case_prod_beta Let_def rr_task_tick_def)
qed

text \<open>C35: round robin gives a task exactly its quantum. From a full time slice of \<open>S\<close> ticks, the
  first \<open>S - 1\<close> timer ticks do not ask for a reschedule and the \<open>S\<close>-th does. A task preempted after
  \<open>n < S\<close> ticks goes back to the front of the ready queue with the \<open>S - n\<close> ticks it has left; one
  that used its slice up goes to the back with a fresh slice.\<close>

theorem rr_quantum:
  assumes "intrusive_list L view" and "0 < S" and "int S < 2 ^ 63" and "n \<le> S"
    and "p \<notin> set (view (rr_queue s))" and "rr_time_slice s p = int S"
  shows "let (s', resched) = rr_ticks n s p; t = rr_put_prev_task L S s' p True in
    resched = (if n < S then replicate n False else replicate (S - 1) False @ [True]) \<and>
    view (rr_queue t) = (if n < S then p # view (rr_queue s) else view (rr_queue s) @ [p]) \<and>
    rr_time_slice t p = int (if n < S then S - n else S)"
proof (cases "n < S")
  case True
  then have "rr_time_slice s p = int n + int (S - n)" "int n + int (S - n) < 2 ^ 63" "0 < S - n"
    using assms by simp_all
  note r = rr_ticks_slice [OF this]
  show ?thesis
    using r True assms intrusive_list.push_front [OF assms(1)]
    by (simp add: case_prod_beta Let_def rr_put_prev_task_def)
next
  case False
  then obtain m where m: "n = Suc m" "S = Suc m" using assms by (cases S) auto
  note r = rr_ticks_full [OF assms(6,3) [unfolded m]]
  show ?thesis
    using r assms intrusive_list.push_back [OF assms(1)] unfolding m
    by (simp add: case_prod_beta Let_def rr_put_prev_task_def rr_reset_time_slice_def isize_range_def
        del: rr_ticks.simps of_nat_Suc)
qed

definition rr_example :: "(nat list, nat) rr_scheduler" where
  "rr_example = \<lparr>rr_queue = [7], rr_time_slice = (\<lambda>_. 5)\<rparr>"

theorem rr_quantum_witness:
  "let (s', resched) = rr_ticks 2 rr_example 1; t = rr_put_prev_task list_ops 5 s' 1 True in
    resched = replicate 2 False \<and> rr_queue t = [1, 7] \<and> rr_time_slice t 1 = 3"
  using rr_quantum [OF plain_list.intrusive_list_axioms, of 5 2 1 rr_example]
  by (simp add: case_prod_beta Let_def del: rr_ticks.simps) (simp add: rr_example_def)

text \<open>C37: over any sequence of calls in which the caller hands over only tasks that are not queued and
  removes only queued ones, the round-robin scheduler neither loses nor duplicates a task: the
  tasks queued at the end and the tasks handed back are, as a multiset, the tasks queued at the
  start and the tasks handed in.\<close>

theorem rr_no_task_lost:
  assumes "intrusive_list L view" and "distinct (view (rr_queue s))"
    and "calls_ok (rr_ops L S) (queue_pre (\<lambda>s. view (rr_queue s))) s cs"
  shows "\<exists>s' outs. sched_run (rr_ops L S) s cs = Some (s', outs) \<and>
    mset (view (rr_queue s')) + mset outs = mset (view (rr_queue s)) + mset (handed_in cs)"
  using intrusive_list.rr_run_conserves [OF assms] by blast

theorem rr_no_task_lost_witness:
  "\<exists>s' outs. sched_run (rr_ops list_ops 5) rr_example [Add 1, Pick, Tick 7, Put 7 True, Remove 1]
      = Some (s', outs) \<and> mset (rr_queue s') + mset outs = {#1, 7, 7#}"
  using rr_no_task_lost [OF plain_list.intrusive_list_axioms, of rr_example 5
      "[Add 1, Pick, Tick 7, Put 7 True, Remove 1]"]
  by (simp add: rr_example_def rr_defs list_ops_def Let_def isize_range_def add_mset_commute)

text \<open>C33: the completely fair scheduler neither panics nor loses or duplicates a task over any sequence
  of calls whose caller hands over tasks that are not queued (and, for \<open>add_task\<close>, that have not
  accumulated runtime), with nice values in the table and ids left in the pool.\<close>

theorem cfs_no_task_lost:
  assumes "cfs_inv s" and "calls_ok cfs_ops cfs_pre s cs"
  shows "\<exists>s' outs. sched_run cfs_ops s cs = Some (s', outs) \<and> cfs_inv s' \<and>
    mset (cfs_ready s') + mset outs = mset (cfs_ready s) + mset (handed_in cs)"
  using cfs.run_conserves [OF assms] .

lemma cfs_new_inv: "cfs_inv (cfs_new ts)"
  by (simp add: cfs_inv_def cfs_new_def)

theorem cfs_no_task_lost_witness:
  "\<exists>s' outs. sched_run cfs_ops (cfs_new (\<lambda>_. cfs_task_new)) [Add 1, Add (2::nat), Pick, Tick 1, Put 1 False]
      = Some (s', outs) \<and> mset (cfs_ready s') + mset outs = {#1, 1, 2#}"
  using cfs_no_task_lost [OF cfs_new_inv, of "\<lambda>_. cfs_task_new" "[Add 1, Add (2::nat), Pick, Tick 1, Put 1 False]"]
  by (simp add: cfs_new_def cfs_ops_def cfs_add_task_def cfs_pick_next_task_def cfs_task_tick_def
      cfs_put_prev_task_def cfs_task_new_def nice_ok_def get_vruntime_def cfs_task_task_tick_def
      cfs_ready_def set_id_def set_vruntime_def first_vruntime_def isize_range_def Let_def add_mset_commute)

text \<open>C34: the completely fair scheduler picks a task of least virtual runtime, and among those the one
  queued first (least id); changing a task's priority does not change its virtual runtime, so it
  keeps its place.\<close>

theorem cfs_picks_least_vruntime:
  assumes "cfs_inv s" and "cfs_pick_next_task s = (s', Some p)" and "q \<in> set (cfs_ready s)"
  shows "\<exists>v w. get_vruntime (cfs_tasks s p) = Some v \<and> get_vruntime (cfs_tasks s q) = Some w \<and>
    (v < w \<or> v = w \<and> cfs_id (cfs_tasks s p) \<le> cfs_id (cfs_tasks s q)) \<and>
    (\<forall>n s2 b. cfs_set_priority s q n = Some (s2, b) \<longrightarrow>
       get_vruntime (cfs_tasks s2 q) = Some w \<and> cfs_ready s2 = cfs_ready s)"
proof -
  obtain v i rest where q0: "cfs_queue s = ((v, i), p) # rest"
    using assms(2) by (auto simp: cfs_pick_next_task_def split: list.splits)
  obtain w j where q1: "((w, j), q) \<in> set (cfs_queue s)"
    using assms(3) by (auto simp: cfs_ready_def)
  have "(v, i) \<le> (w, j)"
    using q0 q1 cfs_inv_bt [OF assms(1)] by force
  moreover have "get_vruntime (cfs_tasks s2 q) = Some w \<and> cfs_ready s2 = cfs_ready s"
    if "cfs_set_priority s q n = Some (s2, b)" for n s2 b
    using that cfs_inv_entry [OF assms(1) q1] cfs_set_priority_vruntime [of "cfs_tasks s q" n]
    by (auto simp: cfs_set_priority_def cfs_ready_def split: if_splits)
  ultimately show ?thesis
    using cfs_inv_entry [OF assms(1) q1] cfs_inv_entry [OF assms(1), of v i p] q0 by auto
qed

definition cfs_example :: "nat cfs_scheduler" where
  "cfs_example = cfs_add_task (cfs_add_task (cfs_new (\<lambda>_. cfs_task_new)) 1) 2"

theorem cfs_picks_least_vruntime_witness:
  "\<exists>v w. get_vruntime (cfs_tasks cfs_example 1) = Some v \<and> get_vruntime (cfs_tasks cfs_example 2) = Some w \<and>
    (v < w \<or> v = w \<and> cfs_id (cfs_tasks cfs_example 1) \<le> cfs_id (cfs_tasks cfs_example 2))"
proof -
  have inv: "cfs_inv cfs_example"
    by (simp add: cfs_example_def cfs_new_def cfs_add_task_def cfs_task_new_def cfs_inv_def nice_ok_def
        get_vruntime_def set_id_def set_vruntime_def first_vruntime_def isize_range_def Let_def)
  have pick: "cfs_pick_next_task cfs_example = (fst (cfs_pick_next_task cfs_example), Some 1)"
    and q: "2 \<in> set (cfs_ready cfs_example)"
    by (simp_all add: cfs_example_def cfs_new_def cfs_add_task_def cfs_pick_next_task_def cfs_ready_def
        first_vruntime_def isize_range_def Let_def)
  show ?thesis using cfs_picks_least_vruntime [OF inv pick q] by blast
qed

end
