(* ===== verification/Ipc_Base.thy ===== *)
theory Ipc_Base
  imports Errno
begin

text \<open>
  What the System V IPC components share (\<open>xkernel/src/ipc/util.rs\<close>, the constants of
  \<open>xmodules/xutils/src/ctypes\<close>) and the two-way ordered map \<open>BiBTreeMap\<close> of \<open>xutils\<close> that the shared
  memory manager indexes its segments with. A process id is a \<open>nat\<close>, a key or identifier an \<open>i32\<close>
  as \<open>int\<close>; every clock reading is an argument \<open>now\<close> of the operation that takes it.
\<close>

type_synonym pid = nat

section \<open>Constants\<close>

definition IPC_PRIVATE :: int where "IPC_PRIVATE = 0"
definition IPC_CREAT :: nat where "IPC_CREAT = 512"
definition IPC_EXCL :: nat where "IPC_EXCL = 1024"
definition IPC_NOWAIT :: nat where "IPC_NOWAIT = 2048"
definition IPC_RMID :: nat where "IPC_RMID = 0"
definition IPC_SET :: nat where "IPC_SET = 1"
definition IPC_STAT :: nat where "IPC_STAT = 2"
definition IPC_INFO :: nat where "IPC_INFO = 3"
definition SHMMIN :: nat where "SHMMIN = 1"
definition SHMMNI :: nat where "SHMMNI = 4096"
definition SHMMAX :: nat where "SHMMAX = usize_bound - 1 - 2 ^ 24"
definition SHMALL :: nat where "SHMALL = usize_bound - 1 - 2 ^ 24"
definition MSGMAX :: nat where "MSGMAX = 8192"
definition MSGMNB :: nat where "MSGMNB = 16384"
definition MSGMNI :: nat where "MSGMNI = 32000"
definition MSGTQL :: nat where "MSGTQL = 1024"
definition MSGPOOL :: nat where "MSGPOOL = MSGMNI * MSGMNB"
definition SEMMSL :: nat where "SEMMSL = 250"
definition SEMMNS :: nat where "SEMMNS = 32000"
definition SEMOPM :: nat where "SEMOPM = 32"
definition SEMMNI :: nat where "SEMMNI = 128"
definition SEMVMX :: nat where "SEMVMX = 32767"
definition MSG_EXCEPT :: nat where "MSG_EXCEPT = 8192"
definition MSG_NOERROR :: nat where "MSG_NOERROR = 4096"
definition SEM_UNDO :: nat where "SEM_UNDO = 4096"
definition SHM_RDONLY :: nat where "SHM_RDONLY = 4096"
definition SHM_RND :: nat where "SHM_RND = 8192"
definition SHM_REMAP :: nat where "SHM_REMAP = 16384"
definition SHM_EXEC :: nat where "SHM_EXEC = 32768"

lemmas ipc_cmds = IPC_RMID_def IPC_SET_def IPC_STAT_def IPC_INFO_def

section \<open>Permissions and identifiers\<close>

record ipc_perm =
  perm_key :: int
  perm_uid :: nat
  perm_gid :: nat
  perm_cuid :: nat
  perm_cgid :: nat
  perm_mode :: nat
  perm_seq :: nat

definition ipc_perm_new :: "int \<Rightarrow> nat \<Rightarrow> ipc_perm" where
  "ipc_perm_new key mode =
     \<lparr>perm_key = key, perm_uid = 0, perm_gid = 0, perm_cuid = 0, perm_cgid = 0, perm_mode = mode,
      perm_seq = 0\<rparr>"

text \<open>\<open>IpcidGenerator::alloc\<close>: the identifier handed out and the generator's next one.\<close>

definition ipcid_alloc :: "int \<Rightarrow> int \<times> int" where
  "ipcid_alloc next_ipcid = (next_ipcid, wrap_i32 (next_ipcid + 1))"

record ipc_limits =
  shmmax :: usize
  shmmni :: usize
  shmall :: usize
  msgmax :: usize
  msgmnb :: usize
  msgmni :: usize
  semmsl :: usize
  semmns :: usize
  semopm :: usize
  semmni :: usize
  semvmx :: usize

definition ipc_limits_default :: ipc_limits where
  "ipc_limits_default =
     \<lparr>shmmax = SHMMAX, shmmni = SHMMNI, shmall = SHMALL, msgmax = MSGMAX, msgmnb = MSGMNB,
      msgmni = MSGMNI, semmsl = SEMMSL, semmns = SEMMNS, semopm = SEMOPM, semmni = SEMMNI,
      semvmx = SEMVMX\<rparr>"

section \<open>Two-way ordered maps\<close>

record ('k, 'v) bibtree =
  forward :: "('k \<times> 'v) list"
  reverse :: "('v \<times> 'k) list"

definition bi_new :: "('k, 'v) bibtree" where
  "bi_new = \<lparr>forward = [], reverse = []\<rparr>"

definition bi_insert ::
    "'k::linorder \<Rightarrow> 'v::linorder \<Rightarrow> ('k, 'v) bibtree \<Rightarrow> ('k, 'v) bibtree" where
  "bi_insert key value m =
     (let fwd = (case map_of (reverse m) value of
                   Some old_key \<Rightarrow> bt_remove old_key (forward m) | None \<Rightarrow> forward m);
          rev1 = bt_insert value key (reverse m);
          rev2 = (case map_of fwd key of
                    Some old_value \<Rightarrow> bt_remove old_value rev1 | None \<Rightarrow> rev1)
      in \<lparr>forward = bt_insert key value fwd, reverse = rev2\<rparr>)"

definition get_by_key :: "('k, 'v) bibtree \<Rightarrow> 'k \<Rightarrow> 'v option" where
  "get_by_key m key = map_of (forward m) key"

definition get_by_value :: "('k, 'v) bibtree \<Rightarrow> 'v \<Rightarrow> 'k option" where
  "get_by_value m value = map_of (reverse m) value"

definition remove_by_key :: "('k, 'v) bibtree \<Rightarrow> 'k \<Rightarrow> ('k, 'v) bibtree \<times> 'v option" where
  "remove_by_key m key =
     (case map_of (forward m) key of
        Some value \<Rightarrow>
          (\<lparr>forward = bt_remove key (forward m), reverse = bt_remove value (reverse m)\<rparr>, Some value)
      | None \<Rightarrow> (m, None))"

definition remove_by_value :: "('k, 'v) bibtree \<Rightarrow> 'v \<Rightarrow> ('k, 'v) bibtree \<times> 'k option" where
  "remove_by_value m value =
     (case map_of (reverse m) value of
        Some key \<Rightarrow>
          (\<lparr>forward = bt_remove key (forward m), reverse = bt_remove value (reverse m)\<rparr>, Some key)
      | None \<Rightarrow> (m, None))"

text \<open>The two halves are ordered maps and inverse to each other.\<close>

definition bi_inv :: "('k::linorder, 'v::linorder) bibtree \<Rightarrow> bool" where
  "bi_inv m \<longleftrightarrow> bt_inv (forward m) \<and> bt_inv (reverse m) \<and>
     (\<forall>k v. map_of (forward m) k = Some v \<longleftrightarrow> map_of (reverse m) v = Some k)"

text \<open>The contract of a two-way map over an invariant and its forward view.\<close>

locale two_way_map =
  fixes empty :: 'm
    and insert :: "'k \<Rightarrow> 'v \<Rightarrow> 'm \<Rightarrow> 'm"
    and by_key :: "'m \<Rightarrow> 'k \<Rightarrow> 'v option"
    and by_value :: "'m \<Rightarrow> 'v \<Rightarrow> 'k option"
    and del_key :: "'m \<Rightarrow> 'k \<Rightarrow> 'm \<times> 'v option"
    and del_value :: "'m \<Rightarrow> 'v \<Rightarrow> 'm \<times> 'k option"
    and inv :: "'m \<Rightarrow> bool"
  assumes inv_empty: "inv empty" and empty_lookup: "by_key empty k = None"
    and inv_insert: "inv m \<Longrightarrow> inv (insert k v m)"
    and inv_del_key: "inv m \<Longrightarrow> inv (fst (del_key m k))"
    and inv_del_value: "inv m \<Longrightarrow> inv (fst (del_value m v))"
    and inverse: "inv m \<Longrightarrow> by_key m k = Some v \<longleftrightarrow> by_value m v = Some k"
    and lookup_insert: "inv m \<Longrightarrow>
      by_key (insert k v m) = (\<lambda>x. if x = k then Some v else if by_key m x = Some v then None else by_key m x)"
    and lookup_del_key: "inv m \<Longrightarrow> by_key (fst (del_key m k)) = (by_key m)(k := None)"
      "snd (del_key m k) = by_key m k"
    and lookup_del_value: "inv m \<Longrightarrow>
      by_key (fst (del_value m v)) = (\<lambda>x. if by_key m x = Some v then None else by_key m x)"
      "snd (del_value m v) = by_value m v"
begin

lemma key_unique: "inv m \<Longrightarrow> by_key m k = Some v \<Longrightarrow> by_key m k' = Some v \<Longrightarrow> k = k'"
  using inverse by (metis option.inject)

lemma insert_then_by_value: "inv m \<Longrightarrow> by_value (insert k v m) v = Some k"
  by (simp add: lookup_insert inverse [OF inv_insert, symmetric])

lemma by_value_insert:
  assumes "inv m"
  shows "by_value (insert k v m) y =
    (if y = v then Some k else if by_value m y = Some k then None else by_value m y)" (is "_ = ?r")
proof -
  have "by_value (insert k v m) y = Some x \<longleftrightarrow> ?r = Some x" for x
    by (auto simp: lookup_insert [OF assms] inverse [OF assms, symmetric]
        inverse [OF inv_insert [OF assms], symmetric] dest: key_unique [OF assms] split: if_splits)
  then show ?thesis by (metis not_None_eq)
qed

end

lemma bi_inv_inverse: "bi_inv m \<Longrightarrow> map_of (forward m) k = Some v \<longleftrightarrow> map_of (reverse m) v = Some k"
  by (simp add: bi_inv_def)

lemma bi_inv_value_unique:
  "bi_inv m \<Longrightarrow> map_of (reverse m) v = Some k \<Longrightarrow> map_of (reverse m) v' = Some k \<Longrightarrow> v = v'"
  by (metis bi_inv_inverse option.inject)

lemma bi_insert_views:
  assumes "bi_inv m"
  shows "map_of (forward (bi_insert k v m)) =
      (\<lambda>x. if x = k then Some v else if map_of (forward m) x = Some v then None else map_of (forward m) x)"
    and "map_of (reverse (bi_insert k v m)) =
      (\<lambda>y. if y = v then Some k else if map_of (reverse m) y = Some k then None else map_of (reverse m) y)"
    and "bt_inv (forward (bi_insert k v m))" "bt_inv (reverse (bi_insert k v m))"
proof -
  let ?fwd = "case map_of (reverse m) v of Some k' \<Rightarrow> bt_remove k' (forward m) | None \<Rightarrow> forward m"
  have bt: "bt_inv (forward m)" "bt_inv (reverse m)" using assms by (simp_all add: bi_inv_def)
  have fwd: "bt_inv ?fwd"
    "map_of ?fwd = (\<lambda>x. if map_of (forward m) x = Some v then None else map_of (forward m) x)"
    using bt bi_inv_inverse [OF assms]
    by (auto simp: bt_simps fun_eq_iff split: option.splits)
  show "map_of (forward (bi_insert k v m)) =
      (\<lambda>x. if x = k then Some v else if map_of (forward m) x = Some v then None else map_of (forward m) x)"
    by (simp add: bi_insert_def Let_def bt_simps fwd fun_eq_iff)
  show "bt_inv (forward (bi_insert k v m))" "bt_inv (reverse (bi_insert k v m))"
    using fwd bt by (auto simp: bi_insert_def Let_def split: option.splits)
  show "map_of (reverse (bi_insert k v m)) =
      (\<lambda>y. if y = v then Some k else if map_of (reverse m) y = Some k then None else map_of (reverse m) y)"
  proof (cases "map_of ?fwd k")
    case None
    then have "map_of (forward m) k = None \<or> map_of (forward m) k = Some v"
      by (auto simp: fwd split: if_splits)
    then have "map_of (reverse m) y = Some k \<longrightarrow> y = v" for y
      using bi_inv_inverse [OF assms] by (metis option.distinct(1) option.inject)
    then show ?thesis using None by (auto simp: bi_insert_def Let_def bt_simps fun_eq_iff)
  next
    case (Some w)
    then have "map_of (forward m) k = Some w" and w: "w \<noteq> v" by (auto simp: fwd split: if_splits)
    then have "map_of (reverse m) y = Some k \<longleftrightarrow> y = w" for y
      using bi_inv_inverse [OF assms] by (metis option.inject)
    then show ?thesis using Some w bt by (simp add: bi_insert_def Let_def bt_simps fun_eq_iff)
  qed
qed

lemma bi_inv_insert: "bi_inv m \<Longrightarrow> bi_inv (bi_insert k v m)"
  using bi_insert_views [of m k v] bi_inv_inverse [of m]
  by (subst bi_inv_def) (auto dest: bi_inv_value_unique)

lemma bi_remove_pair:
  assumes "bi_inv m" "map_of (forward m) k = Some v"
  shows "bi_inv \<lparr>forward = bt_remove k (forward m), reverse = bt_remove v (reverse m)\<rparr>"
    and "map_of (bt_remove k (forward m)) x = (if x = k then None else map_of (forward m) x)"
    and "x = k \<longleftrightarrow> map_of (forward m) x = Some v"
proof -
  have bt: "bt_inv (forward m)" "bt_inv (reverse m)" using assms by (simp_all add: bi_inv_def)
  have inverse: "map_of (forward m) k' = Some v' \<longleftrightarrow> map_of (reverse m) v' = Some k'" for k' v'
    using assms(1) by (rule bi_inv_inverse)
  have uniq: "x = k \<longleftrightarrow> map_of (forward m) x = Some v" for x
    using inverse assms(2) by (metis option.inject)
  show "map_of (bt_remove k (forward m)) x = (if x = k then None else map_of (forward m) x)"
    by (simp add: bt_simps bt)
  show "x = k \<longleftrightarrow> map_of (forward m) x = Some v" by (rule uniq)
  show "bi_inv \<lparr>forward = bt_remove k (forward m), reverse = bt_remove v (reverse m)\<rparr>"
    using bt inverse uniq assms(2) unfolding bi_inv_def by (simp add: bt_simps) (metis option.inject)
qed

lemma get_by_value_Some: "bi_inv m \<Longrightarrow> map_of (reverse m) v = Some k \<Longrightarrow> map_of (forward m) k = Some v"
  by (simp add: bi_inv_inverse)

interpretation bi: two_way_map "bi_new :: ('k::linorder, 'v::linorder) bibtree" bi_insert get_by_key
    get_by_value remove_by_key remove_by_value bi_inv
proof (unfold_locales, goal_cases)
  case 1 show ?case by (simp add: bi_inv_def bi_new_def)
next
  case (2 k) show ?case by (simp add: bi_new_def get_by_key_def)
next
  case (3 m k v) then show ?case by (rule bi_inv_insert)
next
  case (4 m k) then show ?case
    by (simp add: remove_by_key_def bi_remove_pair(1) split: option.splits)
next
  case (5 m v) then show ?case
    by (simp add: remove_by_value_def bi_remove_pair(1) get_by_value_Some split: option.splits)
next
  case (6 m k v) then show ?case by (simp add: get_by_key_def get_by_value_def bi_inv_inverse)
next
  case (7 m k v) then show ?case by (simp add: fun_eq_iff get_by_key_def bi_insert_views)
next
  case (8 m k) then show ?case
    by (auto simp: get_by_key_def remove_by_key_def bi_remove_pair(2) fun_eq_iff split: option.splits)
next
  case (9 m k) then show ?case
    by (simp add: get_by_key_def remove_by_key_def split: option.splits)
next
  case (10 m v)
  show ?case
  proof (cases "map_of (reverse m) v")
    case None
    then have "map_of (forward m) x \<noteq> Some v" for x using bi_inv_inverse [OF 10] by simp
    with None show ?thesis by (simp add: get_by_key_def remove_by_value_def fun_eq_iff)
  next
    case (Some k)
    note r = bi_remove_pair(2,3) [OF 10 get_by_value_Some [OF 10 Some]]
    show ?thesis using Some
      by (simp add: get_by_key_def remove_by_value_def fun_eq_iff r(1) r(2) [symmetric])
  qed
next
  case (11 m v) then show ?case
    by (simp add: get_by_value_def remove_by_value_def split: option.splits)
qed

text \<open>C27: the two halves of a \<open>BiBTreeMap\<close> stay inverse to each other under insertion and removal, an
  insertion rebinds exactly the key and the value it names (dropping the pairs either was part of),
  and a removal by key or by value removes exactly that pair.\<close>

theorem bibtree_bijection:
  assumes "bi_inv m"
  shows "bi_inv (bi_insert k v m) \<and> get_by_key (bi_insert k v m) k = Some v \<and>
    get_by_value (bi_insert k v m) v = Some k \<and>
    (\<forall>x. x \<noteq> k \<longrightarrow> get_by_key m x \<noteq> Some v \<longrightarrow> get_by_key (bi_insert k v m) x = get_by_key m x) \<and>
    (\<forall>x. x \<noteq> k \<longrightarrow> get_by_key (bi_insert k v m) x \<noteq> Some v) \<and>
    bi_inv (fst (remove_by_key m k)) \<and>
    get_by_key (fst (remove_by_key m k)) = (get_by_key m)(k := None) \<and>
    bi_inv (fst (remove_by_value m v)) \<and>
    (\<forall>x. get_by_key (fst (remove_by_value m v)) x \<noteq> Some v) \<and>
    (\<forall>x. get_by_key m x \<noteq> Some v \<longrightarrow> get_by_key (fst (remove_by_value m v)) x = get_by_key m x)"
  using assms
  by (simp add: bi.inv_insert bi.lookup_insert bi.insert_then_by_value bi.inv_del_key bi.lookup_del_key
      bi.inv_del_value bi.lookup_del_value)

theorem bibtree_bijection_witness:
  "get_by_value (bi_insert (2::int) (20::nat) (bi_insert 1 10 bi_new)) 20 = Some 2"
  using bibtree_bijection [OF bi.inv_insert [OF bi.inv_empty], of "2::int" "20::nat" 1 10] by simp

end
