(* ===== verification/Ipc_Sem.thy ===== *)
theory Ipc_Sem
  imports Ipc_Base
begin

text \<open>
  System V semaphores: \<open>xkernel/src/ipc/sem.rs\<close> and the system calls of \<open>xkernel/src/syscall/ipc/sem.rs\<close>.
  A semaphore value is an \<open>i16\<close>, a waiter count a \<open>u16\<close>, both with the wrap-around of the release
  profile. A set is a value of the manager's map: the code only reaches it under the manager's
  lock. Blocking is a busy loop, so \<open>sys_semop\<close> is split at its lock releases into the steps
  \<open>semop_first\<close>, \<open>semop_retry\<close> and \<open>semop_finish\<close>, and \<open>sem_step\<close> interleaves the steps of any number
  of processes.
\<close>

section \<open>Semaphore sets\<close>

record sem_buf =
  sem_num :: nat
  sem_op :: int
  sem_flg :: nat

record sem_info =
  sem_perm :: ipc_perm
  sem_otime :: int
  sem_ctime :: int
  sem_nsems :: nat

definition sem_info_new :: "int \<Rightarrow> int \<Rightarrow> nat \<Rightarrow> nat \<Rightarrow> pid \<Rightarrow> sem_info" where
  "sem_info_new now key nsems mode pid =
     \<lparr>sem_perm = \<lparr>perm_key = key, perm_uid = 0, perm_gid = 0, perm_cuid = 0, perm_cgid = 0,
                  perm_mode = mode, perm_seq = 0\<rparr>,
      sem_otime = 0, sem_ctime = now, sem_nsems = nsems mod 2 ^ 16\<rparr>"

record semaphore =
  semval :: int
  sempid :: pid
  semncnt :: nat
  semzcnt :: nat

definition semaphore_new :: semaphore where
  "semaphore_new = \<lparr>semval = 0, sempid = 0, semncnt = 0, semzcnt = 0\<rparr>"

record sem_undo =
  undo_semid :: int
  undo_num :: nat
  undo_op :: int

record waiting_process =
  wait_pid :: pid
  wait_operations :: "sem_buf list"
  wait_error :: "linux_error option"

text \<open>\<open>wait_notifies\<close> counts the notifications sent to the set's \<open>WaitQueue\<close>, on which nothing sleeps.\<close>

record sem_set =
  set_semid :: int
  semaphores :: "semaphore list"
  set_info :: sem_info
  set_rmid :: bool
  waiting_queue :: "waiting_process list"
  wait_notifies :: nat

definition sem_set_new :: "int \<Rightarrow> int \<Rightarrow> int \<Rightarrow> nat \<Rightarrow> nat \<Rightarrow> pid \<Rightarrow> sem_set" where
  "sem_set_new now key semid nsems mode pid =
     \<lparr>set_semid = semid, semaphores = replicate nsems semaphore_new,
      set_info = sem_info_new now key nsems mode pid, set_rmid = False, waiting_queue = [],
      wait_notifies = 0\<rparr>"

text \<open>The first loop of \<open>can_perform_operations\<close>: the values after the operations, \<open>None\<close> when one
  names no semaphore or leaves the range of values.\<close>

fun try_values :: "int list \<Rightarrow> sem_buf list \<Rightarrow> int list option" where
  "try_values temp_values [] = Some temp_values"
| "try_values temp_values (sop # ops) =
     (if length temp_values \<le> sem_num sop then None
      else let new_val = temp_values ! sem_num sop + sem_op sop
        in if new_val < 0 \<or> new_val > int SEMVMX then None
           else try_values (temp_values[sem_num sop := wrap_i16 new_val]) ops)"

definition can_perform_operations :: "sem_set \<Rightarrow> sem_buf list \<Rightarrow> bool" where
  "can_perform_operations s operations =
     (case try_values (map semval (semaphores s)) operations of
        None \<Rightarrow> False
      | Some temp_values \<Rightarrow>
          list_all (\<lambda>sop. \<not> (sem_op sop = 0 \<and> temp_values ! sem_num sop \<noteq> 0)) operations)"

definition dec_count :: "sem_buf \<Rightarrow> semaphore list \<Rightarrow> semaphore list" where
  "dec_count sop sems =
     (let i = sem_num sop; x = sems ! i in
      if sem_op sop < 0 then sems[i := x\<lparr>semncnt := u16_sub (semncnt x) 1\<rparr>]
      else if sem_op sop = 0 then sems[i := x\<lparr>semzcnt := u16_sub (semzcnt x) 1\<rparr>]
      else sems)"

definition apply_op :: "pid \<Rightarrow> sem_buf \<Rightarrow> semaphore list \<Rightarrow> semaphore list" where
  "apply_op pid sop sems =
     (let i = sem_num sop; x = sems ! i in
      sems[i := x\<lparr>semval := wrap_i16 (semval x + sem_op sop), sempid := pid\<rparr>])"

definition perform_operations ::
    "int \<Rightarrow> sem_set \<Rightarrow> sem_buf list \<Rightarrow> pid \<Rightarrow> sem_set linux_result" where
  "perform_operations now s operations pid =
     (if \<not> can_perform_operations s operations then Inl EAGAIN
      else let sems1 = fold dec_count operations (semaphores s);
               sems2 = fold (apply_op pid) operations sems1
           in Inr (s\<lparr>semaphores := sems2, set_info := (set_info s)\<lparr>sem_otime := now\<rparr>\<rparr>))"

definition inc_count :: "sem_buf \<Rightarrow> semaphore list \<Rightarrow> semaphore list" where
  "inc_count sop sems =
     (let i = sem_num sop; x = sems ! i in
      if i < length sems then
        (if sem_op sop < 0 then sems[i := x\<lparr>semncnt := u16_add (semncnt x) 1\<rparr>]
         else if sem_op sop = 0 then sems[i := x\<lparr>semzcnt := u16_add (semzcnt x) 1\<rparr>]
         else sems)
      else sems)"

definition add_waiting_process :: "sem_set \<Rightarrow> pid \<Rightarrow> sem_buf list \<Rightarrow> sem_set" where
  "add_waiting_process s pid operations =
     s\<lparr>waiting_queue := waiting_queue s
          @ [\<lparr>wait_pid = pid, wait_operations = operations, wait_error = None\<rparr>],
       semaphores := fold inc_count operations (semaphores s)\<rparr>"

fun wake_up_loop :: "int \<Rightarrow> sem_set \<Rightarrow> waiting_process list \<Rightarrow> waiting_process list \<Rightarrow> sem_set" where
  "wake_up_loop now s [] remaining = s\<lparr>waiting_queue := remaining\<rparr>"
| "wake_up_loop now s (w # queue) remaining =
     (if can_perform_operations s (wait_operations w)
      then (case perform_operations now s (wait_operations w) (wait_pid w) of
              Inl _ \<Rightarrow> wake_up_loop now s queue (remaining @ [w])
            | Inr s' \<Rightarrow> wake_up_loop now (s'\<lparr>wait_notifies := wait_notifies s' + 1\<rparr>) queue remaining)
      else wake_up_loop now s queue (remaining @ [w]))"

definition wake_up_processes :: "int \<Rightarrow> sem_set \<Rightarrow> sem_set" where
  "wake_up_processes now s = wake_up_loop now s (waiting_queue s) []"

section \<open>The semaphore manager\<close>

record sem_manager =
  sem_index :: "(int \<times> int) list"
  semsets :: "(int \<times> sem_set) list"
  pid_undo :: "(pid \<times> sem_undo list) list"
  sem_next_id :: int
  total_semaphores :: usize

definition sem_manager_new :: sem_manager where
  "sem_manager_new =
     \<lparr>sem_index = [], semsets = [], pid_undo = [], sem_next_id = 0, total_semaphores = 0\<rparr>"

definition get_semid_by_key :: "sem_manager \<Rightarrow> int \<Rightarrow> int option" where
  "get_semid_by_key m key = map_of (sem_index m) key"

definition get_semset_by_id :: "sem_manager \<Rightarrow> int \<Rightarrow> sem_set option" where
  "get_semset_by_id m semid = map_of (semsets m) semid"

text \<open>Writing back a set reached through its \<open>Arc\<close>.\<close>

definition put_semset :: "int \<Rightarrow> sem_set \<Rightarrow> sem_manager \<Rightarrow> sem_manager" where
  "put_semset semid s m = m\<lparr>semsets := bt_insert semid s (semsets m)\<rparr>"

definition create_semset ::
    "int \<Rightarrow> sem_manager \<Rightarrow> int \<Rightarrow> nat \<Rightarrow> nat \<Rightarrow> pid \<Rightarrow> (int \<times> sem_manager) linux_result" where
  "create_semset now m key nsems mode pid =
     (if usize_add (total_semaphores m) nsems > SEMMNS then Inl ENOSPC
      else if length (semsets m) \<ge> SEMMNI then Inl ENOSPC
      else let (semid, next) = ipcid_alloc (sem_next_id m)
        in Inr (semid, m\<lparr>sem_index := bt_insert key semid (sem_index m),
             semsets := bt_insert semid (sem_set_new now key semid nsems mode pid) (semsets m),
             sem_next_id := next,
             total_semaphores := usize_add (total_semaphores m) nsems\<rparr>))"

definition remove_semset :: "sem_manager \<Rightarrow> int \<Rightarrow> sem_manager" where
  "remove_semset m semid =
     (case map_of (semsets m) semid of
        None \<Rightarrow> m
      | Some s \<Rightarrow> m\<lparr>semsets := bt_remove semid (semsets m),
          total_semaphores := usize_sub (total_semaphores m) (length (semaphores s)),
          sem_index := bt_remove (perm_key (sem_perm (set_info s))) (sem_index m)\<rparr>)"

definition add_undo_operation :: "sem_manager \<Rightarrow> pid \<Rightarrow> int \<Rightarrow> nat \<Rightarrow> int \<Rightarrow> sem_manager" where
  "add_undo_operation m pid semid num sop =
     (let old = (case map_of (pid_undo m) pid of None \<Rightarrow> [] | Some us \<Rightarrow> us)
      in m\<lparr>pid_undo := bt_insert pid
             (old @ [\<lparr>undo_semid = semid, undo_num = num, undo_op = wrap_i16 (- sop)\<rparr>]) (pid_undo m)\<rparr>)"

definition undo_one :: "int \<Rightarrow> pid \<Rightarrow> sem_undo \<Rightarrow> sem_manager \<Rightarrow> sem_manager" where
  "undo_one now pid u m =
     (case get_semset_by_id m (undo_semid u) of
        None \<Rightarrow> m
      | Some s \<Rightarrow>
          if undo_num u < length (semaphores s) then
            (let x = semaphores s ! undo_num u; new_val = semval x + undo_op u
             in if new_val \<ge> 0 \<and> new_val \<le> int SEMVMX
                then put_semset (undo_semid u)
                  (wake_up_processes now (s\<lparr>semaphores := (semaphores s)
                     [undo_num u := x\<lparr>semval := wrap_i16 new_val, sempid := pid\<rparr>]\<rparr>)) m
                else m)
          else m)"

definition perform_undo_operations :: "int \<Rightarrow> sem_manager \<Rightarrow> pid \<Rightarrow> sem_manager" where
  "perform_undo_operations now m pid =
     (case map_of (pid_undo m) pid of
        None \<Rightarrow> m
      | Some us \<Rightarrow> fold (undo_one now pid) us (m\<lparr>pid_undo := bt_remove pid (pid_undo m)\<rparr>))"

definition clear_one :: "int \<Rightarrow> sem_manager \<Rightarrow> sem_manager" where
  "clear_one semid m = remove_semset
     (case map_of (semsets m) semid of
        None \<Rightarrow> m
      | Some s \<Rightarrow> put_semset semid
          (s\<lparr>set_rmid := True, waiting_queue := [], wait_notifies := wait_notifies s + 1,
             semaphores := map (\<lambda>_. semaphore_new) (semaphores s)\<rparr>) m) semid"

definition sem_clear :: "sem_manager \<Rightarrow> sem_manager" where
  "sem_clear m =
     (let m' = fold clear_one (map fst (semsets m)) m
      in m'\<lparr>sem_index := [], semsets := [], pid_undo := [], total_semaphores := 0\<rparr>)"

section \<open>System calls\<close>

definition sys_semget ::
    "int \<Rightarrow> sem_manager \<Rightarrow> pid \<Rightarrow> int \<Rightarrow> int \<Rightarrow> int \<Rightarrow> (int \<times> sem_manager) linux_result" where
  "sys_semget now m cur_pid key nsems semflg =
     (if nsems < 0 \<or> nat nsems > SEMMSL then Inl EINVAL
      else let existing = (if key \<noteq> IPC_PRIVATE then get_semid_by_key m key else None)
        in case Option.bind existing (\<lambda>semid. map_option (Pair semid) (get_semset_by_id m semid)) of
             Some (semid, s) \<Rightarrow>
               if nsems > 0 \<and> nat nsems \<noteq> length (semaphores s) then Inl EINVAL else Inr (semid, m)
           | None \<Rightarrow>
               if nsems = 0 then Inl EINVAL
               else create_semset now m key (nat nsems) (nat (semflg AND 511)) cur_pid)"

text \<open>\<open>sys_semop\<close>: reading the operations from user space (\<open>read_sop i\<close> is the result of reading the
  \<open>i\<close>-th), then the first critical section; its value tells whether the caller has to wait.\<close>

definition semop_read ::
    "(nat \<Rightarrow> sem_buf linux_result) \<Rightarrow> usize \<Rightarrow> sem_buf list linux_result" where
  "semop_read read_sop nsops =
     (if nsops = 0 \<or> nsops > SEMOPM then Inl EINVAL else read_all read_sop nsops)"

definition semop_first ::
    "int \<Rightarrow> sem_manager \<Rightarrow> pid \<Rightarrow> int \<Rightarrow> sem_buf list \<Rightarrow> (bool \<times> sem_manager) linux_result" where
  "semop_first now m cur_pid semid operations =
     rbind (ok_or (get_semset_by_id m semid) EINVAL) (\<lambda>s.
       if list_ex (\<lambda>sop. sem_num sop \<ge> length (semaphores s)) operations then Inl EFBIG
       else let has_nowait = list_ex (\<lambda>sop. has_flag (sem_flg sop) IPC_NOWAIT) operations
         in if \<not> can_perform_operations s operations then
              (if has_nowait then Inl EAGAIN
               else Inr (True, put_semset semid (add_waiting_process s cur_pid operations) m))
            else rbind (perform_operations now s operations cur_pid)
                   (\<lambda>s'. Inr (False, put_semset semid s' m)))"

text \<open>One iteration of the waiting loop: whether it completed.\<close>

definition semop_retry ::
    "int \<Rightarrow> sem_manager \<Rightarrow> pid \<Rightarrow> int \<Rightarrow> sem_buf list \<Rightarrow> (bool \<times> sem_manager) linux_result" where
  "semop_retry now m cur_pid semid operations =
     rbind (ok_or (get_semset_by_id m semid) EIDRM) (\<lambda>s.
       if can_perform_operations s operations
       then rbind (perform_operations now s operations cur_pid)
              (\<lambda>s'. Inr (True, put_semset semid s' m))
       else Inr (False, m))"

definition semop_finish ::
    "int \<Rightarrow> sem_manager \<Rightarrow> pid \<Rightarrow> int \<Rightarrow> sem_buf list \<Rightarrow> sem_manager" where
  "semop_finish now m cur_pid semid operations =
     (let m' = fold (\<lambda>sop m. if has_flag (sem_flg sop) SEM_UNDO \<and> sem_op sop \<noteq> 0
                  then add_undo_operation m cur_pid semid (sem_num sop) (sem_op sop) else m)
                operations m
      in case get_semset_by_id m' semid of
           None \<Rightarrow> m'
         | Some s \<Rightarrow> put_semset semid (wake_up_processes now s) m')"

definition GETPID :: nat where "GETPID = 11"
definition GETVAL :: nat where "GETVAL = 12"
definition GETALL :: nat where "GETALL = 13"
definition GETNCNT :: nat where "GETNCNT = 14"
definition GETZCNT :: nat where "GETZCNT = 15"
definition SETVAL :: nat where "SETVAL = 16"
definition SETALL :: nat where "SETALL = 17"

lemmas sem_cmds = ipc_cmds GETPID_def GETVAL_def GETALL_def GETNCNT_def GETZCNT_def SETVAL_def SETALL_def

text \<open>User memory as \<open>sys_semctl\<close> sees it: the outcome of reading a \<open>SemInfo\<close> or the \<open>i\<close>-th \<open>i16\<close> at an
  address, and of writing there; a command returns the manager, the result and what it wrote.\<close>

record sem_user =
  rd_info :: "usize \<Rightarrow> sem_info linux_result"
  rd_short :: "usize \<Rightarrow> nat \<Rightarrow> int linux_result"
  wr_info :: "usize \<Rightarrow> unit linux_result"
  wr_short :: "usize \<Rightarrow> nat \<Rightarrow> unit linux_result"

datatype sem_output = OutInfo usize sem_info | OutShort usize nat int

type_synonym sem_ctl_result = "sem_manager \<times> int linux_result \<times> sem_output list"

definition semctl_rmid :: "sem_manager \<Rightarrow> int \<Rightarrow> sem_ctl_result" where
  "semctl_rmid m semid =
     (case get_semset_by_id m semid of
        None \<Rightarrow> (m, Inl EINVAL, [])
      | Some s \<Rightarrow>
          (remove_semset (put_semset semid
             (s\<lparr>set_rmid := True, waiting_queue := [],
                wait_notifies := wait_notifies s + length (waiting_queue s)\<rparr>) m) semid, Inr 0, []))"

definition semctl_set :: "int \<Rightarrow> sem_user \<Rightarrow> sem_manager \<Rightarrow> int \<Rightarrow> usize \<Rightarrow> sem_ctl_result" where
  "semctl_set now u m semid arg =
     (case rd_info u arg of
        Inl e \<Rightarrow> (m, Inl e, [])
      | Inr new_info \<Rightarrow>
          (case get_semset_by_id m semid of
             None \<Rightarrow> (m, Inl EINVAL, [])
           | Some s \<Rightarrow>
               (put_semset semid (s\<lparr>set_info := new_info\<lparr>sem_ctime := now\<rparr>\<rparr>) m, Inr 0, [])))"

text \<open>\<open>nullable!\<close> skips the write for a null pointer.\<close>

definition semctl_stat :: "sem_user \<Rightarrow> sem_manager \<Rightarrow> int \<Rightarrow> usize \<Rightarrow> sem_ctl_result" where
  "semctl_stat u m semid arg =
     (case get_semset_by_id m semid of
        None \<Rightarrow> (m, Inl EINVAL, [])
      | Some s \<Rightarrow>
          if arg = 0 then (m, Inr 0, [])
          else case wr_info u arg of
              Inl e \<Rightarrow> (m, Inl e, [])
            | Inr _ \<Rightarrow> (m, Inr 0, [OutInfo arg (set_info s)]))"

text \<open>The single-semaphore commands: bounds check, then \<open>f\<close> on the set and the index.\<close>

definition semctl_one ::
    "sem_manager \<Rightarrow> int \<Rightarrow> int \<Rightarrow> (sem_set \<Rightarrow> nat \<Rightarrow> sem_ctl_result) \<Rightarrow> sem_ctl_result" where
  "semctl_one m semid semnum f =
     (case get_semset_by_id m semid of
        None \<Rightarrow> (m, Inl EINVAL, [])
      | Some s \<Rightarrow>
          if semnum < 0 \<or> nat semnum \<ge> length (semaphores s) then (m, Inl EINVAL, [])
          else f s (nat semnum))"

definition semctl_setval ::
    "int \<Rightarrow> sem_manager \<Rightarrow> pid \<Rightarrow> int \<Rightarrow> int \<Rightarrow> usize \<Rightarrow> sem_ctl_result" where
  "semctl_setval now m cur_pid semid semnum arg =
     semctl_one m semid semnum (\<lambda>s i.
       let val = wrap_i16 (int arg) in
       if val < 0 \<or> val > int SEMVMX then (m, Inl ERANGE, [])
       else let s' = s\<lparr>semaphores := (semaphores s)
                  [i := (semaphores s ! i)\<lparr>semval := val, sempid := cur_pid\<rparr>],
                set_info := (set_info s)\<lparr>sem_ctime := now\<rparr>\<rparr>
            in (put_semset semid (wake_up_processes now s') m, Inr 0, []))"

fun getall_loop :: "sem_user \<Rightarrow> usize \<Rightarrow> nat \<Rightarrow> semaphore list \<Rightarrow> int linux_result \<times> sem_output list" where
  "getall_loop u buf i [] = (Inr 0, [])"
| "getall_loop u buf i (x # xs) =
     (case wr_short u buf i of
        Inl e \<Rightarrow> (Inl e, [])
      | Inr _ \<Rightarrow> let (r, out) = getall_loop u buf (Suc i) xs in (r, OutShort buf i (semval x) # out))"

definition semctl_getall :: "sem_user \<Rightarrow> sem_manager \<Rightarrow> int \<Rightarrow> usize \<Rightarrow> sem_ctl_result" where
  "semctl_getall u m semid arg =
     (case get_semset_by_id m semid of
        None \<Rightarrow> (m, Inl EINVAL, [])
      | Some s \<Rightarrow> let (r, out) = getall_loop u arg 0 (semaphores s) in (m, r, out))"

text \<open>The loop of \<open>SETALL\<close> writes each value as it reads it: on an error the values written so far
  stay.\<close>

fun setall_loop ::
    "sem_user \<Rightarrow> pid \<Rightarrow> usize \<Rightarrow> nat \<Rightarrow> semaphore list \<Rightarrow> semaphore list \<times> linux_error option" where
  "setall_loop u cur_pid buf i [] = ([], None)"
| "setall_loop u cur_pid buf i (x # xs) =
     (case rd_short u buf i of
        Inl e \<Rightarrow> (x # xs, Some e)
      | Inr val \<Rightarrow>
          if val < 0 \<or> val > int SEMVMX then (x # xs, Some ERANGE)
          else let (ys, e) = setall_loop u cur_pid buf (Suc i) xs
               in (x\<lparr>semval := val, sempid := cur_pid\<rparr> # ys, e))"

definition semctl_setall ::
    "int \<Rightarrow> sem_user \<Rightarrow> sem_manager \<Rightarrow> pid \<Rightarrow> int \<Rightarrow> usize \<Rightarrow> sem_ctl_result" where
  "semctl_setall now u m cur_pid semid arg =
     (case get_semset_by_id m semid of
        None \<Rightarrow> (m, Inl EINVAL, [])
      | Some s \<Rightarrow>
          (case setall_loop u cur_pid arg 0 (semaphores s) of
             (sems, Some e) \<Rightarrow> (put_semset semid (s\<lparr>semaphores := sems\<rparr>) m, Inl e, [])
           | (sems, None) \<Rightarrow>
               (put_semset semid (wake_up_processes now
                  (s\<lparr>semaphores := sems, set_info := (set_info s)\<lparr>sem_ctime := now\<rparr>\<rparr>)) m, Inr 0, [])))"

definition sys_semctl ::
    "int \<Rightarrow> sem_user \<Rightarrow> sem_manager \<Rightarrow> pid \<Rightarrow> int \<Rightarrow> int \<Rightarrow> nat \<Rightarrow> usize \<Rightarrow> sem_ctl_result" where
  "sys_semctl now u m cur_pid semid semnum cmd arg =
     (if cmd = IPC_RMID then semctl_rmid m semid
      else if cmd = IPC_SET then semctl_set now u m semid arg
      else if cmd = IPC_STAT then semctl_stat u m semid arg
      else if cmd = GETVAL then
        semctl_one m semid semnum (\<lambda>s i. (m, Inr (semval (semaphores s ! i)), []))
      else if cmd = SETVAL then semctl_setval now m cur_pid semid semnum arg
      else if cmd = GETPID then
        semctl_one m semid semnum (\<lambda>s i. (m, Inr (int (sempid (semaphores s ! i))), []))
      else if cmd = GETNCNT then
        semctl_one m semid semnum (\<lambda>s i. (m, Inr (int (semncnt (semaphores s ! i))), []))
      else if cmd = GETZCNT then
        semctl_one m semid semnum (\<lambda>s i. (m, Inr (int (semzcnt (semaphores s ! i))), []))
      else if cmd = GETALL then semctl_getall u m semid arg
      else if cmd = SETALL then semctl_setall now u m cur_pid semid arg
      else (m, Inl EINVAL, []))"

definition clear_proc_sem :: "int \<Rightarrow> sem_manager \<Rightarrow> pid \<Rightarrow> sem_manager" where
  "clear_proc_sem now m pid = perform_undo_operations now m pid"

section \<open>Interleaving\<close>

text \<open>A process is outside the semaphore calls, in the waiting loop of a \<open>semop\<close>, between the first and
  the second critical section of one, or returned from one.\<close>

datatype sem_pc =
    Idle
  | Spinning int "sem_buf list"
  | Finishing int "sem_buf list"
  | Returned "int linux_result"

record sem_system =
  sys_mgr :: sem_manager
  sys_pc :: "pid \<Rightarrow> sem_pc"

inductive sem_step :: "sem_system \<Rightarrow> sem_system \<Rightarrow> bool" where
  step_enter_wait:
    "sys_pc s p = Idle \<Longrightarrow> semop_read rd n = Inr ops \<Longrightarrow>
     semop_first now (sys_mgr s) p semid ops = Inr (True, m) \<Longrightarrow>
     sem_step s \<lparr>sys_mgr = m, sys_pc = (sys_pc s)(p := Spinning semid ops)\<rparr>"
| step_enter_now:
    "sys_pc s p = Idle \<Longrightarrow> semop_read rd n = Inr ops \<Longrightarrow>
     semop_first now (sys_mgr s) p semid ops = Inr (False, m) \<Longrightarrow>
     sem_step s \<lparr>sys_mgr = m, sys_pc = (sys_pc s)(p := Finishing semid ops)\<rparr>"
| step_enter_err:
    "sys_pc s p = Idle \<Longrightarrow>
     rbind (semop_read rd n) (\<lambda>ops. semop_first now (sys_mgr s) p semid ops) = Inl e \<Longrightarrow>
     sem_step s (s\<lparr>sys_pc := (sys_pc s)(p := Returned (Inl e))\<rparr>)"
| step_spin:
    "sys_pc s p = Spinning semid ops \<Longrightarrow>
     semop_retry now (sys_mgr s) p semid ops = Inr (False, m) \<Longrightarrow> sem_step s (s\<lparr>sys_mgr := m\<rparr>)"
| step_spin_done:
    "sys_pc s p = Spinning semid ops \<Longrightarrow>
     semop_retry now (sys_mgr s) p semid ops = Inr (True, m) \<Longrightarrow>
     sem_step s \<lparr>sys_mgr = m, sys_pc = (sys_pc s)(p := Returned (Inr 0))\<rparr>"
| step_spin_err:
    "sys_pc s p = Spinning semid ops \<Longrightarrow>
     semop_retry now (sys_mgr s) p semid ops = Inl e \<Longrightarrow>
     sem_step s (s\<lparr>sys_pc := (sys_pc s)(p := Returned (Inl e))\<rparr>)"
| step_finish:
    "sys_pc s p = Finishing semid ops \<Longrightarrow>
     sem_step s \<lparr>sys_mgr = semop_finish now (sys_mgr s) p semid ops,
                 sys_pc = (sys_pc s)(p := Returned (Inr 0))\<rparr>"
| step_return: "sys_pc s p = Returned r \<Longrightarrow> sem_step s (s\<lparr>sys_pc := (sys_pc s)(p := Idle)\<rparr>)"
| step_semget:
    "sys_pc s p = Idle \<Longrightarrow> sys_semget now (sys_mgr s) p key nsems flg = Inr (semid, m) \<Longrightarrow>
     sem_step s (s\<lparr>sys_mgr := m\<rparr>)"
| step_semctl:
    "sys_pc s p = Idle \<Longrightarrow> sys_semctl now u (sys_mgr s) p semid semnum cmd arg = (m, r, out) \<Longrightarrow>
     sem_step s (s\<lparr>sys_mgr := m\<rparr>)"
| step_exit:
    "sys_pc s p = Idle \<Longrightarrow> sem_step s (s\<lparr>sys_mgr := clear_proc_sem now (sys_mgr s) p\<rparr>)"

definition sem_system_init :: sem_system where
  "sem_system_init = \<lparr>sys_mgr = sem_manager_new, sys_pc = (\<lambda>_. Idle)\<rparr>"

section \<open>Performing operations\<close>

definition vals_ok :: "int list \<Rightarrow> bool" where
  "vals_ok vs \<longleftrightarrow> (\<forall>v \<in> set vs. 0 \<le> v \<and> v \<le> int SEMVMX)"

definition sem_vals :: "sem_set \<Rightarrow> int list" where
  "sem_vals s = map semval (semaphores s)"

text \<open>What a list of operations adds to semaphore \<open>i\<close>.\<close>

definition op_sum :: "nat \<Rightarrow> sem_buf list \<Rightarrow> int" where
  "op_sum i ops = sum_list (map sem_op (filter (\<lambda>sop. sem_num sop = i) ops))"

lemma vals_ok_update: "vals_ok vs \<Longrightarrow> 0 \<le> v \<Longrightarrow> v \<le> int SEMVMX \<Longrightarrow> vals_ok (vs[i := v])"
  unfolding vals_ok_def by (metis insert_iff set_update_subset_insert subsetD)

lemma try_values_sound:
  assumes "try_values vs ops = Some ws" "vals_ok vs"
  shows "length ws = length vs \<and> vals_ok ws \<and> (\<forall>i < length vs. ws ! i = vs ! i + op_sum i ops) \<and>
    (\<forall>sop \<in> set ops. sem_num sop < length vs)"
  using assms
proof (induction vs ops rule: try_values.induct)
  case (2 vs sop ops)
  let ?v = "vs ! sem_num sop + sem_op sop"
  from 2(2) have g: "sem_num sop < length vs" "0 \<le> ?v" "?v \<le> int SEMVMX"
    and t: "try_values (vs[sem_num sop := wrap_i16 ?v]) ops = Some ws"
    by (auto simp: Let_def split: if_splits)
  then have w: "wrap_i16 ?v = ?v" by (simp add: SEMVMX_def)
  have "vals_ok (vs[sem_num sop := ?v])" using vals_ok_update [OF 2(3)] g by simp
  then show ?case
    using 2(1) [OF _ refl _] g t w by (auto simp: op_sum_def nth_list_update)
qed (simp add: op_sum_def)

lemma map_update_same: "f v = f (xs ! i) \<Longrightarrow> map f (xs[i := v]) = map f xs"
  by (rule nth_equalityI) (simp_all, metis nth_list_update_eq nth_list_update_neq)

lemma dec_count_vals: "map semval (fold dec_count ops sems) = map semval sems"
  by (induction ops arbitrary: sems) (simp_all add: dec_count_def Let_def map_update_same)

lemma inc_count_vals: "map semval (fold inc_count ops sems) = map semval sems"
  by (induction ops arbitrary: sems) (simp_all add: inc_count_def Let_def map_update_same)

lemma apply_op_vals:
  "try_values (map semval sems) ops = Some ws \<Longrightarrow> vals_ok (map semval sems) \<Longrightarrow>
    map semval (fold (apply_op pid) ops sems) = ws"
proof (induction ops arbitrary: sems)
  case (Cons sop ops)
  let ?v = "map semval sems ! sem_num sop + sem_op sop"
  from Cons.prems(1) have g: "sem_num sop < length sems" "0 \<le> ?v" "?v \<le> int SEMVMX"
    and t: "try_values ((map semval sems)[sem_num sop := wrap_i16 ?v]) ops = Some ws"
    by (auto simp: Let_def split: if_splits)
  have eq: "map semval (apply_op pid sop sems) = (map semval sems)[sem_num sop := wrap_i16 ?v]"
    using g by (simp add: apply_op_def Let_def map_update)
  have "vals_ok (map semval (apply_op pid sop sems))"
    unfolding eq using vals_ok_update [OF Cons.prems(2)] g by (simp add: SEMVMX_def)
  with Cons.IH [of "apply_op pid sop sems"] t eq show ?case by simp
qed simp

lemma perform_operations_ok:
  assumes "perform_operations now s ops pid = Inr s'" "vals_ok (sem_vals s)"
  shows "can_perform_operations s ops" "try_values (sem_vals s) ops = Some (sem_vals s')"
    "vals_ok (sem_vals s')" "length (semaphores s') = length (semaphores s)"
    "waiting_queue s' = waiting_queue s" "wait_notifies s' = wait_notifies s"
proof -
  show can: "can_perform_operations s ops"
    using assms(1) by (auto simp: perform_operations_def split: if_splits)
  then obtain ws where ws: "try_values (sem_vals s) ops = Some ws"
    by (auto simp: can_perform_operations_def sem_vals_def split: option.splits)
  have s': "s' = s\<lparr>semaphores := fold (apply_op pid) ops (fold dec_count ops (semaphores s)),
      set_info := (set_info s)\<lparr>sem_otime := now\<rparr>\<rparr>"
    using assms(1) can by (simp add: perform_operations_def Let_def)
  have "sem_vals s' = ws"
    unfolding sem_vals_def s' using ws assms(2)
    by (simp add: sem_vals_def apply_op_vals dec_count_vals)
  then show "try_values (sem_vals s) ops = Some (sem_vals s')" using ws by simp
  then have "vals_ok (sem_vals s') \<and> length (sem_vals s') = length (sem_vals s)"
    using try_values_sound [OF _ assms(2)] by blast
  then show "vals_ok (sem_vals s')" "length (semaphores s') = length (semaphores s)"
    by (simp_all add: sem_vals_def)
  show "waiting_queue s' = waiting_queue s" "wait_notifies s' = wait_notifies s" by (simp_all add: s')
qed

lemma perform_operations_can: "can_perform_operations s ops \<Longrightarrow> \<exists>s'. perform_operations now s ops pid = Inr s'"
  by (simp add: perform_operations_def Let_def)

text \<open>The set invariant every operation of the component keeps: values in range.\<close>

definition set_ok :: "sem_set \<Rightarrow> bool" where
  "set_ok s \<longleftrightarrow> vals_ok (sem_vals s)"

lemma wake_up_loop_ok:
  "set_ok s \<Longrightarrow> set_ok (wake_up_loop now s queue remaining) \<and>
    length (semaphores (wake_up_loop now s queue remaining)) = length (semaphores s)"
proof (induction now s queue remaining rule: wake_up_loop.induct)
  case (2 now s w queue remaining)
  show ?case
  proof (cases "can_perform_operations s (wait_operations w)")
    case True
    then obtain s' where s': "perform_operations now s (wait_operations w) (wait_pid w) = Inr s'"
      using perform_operations_can by blast
    have "set_ok (s'\<lparr>wait_notifies := wait_notifies s' + 1\<rparr>)"
      using perform_operations_ok(3) [OF s'] 2(4) by (simp add: set_ok_def sem_vals_def)
    then show ?thesis
      using 2(2) [OF True s'] s' True perform_operations_ok(4) [OF s'] 2(4)
      by (simp add: set_ok_def)
  qed (use 2 in simp)
qed (simp add: set_ok_def sem_vals_def)

lemma wake_up_processes_ok:
  "set_ok s \<Longrightarrow> set_ok (wake_up_processes now s)"
  "set_ok s \<Longrightarrow> length (semaphores (wake_up_processes now s)) = length (semaphores s)"
  using wake_up_loop_ok by (simp_all add: wake_up_processes_def)


definition example_set :: sem_set where
  "example_set = (sem_set_new 0 5 0 2 438 1)\<lparr>semaphores := [semaphore_new\<lparr>semval := 3\<rparr>, semaphore_new]\<rparr>"


text \<open>C8: a decrement that is performed at once, without its process having been counted as a waiter,
  takes the waiter count below zero: from 0 it wraps to 65535, which \<open>GETNCNT\<close> then reports.\<close>

theorem semncnt_underflow:
  assumes "can_perform_operations s [sop]" and "sem_op sop < 0"
    and "semncnt (semaphores s ! sem_num sop) = 0"
  shows "\<exists>s'. perform_operations now s [sop] pid = Inr s' \<and> semncnt (semaphores s' ! sem_num sop) = 65535"
proof -
  have "sem_num sop < length (semaphores s)"
    using assms(1) by (auto simp: can_perform_operations_def split: option.splits if_splits)
  then show ?thesis
    using assms by (simp add: perform_operations_def dec_count_def apply_op_def Let_def u16_sub_def)
qed

theorem semncnt_underflow_witness:
  "\<exists>s'. perform_operations 9 example_set [\<lparr>sem_num = 0, sem_op = -2, sem_flg = 0\<rparr>] 7 = Inr s' \<and>
    semncnt (semaphores s' ! 0) = 65535"
  using semncnt_underflow [of example_set "\<lparr>sem_num = 0, sem_op = -2, sem_flg = 0\<rparr>" 9 7]
  by (simp add: example_set_def semaphore_new_def can_perform_operations_def SEMVMX_def)

section \<open>Invariant of the manager\<close>

text \<open>Identifiers of live sets are ordered, every value is in range, no more than \<open>SEMMNI\<close> sets and
  \<open>SEMMNS\<close> semaphores exist, and the running total covers the semaphores of the live sets.\<close>

definition sem_mgr_inv :: "sem_manager \<Rightarrow> bool" where
  "sem_mgr_inv m \<longleftrightarrow> bt_inv (semsets m) \<and> bt_inv (sem_index m) \<and> bt_all set_ok (semsets m) \<and>
     length (semsets m) \<le> SEMMNI \<and>
     bt_sum (length \<circ> semaphores) (semsets m) \<le> total_semaphores m \<and> total_semaphores m \<le> SEMMNS"

lemma sem_mgr_inv_new: "sem_mgr_inv sem_manager_new"
  by (simp add: sem_mgr_inv_def sem_manager_new_def)

lemma get_semset_ok: "sem_mgr_inv m \<Longrightarrow> get_semset_by_id m semid = Some s \<Longrightarrow> set_ok s"
  by (auto simp: sem_mgr_inv_def get_semset_by_id_def dest: bt_all_get)

text \<open>Writing a set back keeps the invariant when its number of semaphores does not change.\<close>

lemma put_semset_inv:
  assumes "sem_mgr_inv m" "get_semset_by_id m semid = Some s" "set_ok s'"
    "length (semaphores s') = length (semaphores s)"
  shows "sem_mgr_inv (put_semset semid s' m)"
proof -
  have k: "map_of (semsets m) semid = Some s" using assms by (simp add: get_semset_by_id_def)
  have bt: "bt_inv (semsets m)" using assms(1) by (simp add: sem_mgr_inv_def)
  have "semid \<in> fst ` set (semsets m)" using k by (force dest: map_of_SomeD)
  then show ?thesis
    using assms k bt bt_sum_insert [OF bt, of "length \<circ> semaphores" semid s']
    by (simp add: sem_mgr_inv_def put_semset_def length_bt_insert bt_inv_insert)
qed

lemma remove_semset_inv:
  assumes "sem_mgr_inv m"
  shows "sem_mgr_inv (remove_semset m semid)"
proof (cases "map_of (semsets m) semid")
  case (Some s)
  have le: "length (semaphores s) \<le> total_semaphores m"
    and sum: "bt_sum (length \<circ> semaphores) (bt_remove semid (semsets m)) + length (semaphores s)
      \<le> total_semaphores m"
    using assms bt_sum_remove [OF Some, of "length \<circ> semaphores"] by (simp_all add: sem_mgr_inv_def)
  have "total_semaphores m < usize_bound"
    using assms by (simp add: sem_mgr_inv_def SEMMNS_def usize_bound_def)
  then have sub: "usize_sub (total_semaphores m) (length (semaphores s))
      = total_semaphores m - length (semaphores s)"
    using le by (rule usize_sub_id [rotated])
  show ?thesis
    using assms Some sum length_bt_remove [of semid "semsets m"]
    by (auto simp: sem_mgr_inv_def remove_semset_def sub)
qed (use assms in \<open>simp add: remove_semset_def\<close>)

lemma create_semset_inv:
  assumes "sem_mgr_inv m" "create_semset now m key n mode pid = Inr (semid, m')" "n \<le> SEMMNS"
  shows "sem_mgr_inv m'"
proof -
  let ?s = "sem_set_new now key (sem_next_id m) n mode pid"
  have add: "usize_add (total_semaphores m) n = total_semaphores m + n"
    using assms by (intro usize_add_id) (simp add: sem_mgr_inv_def SEMMNS_def usize_bound_def)
  have m': "m' = m\<lparr>sem_index := bt_insert key (sem_next_id m) (sem_index m),
      semsets := bt_insert (sem_next_id m) ?s (semsets m),
      sem_next_id := wrap_i32 (sem_next_id m + 1), total_semaphores := total_semaphores m + n\<rparr>"
    and g: "total_semaphores m + n \<le> SEMMNS" "length (semsets m) < SEMMNI"
    using assms(2) by (auto simp: create_semset_def ipcid_alloc_def Let_def add split: if_splits)
  have bt: "bt_inv (semsets m)" using assms(1) by (simp add: sem_mgr_inv_def)
  have ok: "set_ok ?s"
    by (simp add: set_ok_def vals_ok_def sem_vals_def sem_set_new_def semaphore_new_def)
  have "length (semaphores ?s) = n" by (simp add: sem_set_new_def)
  then show ?thesis
    using assms(1) g ok bt_sum_insert [OF bt, of "length \<circ> semaphores" "sem_next_id m" ?s]
    by (simp add: m' sem_mgr_inv_def length_bt_insert)
qed

lemma add_undo_inv: "sem_mgr_inv m \<Longrightarrow> sem_mgr_inv (add_undo_operation m pid semid n sop)"
  by (simp add: sem_mgr_inv_def add_undo_operation_def Let_def)

lemma undo_one_inv:
  assumes "sem_mgr_inv m"
  shows "sem_mgr_inv (undo_one now pid u m)"
proof (cases "get_semset_by_id m (undo_semid u)")
  case (Some s)
  let ?x = "semaphores s ! undo_num u"
  let ?s = "s\<lparr>semaphores := (semaphores s)
     [undo_num u := ?x\<lparr>semval := wrap_i16 (semval ?x + undo_op u), sempid := pid\<rparr>]\<rparr>"
  have "set_ok ?s" if "semval ?x + undo_op u \<ge> 0" "semval ?x + undo_op u \<le> int SEMVMX"
    using get_semset_ok [OF assms Some] that vals_ok_update
    by (simp add: set_ok_def sem_vals_def map_update SEMVMX_def)
  then show ?thesis
    using Some assms put_semset_inv [OF assms Some] wake_up_processes_ok [of ?s now]
    by (auto simp: undo_one_def Let_def)
qed (use assms in \<open>simp add: undo_one_def\<close>)

lemma sem_mgr_inv_pid_undo [simp]: "sem_mgr_inv (m\<lparr>pid_undo := us\<rparr>) \<longleftrightarrow> sem_mgr_inv m"
  by (simp add: sem_mgr_inv_def)

lemma perform_undo_inv: "sem_mgr_inv m \<Longrightarrow> sem_mgr_inv (perform_undo_operations now m pid)"
  by (simp add: perform_undo_operations_def undo_one_inv fold_inv [where P = sem_mgr_inv]
      split: option.split)

lemma sys_semget_inv:
  assumes "sem_mgr_inv m" "sys_semget now m pid key nsems flg = Inr (semid, m')"
  shows "sem_mgr_inv m'"
proof -
  have "m' = m \<or> create_semset now m key (nat nsems) (nat (flg AND 511)) pid = Inr (semid, m') \<and> nat nsems \<le> SEMMSL"
    using assms(2) unfolding sys_semget_def Let_def by (simp split: if_splits option.splits prod.splits)
  then show ?thesis
    using create_semset_inv [OF assms(1)] assms(1) by (auto simp: SEMMSL_def SEMMNS_def)
qed

text \<open>Performing operations on the set found under an identifier and writing it back.\<close>

lemma perform_put_inv:
  assumes "sem_mgr_inv m" "get_semset_by_id m semid = Some s" "perform_operations now s ops pid = Inr s'"
  shows "sem_mgr_inv (put_semset semid s' m)"
  using put_semset_inv [OF assms(1,2)] get_semset_ok [OF assms(1,2)]
    perform_operations_ok(3,4) [OF assms(3)] by (simp add: set_ok_def)

lemma add_waiting_ok:
  "set_ok (add_waiting_process s pid ops) \<longleftrightarrow> set_ok s"
  "length (semaphores (add_waiting_process s pid ops)) = length (semaphores s)"
  using inc_count_vals [of ops "semaphores s"] map_eq_imp_length_eq [OF inc_count_vals [of ops "semaphores s"]]
  by (simp_all add: set_ok_def sem_vals_def add_waiting_process_def)

lemma semop_first_inv:
  assumes "sem_mgr_inv m" "semop_first now m pid semid ops = Inr (b, m')"
  shows "sem_mgr_inv m'"
proof -
  obtain s where s: "get_semset_by_id m semid = Some s"
    using assms(2) by (auto simp: semop_first_def rbind_eq_Inr ok_or_eq_Inr)
  consider "m' = put_semset semid (add_waiting_process s pid ops) m"
    | s' where "perform_operations now s ops pid = Inr s'" "m' = put_semset semid s' m"
    using assms(2) s by (auto simp: semop_first_def Let_def rbind_eq_Inr split: if_splits)
  then show ?thesis
  proof cases
    case 1
    then show ?thesis
      using put_semset_inv [OF assms(1) s] get_semset_ok [OF assms(1) s] by (simp add: add_waiting_ok)
  next
    case 2
    then show ?thesis using perform_put_inv [OF assms(1) s] by simp
  qed
qed

lemma semop_retry_inv:
  assumes "sem_mgr_inv m" "semop_retry now m pid semid ops = Inr (b, m')"
  shows "sem_mgr_inv m'"
proof -
  obtain s where s: "get_semset_by_id m semid = Some s"
    using assms(2) by (auto simp: semop_retry_def rbind_eq_Inr ok_or_eq_Inr)
  have "m' = m \<or> (\<exists>s'. perform_operations now s ops pid = Inr s' \<and> m' = put_semset semid s' m)"
    using assms(2) s by (auto simp: semop_retry_def rbind_eq_Inr split: if_splits)
  then show ?thesis using assms(1) perform_put_inv [OF assms(1) s] by blast
qed

lemma wake_put_inv:
  assumes "sem_mgr_inv m" "get_semset_by_id m semid = Some s" "set_ok s'"
    "length (semaphores s') = length (semaphores s)"
  shows "sem_mgr_inv (put_semset semid (wake_up_processes now s') m)"
  using put_semset_inv [OF assms(1,2)] wake_up_processes_ok [OF assms(3)] assms(4) by simp

lemma semop_finish_inv:
  assumes "sem_mgr_inv m"
  shows "sem_mgr_inv (semop_finish now m pid semid ops)"
proof -
  define m' where "m' = fold (\<lambda>sop m. if has_flag (sem_flg sop) SEM_UNDO \<and> sem_op sop \<noteq> 0
      then add_undo_operation m pid semid (sem_num sop) (sem_op sop) else m) ops m"
  have inv: "sem_mgr_inv m'"
    unfolding m'_def by (rule fold_inv [where P = sem_mgr_inv]) (simp_all add: assms add_undo_inv)
  have eq: "semop_finish now m pid semid ops = (case get_semset_by_id m' semid of
      None \<Rightarrow> m' | Some s \<Rightarrow> put_semset semid (wake_up_processes now s) m')"
    unfolding semop_finish_def m'_def Let_def by (rule refl)
  show ?thesis
    using wake_put_inv [OF inv _ get_semset_ok [OF inv]] inv unfolding eq by (simp split: option.split)
qed

lemma setall_loop_ok:
  "setall_loop u p buf i sems = (sems', e) \<Longrightarrow> vals_ok (map semval sems) \<Longrightarrow>
    vals_ok (map semval sems') \<and> length sems' = length sems"
proof (induction u p buf i sems arbitrary: sems' e rule: setall_loop.induct)
  case (2 u p buf i x xs)
  have xs: "vals_ok (map semval xs)" using 2(3) by (simp add: vals_ok_def)
  obtain ys e' where r: "setall_loop u p buf (Suc i) xs = (ys, e')" by fastforce
  consider "sems' = x # xs"
    | v where "rd_short u buf i = Inr v" "\<not> (v < 0 \<or> int SEMVMX < v)"
        "sems' = x\<lparr>semval := v, sempid := p\<rparr> # ys"
    using 2(2) r by (auto split: sum.splits if_splits)
  then show ?case
  proof cases
    case 1
    then show ?thesis using 2(3) by simp
  next
    case (2 v)
    then have "vals_ok (map semval ys) \<and> length ys = length xs"
      using \<open>\<And>v sems' e. \<lbrakk>rd_short u buf i = Inr v; \<not> (v < 0 \<or> int SEMVMX < v);
        setall_loop u p buf (Suc i) xs = (sems', e); vals_ok (map semval xs)\<rbrakk>
        \<Longrightarrow> vals_ok (map semval sems') \<and> length sems' = length xs\<close> r xs by blast
    then show ?thesis using 2 by (simp add: vals_ok_def)
  qed
qed (simp add: vals_ok_def)

lemma sys_semctl_inv:
  assumes "sem_mgr_inv m" "sys_semctl now u m p semid semnum cmd arg = (m', r, out)"
  shows "sem_mgr_inv m'"
proof -
  have rmid: "sem_mgr_inv (fst (semctl_rmid m semid))"
    using assms(1) get_semset_ok [OF assms(1)]
    by (simp add: semctl_rmid_def put_semset_inv remove_semset_inv set_ok_def sem_vals_def
        split: option.split)
  have set: "sem_mgr_inv (fst (semctl_set now u m semid arg))"
    using assms(1) get_semset_ok [OF assms(1)]
    by (simp add: semctl_set_def put_semset_inv set_ok_def sem_vals_def split: option.split sum.split)
  have setval: "sem_mgr_inv (fst (semctl_setval now m p semid semnum arg))"
    using assms(1) get_semset_ok [OF assms(1)]
    by (simp add: semctl_setval_def semctl_one_def Let_def wake_put_inv set_ok_def sem_vals_def
        map_update vals_ok_update split: option.split)
  have setall: "sem_mgr_inv (fst (semctl_setall now u m p semid arg))"
    using assms(1) get_semset_ok [OF assms(1)] setall_loop_ok
    by (simp add: semctl_setall_def wake_put_inv put_semset_inv set_ok_def sem_vals_def
        split: option.split prod.split)
  have getall: "fst (semctl_getall u m semid arg) = m" and stat: "fst (semctl_stat u m semid arg) = m"
    by (simp_all add: semctl_getall_def semctl_stat_def case_prod_beta Let_def split: option.split sum.split)
  have one: "fst (semctl_one m semid semnum (\<lambda>s i. (m, f s i, []))) = m" for f
    by (simp add: semctl_one_def split: option.split)
  have "sem_mgr_inv (fst (sys_semctl now u m p semid semnum cmd arg))"
    unfolding sys_semctl_def
    by (intro P_if [of "\<lambda>x. sem_mgr_inv (fst x)"]) (simp_all add: assms(1) rmid set setval setall getall stat one)
  with assms(2) show ?thesis by simp
qed

text \<open>C3: however the semaphore calls of any number of processes interleave, every semaphore value stays in
  the range 0 to \<open>SEMVMX\<close>, there are at most \<open>SEMMNI\<close> sets, and the semaphores of the live sets never
  exceed the accounted total, which never exceeds \<open>SEMMNS\<close>.\<close>

theorem semaphore_invariant:
  assumes "sem_step\<^sup>*\<^sup>* sem_system_init s"
  shows "sem_mgr_inv (sys_mgr s)"
  using assms
proof (induction rule: rtranclp_induct)
  case base
  then show ?case by (simp add: sem_system_init_def sem_mgr_inv_new)
next
  case (step s t)
  from step(2) step(3) show ?case
    by (cases rule: sem_step.cases)
      (auto simp: clear_proc_sem_def perform_undo_inv semop_finish_inv
        intro: semop_first_inv semop_retry_inv sys_semget_inv sys_semctl_inv)
qed

section \<open>A waiter that is never released\<close>

text \<open>Process 1 creates a set of one semaphore and waits on it, process 2 posts it once.\<close>

definition sem_down :: sem_buf where "sem_down = \<lparr>sem_num = 0, sem_op = -1, sem_flg = 0\<rparr>"
definition sem_up :: sem_buf where "sem_up = \<lparr>sem_num = 0, sem_op = 1, sem_flg = 0\<rparr>"

definition run_created :: sem_system where
  "run_created = sem_system_init\<lparr>sys_mgr := snd (projr (sys_semget 0 sem_manager_new 1 7 1 512))\<rparr>"

definition run_waiting :: sem_system where
  "run_waiting = \<lparr>sys_mgr = snd (projr (semop_first 0 (sys_mgr run_created) 1 0 [sem_down])),
     sys_pc = (sys_pc run_created)(1 := Spinning 0 [sem_down])\<rparr>"

definition run_posting :: sem_system where
  "run_posting = \<lparr>sys_mgr = snd (projr (semop_first 0 (sys_mgr run_waiting) 2 0 [sem_up])),
     sys_pc = (sys_pc run_waiting)(2 := Finishing 0 [sem_up])\<rparr>"

definition run_posted :: sem_system where
  "run_posted = \<lparr>sys_mgr = semop_finish 0 (sys_mgr run_posting) 2 0 [sem_up],
     sys_pc = (sys_pc run_posting)(2 := Returned (Inr 0))\<rparr>"

lemmas run_defs = run_created_def run_waiting_def run_posting_def run_posted_def sem_down_def sem_up_def
  sem_system_init_def sem_manager_new_def sys_semget_def create_semset_def semop_first_def semop_retry_def
  semop_finish_def sem_set_new_def sem_info_new_def semaphore_new_def put_semset_def get_semset_by_id_def
  get_semid_by_key_def add_waiting_process_def inc_count_def dec_count_def apply_op_def ipcid_alloc_def
  can_perform_operations_def perform_operations_def wake_up_processes_def u16_add_def u16_sub_def
  has_flag_def usize_add_def usize_bound_def SEMMSL_def SEMMNS_def SEMMNI_def SEMVMX_def IPC_PRIVATE_def
  IPC_NOWAIT_def SEM_UNDO_def Let_def

lemma run_reaches_posted: "sem_step\<^sup>*\<^sup>* sem_system_init run_posted"
proof -
  have 1: "sem_step sem_system_init run_created"
    unfolding run_created_def
    by (rule step_semget [where p = 1 and key = 7 and nsems = 1 and flg = 512 and now = 0 and semid = 0])
      (simp_all add: run_defs)
  have 2: "sem_step run_created run_waiting"
    unfolding run_waiting_def
    by (rule step_enter_wait [where rd = "\<lambda>_. Inr sem_down" and n = 1 and now = 0])
      (simp_all add: run_defs semop_read_def SEMOPM_def)
  have 3: "sem_step run_waiting run_posting"
    unfolding run_posting_def
    by (rule step_enter_now [where rd = "\<lambda>_. Inr sem_up" and n = 1 and now = 0])
      (simp_all add: run_defs semop_read_def SEMOPM_def)
  have 4: "sem_step run_posting run_posted"
    unfolding run_posted_def by (rule step_finish) (simp add: run_posting_def)
  show ?thesis
    using 1 2 3 4 by (meson rtranclp.rtrancl_refl rtranclp.rtrancl_into_rtrancl)
qed

definition posted_set :: sem_set where
  "posted_set = (sem_set_new 0 7 0 1 0 1)\<lparr>semaphores := [semaphore_new\<lparr>sempid := 1\<rparr>], wait_notifies := 1\<rparr>"

lemma run_posted_set: "get_semset_by_id (sys_mgr run_posted) 0 = Some posted_set"
  by (simp add: run_defs posted_set_def)

lemma run_posted_retry:
  "semop_retry now (sys_mgr run_posted) 1 0 [sem_down] = Inr (False, sys_mgr run_posted)"
proof -
  have "\<not> can_perform_operations posted_set [sem_down]"
    by (simp add: posted_set_def can_perform_operations_def sem_down_def semaphore_new_def)
  then show ?thesis by (simp add: semop_retry_def run_posted_set)
qed


theorem semaphore_invariant_witness: "sem_mgr_inv (sys_mgr run_posted)"
  using semaphore_invariant [OF run_reaches_posted] .

text \<open>C11: \<open>IPC_SET\<close> replaces the whole \<open>SemInfo\<close>, key included, so removing a set afterwards unlinks the
  key of another one: the other set stays alive but is no longer found by its own key, and asking for
  that key creates a second set.\<close>

theorem semctl_set_key_unlinks_other:
  assumes "get_semset_by_id m a = Some sa" and "get_semset_by_id m b = Some sb" and "a \<noteq> b"
    and "get_semid_by_key m key = Some b" and "bt_inv (semsets m)" and "bt_inv (sem_index m)"
    and "rd_info u arg = Inr info" and "perm_key (sem_perm info) = key"
  shows "let m1 = fst (sys_semctl now u m p a 0 IPC_SET arg);
      m2 = fst (sys_semctl now u m1 p a 0 IPC_RMID 0)
    in get_semset_by_id m2 b = Some sb \<and> get_semid_by_key m2 key = None"
proof -
  let ?sa = "sa\<lparr>set_info := info\<lparr>sem_ctime := now\<rparr>\<rparr>"
  have m1: "fst (sys_semctl now u m p a 0 IPC_SET arg) = put_semset a ?sa m"
    using assms by (simp add: sys_semctl_def semctl_set_def sem_cmds)
  show ?thesis
    unfolding Let_def m1 using assms
    by (simp add: sys_semctl_def semctl_rmid_def sem_cmds remove_semset_def put_semset_def
        get_semset_by_id_def get_semid_by_key_def bt_simps bt_inv_insert)
qed

definition two_sets :: sem_manager where
  "two_sets = snd (projr (sys_semget 0 (sys_mgr run_created) 1 8 1 512))"

definition set_key_user :: sem_user where
  "set_key_user = \<lparr>rd_info = (\<lambda>_. Inr (sem_info_new 0 8 1 438 1)), rd_short = (\<lambda>_ _. Inl EFAULT),
     wr_info = (\<lambda>_. Inr ()), wr_short = (\<lambda>_ _. Inr ())\<rparr>"

theorem semctl_set_key_unlinks_other_witness:
  "get_semid_by_key (fst (sys_semctl 0 set_key_user
     (fst (sys_semctl 0 set_key_user two_sets 1 0 0 IPC_SET 64)) 1 0 0 IPC_RMID 0)) 8 = None"
  using semctl_set_key_unlinks_other [where m = two_sets and a = 0 and b = 1 and key = 8
      and u = set_key_user and arg = 64 and now = 0 and p = 1]
  by (simp add: two_sets_def set_key_user_def run_defs)

end
