(* ===== verification/Ipc_Msg.thy ===== *)
theory Ipc_Msg
  imports Ipc_Base
begin

text \<open>
  System V message queues: \<open>xkernel/src/ipc/msg.rs\<close> and the system calls of
  \<open>xkernel/src/syscall/ipc/msg.rs\<close>. The byte and message counters are 64-bit and wrap; a message text is a
  list of bytes. User memory enters as the outcome of the reads and writes a call performs.
\<close>

section \<open>Queues\<close>

record msgid_ds =
  msg_perm :: ipc_perm
  msg_stime :: int
  msg_rtime :: int
  msg_ctime :: int
  msg_cbytes :: usize
  msg_qnum :: usize
  msg_qbytes :: usize
  msg_lspid :: pid
  msg_lrpid :: pid

definition msgid_ds_new :: "int \<Rightarrow> int \<Rightarrow> nat \<Rightarrow> pid \<Rightarrow> msgid_ds" where
  "msgid_ds_new now key mode pid =
     \<lparr>msg_perm = \<lparr>perm_key = key, perm_uid = 0, perm_gid = 0, perm_cuid = 0, perm_cgid = 0,
                  perm_mode = mode, perm_seq = 0\<rparr>,
      msg_stime = 0, msg_rtime = 0, msg_ctime = now, msg_cbytes = 0, msg_qnum = 0,
      msg_qbytes = MSGMNB, msg_lspid = pid, msg_lrpid = 0\<rparr>"

record message =
  mtype :: int
  mtext :: "nat list"
  sender_pid :: pid
  timestamp :: int

definition message_new :: "int \<Rightarrow> int \<Rightarrow> nat list \<Rightarrow> pid \<Rightarrow> message" where
  "message_new now ty text sender = \<lparr>mtype = ty, mtext = text, sender_pid = sender, timestamp = now\<rparr>"

definition msg_size :: "message \<Rightarrow> usize" where
  "msg_size msg = length (mtext msg)"

record msg_queue =
  msgid :: int
  messages :: "message list"
  msg_rmid :: bool
  msqid_ds :: msgid_ds
  waiting_senders :: "pid list"
  waiting_receivers :: "pid list"

definition msg_queue_new :: "int \<Rightarrow> int \<Rightarrow> int \<Rightarrow> nat \<Rightarrow> pid \<Rightarrow> msg_queue" where
  "msg_queue_new now key i mode pid =
     \<lparr>msgid = i, messages = [], msg_rmid = False, msqid_ds = msgid_ds_new now key mode pid,
      waiting_senders = [], waiting_receivers = []\<rparr>"

definition try_update :: "msg_queue \<Rightarrow> nat \<Rightarrow> int linux_result" where
  "try_update q mode = (if mode \<noteq> perm_mode (msg_perm (msqid_ds q)) then Inl EINVAL else Inr (msgid q))"

definition can_send :: "msg_queue \<Rightarrow> usize \<Rightarrow> bool" where
  "can_send q sz \<longleftrightarrow>
     usize_add (msg_cbytes (msqid_ds q)) sz \<le> msg_qbytes (msqid_ds q) \<and> sz \<le> MSGMAX"

definition send_message :: "int \<Rightarrow> msg_queue \<Rightarrow> message \<Rightarrow> msg_queue linux_result" where
  "send_message now q msg =
     (if \<not> can_send q (msg_size msg) then Inl EAGAIN
      else let ds = msqid_ds q in
        Inr (q\<lparr>messages := messages q @ [msg],
               msqid_ds := ds\<lparr>msg_cbytes := usize_add (msg_cbytes ds) (msg_size msg),
                 msg_qnum := usize_add (msg_qnum ds) 1, msg_stime := now, msg_lspid := sender_pid msg\<rparr>\<rparr>))"

text \<open>\<open>Iterator::position\<close>, and \<open>min_by_key\<close> on the enumerated items a filter keeps: the first item of
  least key.\<close>

fun position :: "('a \<Rightarrow> bool) \<Rightarrow> 'a list \<Rightarrow> nat option" where
  "position P [] = None"
| "position P (x # xs) = (if P x then Some 0 else map_option Suc (position P xs))"

fun min_by_mtype :: "(nat \<times> message) list \<Rightarrow> (nat \<times> message) option" where
  "min_by_mtype [] = None"
| "min_by_mtype (x # xs) =
     (case min_by_mtype xs of
        None \<Rightarrow> Some x
      | Some y \<Rightarrow> if mtype (snd y) < mtype (snd x) then Some y else Some x)"

definition find_message :: "msg_queue \<Rightarrow> int \<Rightarrow> nat option" where
  "find_message q msgtyp =
     (if msgtyp = 0 then (if messages q = [] then None else Some 0)
      else if msgtyp > 0 then position (\<lambda>msg. mtype msg = msgtyp) (messages q)
      else let abs_msgtyp = wrap_isize \<bar>msgtyp\<bar>
        in map_option fst (min_by_mtype
             (filter (\<lambda>(_, msg). mtype msg \<le> abs_msgtyp) (enumerate 0 (messages q)))))"

definition receive_message ::
    "int \<Rightarrow> msg_queue \<Rightarrow> int \<Rightarrow> nat \<Rightarrow> pid \<Rightarrow> (message \<times> msg_queue) linux_result" where
  "receive_message now q msgtyp msgflg pid =
     (case find_message q msgtyp of
        Some i \<Rightarrow>
          let msg = messages q ! i; ds = msqid_ds q
          in Inr (msg, q\<lparr>messages := take i (messages q) @ drop (Suc i) (messages q),
               msqid_ds := ds\<lparr>msg_cbytes := usize_sub (msg_cbytes ds) (msg_size msg),
                 msg_qnum := usize_sub (msg_qnum ds) 1, msg_rtime := now, msg_lrpid := pid\<rparr>\<rparr>)
      | None \<Rightarrow> if msgflg AND IPC_NOWAIT \<noteq> 0 then Inl ENOMSG else Inl EAGAIN)"

definition set_queue_bytes :: "msg_queue \<Rightarrow> usize \<Rightarrow> msg_queue linux_result" where
  "set_queue_bytes q qbytes =
     (if qbytes > MSGMNB then Inl EINVAL
      else Inr (q\<lparr>msqid_ds := (msqid_ds q)\<lparr>msg_qbytes := qbytes\<rparr>\<rparr>))"

section \<open>The queue manager\<close>

record msg_manager =
  msg_index :: "(int \<times> int) list"
  queues :: "(int \<times> msg_queue) list"
  msg_next_id :: int

definition msg_manager_new :: msg_manager where
  "msg_manager_new = \<lparr>msg_index = [], queues = [], msg_next_id = 0\<rparr>"

definition get_msgid_by_key :: "msg_manager \<Rightarrow> int \<Rightarrow> int option" where
  "get_msgid_by_key m key = map_of (msg_index m) key"

definition get_queue_by_msgid :: "msg_manager \<Rightarrow> int \<Rightarrow> msg_queue option" where
  "get_queue_by_msgid m i = map_of (queues m) i"

definition insert_key_msgid :: "int \<Rightarrow> int \<Rightarrow> msg_manager \<Rightarrow> msg_manager" where
  "insert_key_msgid key i m = m\<lparr>msg_index := bt_insert key i (msg_index m)\<rparr>"

definition insert_msgid_queue :: "int \<Rightarrow> msg_queue \<Rightarrow> msg_manager \<Rightarrow> msg_manager" where
  "insert_msgid_queue i q m = m\<lparr>queues := bt_insert i q (queues m)\<rparr>"

definition remove_msgid :: "msg_manager \<Rightarrow> int \<Rightarrow> msg_manager" where
  "remove_msgid m i =
     (let m' = (case List.find (\<lambda>(_, x). x = i) (msg_index m) of
                  Some (key, _) \<Rightarrow> m\<lparr>msg_index := bt_remove key (msg_index m)\<rparr>
                | None \<Rightarrow> m)
      in m'\<lparr>queues := bt_remove i (queues m')\<rparr>)"

definition allocate_msgid :: "msg_manager \<Rightarrow> int \<times> msg_manager" where
  "allocate_msgid m = (let (i, next) = ipcid_alloc (msg_next_id m) in (i, m\<lparr>msg_next_id := next\<rparr>))"

definition queue_count :: "msg_manager \<Rightarrow> usize" where
  "queue_count m = length (queues m)"

definition total_queues_bytes :: "msg_manager \<Rightarrow> usize" where
  "total_queues_bytes m = fold (\<lambda>(_, q) total. usize_add total (msg_cbytes (msqid_ds q))) (queues m) 0"

definition total_messages :: "msg_manager \<Rightarrow> usize" where
  "total_messages m = fold (\<lambda>(_, q) total. usize_add total (length (messages q))) (queues m) 0"

definition msg_clear_one :: "int \<Rightarrow> msg_manager \<Rightarrow> msg_manager" where
  "msg_clear_one i m = remove_msgid
     (case map_of (queues m) i of
        None \<Rightarrow> m
      | Some q \<Rightarrow> insert_msgid_queue i
          (q\<lparr>msg_rmid := True, messages := [],
             msqid_ds := (msqid_ds q)\<lparr>msg_cbytes := 0, msg_qnum := 0\<rparr>,
             waiting_senders := [], waiting_receivers := []\<rparr>) m) i"

definition msg_clear :: "msg_manager \<Rightarrow> msg_manager" where
  "msg_clear m =
     (let m' = fold msg_clear_one (map fst (queues m)) m in m'\<lparr>msg_index := [], queues := []\<rparr>)"

section \<open>System calls\<close>

definition sys_msgget ::
    "int \<Rightarrow> ipc_limits \<Rightarrow> msg_manager \<Rightarrow> pid \<Rightarrow> int \<Rightarrow> int \<Rightarrow> (int \<times> msg_manager) linux_result" where
  "sys_msgget now limits m cur_pid key msgflg =
     (let create =
        (if msgflg AND int IPC_CREAT = 0 then Inl ENOENT
         else if queue_count m \<ge> msgmni limits then Inl ENOSPC
         else let (i, m1) = allocate_msgid m;
                  q = msg_queue_new now key i (nat (msgflg AND 511)) cur_pid;
                  m2 = insert_msgid_queue i q m1
              in Inr (i, if key \<noteq> IPC_PRIVATE then insert_key_msgid key i m2 else m2))
      in case (if key \<noteq> IPC_PRIVATE then get_msgid_by_key m key else None) of
           None \<Rightarrow> create
         | Some existing \<Rightarrow>
             if msgflg AND (int IPC_CREAT OR int IPC_EXCL) = int IPC_CREAT OR int IPC_EXCL then Inl EEXIST
             else case get_queue_by_msgid m existing of
                 None \<Rightarrow> create
               | Some q \<Rightarrow>
                   if (msgflg AND 511) AND NOT (int (perm_mode (msg_perm (msqid_ds q))) AND 511) \<noteq> 0
                   then Inl EACCES else Inr (existing, m))"

text \<open>\<open>rd_type\<close> and \<open>rd_text n\<close> are the outcomes of reading the message type and \<open>n\<close> bytes of text.\<close>

definition sys_msgsnd ::
    "int \<Rightarrow> ipc_limits \<Rightarrow> int linux_result \<Rightarrow> (nat \<Rightarrow> nat list linux_result) \<Rightarrow> msg_manager \<Rightarrow> pid \<Rightarrow>
     int \<Rightarrow> usize \<Rightarrow> int \<Rightarrow> (int \<times> msg_manager) linux_result" where
  "sys_msgsnd now limits rd_type rd_text m cur_pid msqid msgsz msgflg =
     (if msgsz > msgmax limits then Inl EINVAL
      else rbind rd_type (\<lambda>ty.
        if ty \<le> 0 then Inl EINVAL
        else rbind (rd_text msgsz) (\<lambda>text.
          rbind (ok_or (get_queue_by_msgid m msqid) EINVAL) (\<lambda>q.
            if msg_rmid q then Inl EIDRM
            else if perm_mode (msg_perm (msqid_ds q)) AND 128 = 0 then Inl EACCES
            else case send_message now q (message_new now ty text cur_pid) of
                Inr q' \<Rightarrow> Inr (0, insert_msgid_queue msqid q' m)
              | Inl e \<Rightarrow> Inl e))))"

text \<open>The result of \<open>sys_msgrcv\<close>, the manager afterwards, and the type and text copied out. \<open>wr_type\<close>
  and \<open>wr_text\<close> are the outcomes of the two writes.\<close>

definition sys_msgrcv ::
    "int \<Rightarrow> unit linux_result \<Rightarrow> unit linux_result \<Rightarrow> msg_manager \<Rightarrow> pid \<Rightarrow> int \<Rightarrow> usize \<Rightarrow> int \<Rightarrow>
     int \<Rightarrow> int linux_result \<times> msg_manager \<times> (int \<times> nat list) option" where
  "sys_msgrcv now wr_type wr_text m cur_pid msqid msgsz msgtyp msgflg =
     (case get_queue_by_msgid m msqid of
        None \<Rightarrow> (Inl EINVAL, m, None)
      | Some q \<Rightarrow>
          if msg_rmid q then (Inl EIDRM, m, None)
          else if perm_mode (msg_perm (msqid_ds q)) AND 256 = 0 then (Inl EACCES, m, None)
          else case receive_message now q msgtyp (nat (msgflg mod 2 ^ 32)) cur_pid of
              Inr (msg, q') \<Rightarrow>
                let m' = insert_msgid_queue msqid q' m in
                if length (mtext msg) > msgsz \<and> msgflg AND int MSG_NOERROR = 0 then (Inl E2BIG, m', None)
                else (case wr_type of
                    Inl e \<Rightarrow> (Inl e, m', None)
                  | Inr _ \<Rightarrow>
                      let copy_size = min (msg_size msg) msgsz in
                      case wr_text of
                        Inl e \<Rightarrow> (Inl e, m', None)
                      | Inr _ \<Rightarrow> (Inr (int (length (mtext msg))), m',
                          Some (mtype msg, take copy_size (mtext msg))))
            | Inl EAGAIN \<Rightarrow>
                (if msgflg AND int IPC_NOWAIT \<noteq> 0 then Inl ENOMSG else Inl EAGAIN, m, None)
            | Inl e \<Rightarrow> (Inl e, m, None))"

text \<open>\<open>buf\<close> is the user pointer, \<open>rd\<close> and \<open>wr\<close> the outcomes of reading and writing a \<open>MsgidDs\<close> there.\<close>

definition sys_msgctl ::
    "int \<Rightarrow> msgid_ds linux_result \<Rightarrow> unit linux_result \<Rightarrow> msg_manager \<Rightarrow> int \<Rightarrow> int \<Rightarrow> usize \<Rightarrow>
     (int \<times> msg_manager \<times> msgid_ds option) linux_result" where
  "sys_msgctl now rd wr m msqid cmd buf =
     (let c = nat (cmd mod 2 ^ 32) in
      if c = IPC_STAT then
        rbind (ok_or (get_queue_by_msgid m msqid) EINVAL) (\<lambda>q.
          if msg_rmid q then Inl EIDRM
          else if perm_mode (msg_perm (msqid_ds q)) AND 256 = 0 then Inl EACCES
          else if buf \<noteq> 0 then rbind wr (\<lambda>_. Inr (0, m, Some (msqid_ds q))) else Inr (0, m, None))
      else if c = IPC_SET then
        rbind (ok_or (get_queue_by_msgid m msqid) EINVAL) (\<lambda>q.
          if msg_rmid q then Inl EIDRM
          else if buf \<noteq> 0 then
            rbind rd (\<lambda>new_info.
              let ds = msqid_ds q; p = msg_perm ds; np = msg_perm new_info;
                  p' = p\<lparr>perm_uid := perm_uid np, perm_gid := perm_gid np,
                    perm_mode := nat ((int (perm_mode p) AND NOT 511) OR (int (perm_mode np) AND 511))\<rparr>
              in Inr (0, insert_msgid_queue msqid
                   (q\<lparr>msqid_ds := ds\<lparr>msg_perm := p', msg_qbytes := msg_qbytes new_info,
                        msg_ctime := now\<rparr>\<rparr>) m, None))
          else Inr (0, m, None))
      else if c = IPC_RMID then
        rbind (ok_or (get_queue_by_msgid m msqid) EINVAL) (\<lambda>q.
          if msg_rmid q then Inl EIDRM else Inr (0, remove_msgid m msqid, None))
      else if c = IPC_INFO then Inr (0, m, None)
      else Inl EINVAL)"

section \<open>Choosing a message\<close>

lemma position_Some:
  "position P xs = Some i \<longleftrightarrow> i < length xs \<and> P (xs ! i) \<and> (\<forall>j < i. \<not> P (xs ! j))"
proof (induction xs arbitrary: i)
  case (Cons x xs)
  then show ?case by (cases i) (auto simp: less_Suc_eq_0_disj)
qed simp

lemma position_None: "position P xs = None \<longleftrightarrow> (\<forall>x \<in> set xs. \<not> P x)"
  by (induction xs) auto

lemma min_by_mtype_None [simp]: "min_by_mtype xs = None \<longleftrightarrow> xs = []"
  by (cases xs) (auto split: option.splits)

lemma min_by_mtype_Some:
  assumes "min_by_mtype xs = Some y" "sorted_wrt (<) (map fst xs)"
  shows "y \<in> set xs \<and> (\<forall>z \<in> set xs. mtype (snd y) < mtype (snd z) \<or> mtype (snd y) = mtype (snd z) \<and> fst y \<le> fst z)"
  using assms
proof (induction xs arbitrary: y)
  case (Cons x xs)
  show ?case
  proof (cases "min_by_mtype xs")
    case None
    then show ?thesis using Cons.prems by simp
  next
    case (Some w)
    with Cons.IH [OF Some] Cons.prems have w: "w \<in> set xs"
      "\<forall>z \<in> set xs. mtype (snd w) < mtype (snd z) \<or> mtype (snd w) = mtype (snd z) \<and> fst w \<le> fst z"
      and lt: "\<forall>z \<in> set xs. fst x < fst z" by auto
    then show ?thesis using Cons.prems Some by (fastforce split: if_splits)
  qed
qed simp

text \<open>Whether message \<open>i\<close> of a queue is the one a receiver asking for type \<open>t\<close> gets.\<close>

definition selects :: "int \<Rightarrow> message list \<Rightarrow> nat \<Rightarrow> bool" where
  "selects t ms i \<longleftrightarrow> i < length ms \<and>
     (if t = 0 then i = 0
      else if t > 0 then mtype (ms ! i) = t \<and> (\<forall>j < i. mtype (ms ! j) \<noteq> t)
      else mtype (ms ! i) \<le> - t \<and>
        (\<forall>j < length ms. mtype (ms ! j) \<le> - t \<longrightarrow>
           mtype (ms ! i) < mtype (ms ! j) \<or> mtype (ms ! i) = mtype (ms ! j) \<and> i \<le> j))"

definition eligible :: "int \<Rightarrow> message \<Rightarrow> bool" where
  "eligible t msg \<longleftrightarrow> (if t = 0 then True else if t > 0 then mtype msg = t else mtype msg \<le> - t)"

lemma enumerate_filter_sorted: "sorted_wrt (<) (map fst (filter P (enumerate n xs)))"
proof -
  have "sorted_wrt (<) (map fst (enumerate n xs))" by (simp only: map_fst_enumerate sorted_wrt_upt)
  then show ?thesis by (simp only: sorted_wrt_map sorted_wrt_filter)
qed

lemma find_message_correct:
  assumes "- (2 ^ 63) < t"
  shows "find_message q t = Some i \<Longrightarrow> selects t (messages q) i"
    and "find_message q t = None \<longleftrightarrow> (\<forall>msg \<in> set (messages q). \<not> eligible t msg)"
proof -
  let ?c = "filter (\<lambda>(_, msg). mtype msg \<le> - t) (enumerate 0 (messages q))"
  have abs: "wrap_isize \<bar>t\<bar> = - t" if "t < 0"
    using assms that by (simp add: isize_range_def)
  have mem: "(j, msg) \<in> set ?c \<longleftrightarrow> j < length (messages q) \<and> messages q ! j = msg \<and> mtype msg \<le> - t" for j msg
    by (auto simp: in_set_enumerate_eq)
  show "selects t (messages q) i" if f: "find_message q t = Some i"
  proof (cases "t < 0")
    case True
    then obtain msg where "min_by_mtype ?c = Some (i, msg)"
      using f abs by (auto simp: find_message_def)
    from min_by_mtype_Some [OF this enumerate_filter_sorted]
    have 1: "(i, msg) \<in> set ?c" and 2: "\<And>j x. (j, x) \<in> set ?c \<Longrightarrow>
        mtype msg < mtype x \<or> mtype msg = mtype x \<and> i \<le> j" by auto
    show ?thesis using True 1 2 unfolding selects_def mem by auto
  next
    case False
    then show ?thesis using f
      by (auto simp: find_message_def selects_def position_Some split: if_splits)
  qed
  show "find_message q t = None \<longleftrightarrow> (\<forall>msg \<in> set (messages q). \<not> eligible t msg)"
  proof (cases "t < 0")
    case True
    have "find_message q t = None \<longleftrightarrow> ?c = []" using True abs by (simp add: find_message_def)
    also have "\<dots> \<longleftrightarrow> (\<forall>j msg. (j, msg) \<notin> set ?c)" by (metis ex_in_conv set_empty surj_pair)
    also have "\<dots> \<longleftrightarrow> (\<forall>msg \<in> set (messages q). \<not> mtype msg \<le> - t)"
      unfolding mem by (auto simp: all_set_conv_all_nth)
    finally show ?thesis using True by (simp add: eligible_def)
  next
    case False
    then show ?thesis
      by (cases "messages q") (auto simp: find_message_def eligible_def position_None split: if_splits)
  qed
qed

section \<open>Accounting\<close>

text \<open>The byte and message counters of a queue are those of its messages.\<close>

definition queue_inv :: "msg_queue \<Rightarrow> bool" where
  "queue_inv q \<longleftrightarrow> msg_cbytes (msqid_ds q) = sum_list (map msg_size (messages q)) mod usize_bound \<and>
     msg_qnum (msqid_ds q) = length (messages q) mod usize_bound"

lemma usize_sub_mod: "b \<le> a \<Longrightarrow> usize_sub (a mod usize_bound) b = (a - b) mod usize_bound" if "b < usize_bound"
proof -
  assume "b \<le> a"
  have "(a mod usize_bound + usize_bound - b) mod usize_bound
      = (a mod usize_bound + (usize_bound - b)) mod usize_bound" using that by simp
  also have "\<dots> = (a + (usize_bound - b)) mod usize_bound" by (simp add: mod_add_left_eq)
  also have "a + (usize_bound - b) = (a - b) + usize_bound" using \<open>b \<le> a\<close> that by simp
  finally show ?thesis by (simp add: usize_sub_def)
qed

lemma send_message_inv: "queue_inv q \<Longrightarrow> send_message now q msg = Inr q' \<Longrightarrow> queue_inv q'"
  by (auto simp: queue_inv_def send_message_def Let_def usize_add_def mod_add_left_eq mod_add_right_eq
      mod_Suc_eq add.commute split: if_splits)

lemma take_drop_nth: "i < length xs \<Longrightarrow> xs = take i xs @ xs ! i # drop (Suc i) xs"
  by (simp add: id_take_nth_drop)

lemma receive_message_inv:
  assumes "queue_inv q" "\<forall>msg \<in> set (messages q). msg_size msg < usize_bound"
    "receive_message now q t flg pid = Inr (msg, q')" "find_message q t = Some i" "i < length (messages q)"
  shows "queue_inv q'"
proof -
  let ?ms = "messages q"
  let ?rest = "take i ?ms @ drop (Suc i) ?ms"
  have q': "msg = ?ms ! i" "messages q' = ?rest"
    "msg_cbytes (msqid_ds q') = usize_sub (msg_cbytes (msqid_ds q)) (msg_size msg)"
    "msg_qnum (msqid_ds q') = usize_sub (msg_qnum (msqid_ds q)) 1"
    using assms(3,4) by (auto simp: receive_message_def Let_def)
  have sum: "sum_list (map msg_size ?ms) = sum_list (map msg_size ?rest) + msg_size msg"
    by (subst take_drop_nth [OF assms(5)]) (simp add: q')
  have len: "length ?ms = length ?rest + 1" using assms(5) by simp
  have "msg_size msg < usize_bound" using assms(2,5) q'(1) by simp
  moreover have "(1::nat) < usize_bound" by (simp add: usize_bound_def)
  ultimately show ?thesis
    using assms(1) unfolding queue_inv_def q' sum len by (simp add: usize_sub_mod q'(2))
qed

text \<open>C20: a receive takes exactly the message it should. For a type argument \<open>t\<close> other than \<open>i64::MIN\<close> it
  succeeds when the queue holds an eligible message and then removes one: the first message for
  \<open>t = 0\<close>, the first of type \<open>t\<close> for \<open>t > 0\<close>, the first of the least type up to \<open>-t\<close> for \<open>t < 0\<close>;
  the other messages keep their order and the byte and message counters stay exact. Without an
  eligible message it reports \<open>ENOMSG\<close> or \<open>EAGAIN\<close> according to \<open>IPC_NOWAIT\<close>.\<close>

theorem receive_message_correct:
  assumes "- (2 ^ 63) < t" and "queue_inv q" and "\<forall>msg \<in> set (messages q). msg_size msg \<le> MSGMAX"
  shows "case receive_message now q t flg pid of
      Inr (msg, q') \<Rightarrow> \<exists>before after. messages q = before @ msg # after \<and>
          messages q' = before @ after \<and> selects t (messages q) (length before) \<and> queue_inv q'
    | Inl e \<Rightarrow> (\<forall>msg \<in> set (messages q). \<not> eligible t msg) \<and>
          e = (if flg AND IPC_NOWAIT \<noteq> 0 then ENOMSG else EAGAIN)"
proof (cases "find_message q t")
  case None
  then show ?thesis
    using find_message_correct(2) [OF assms(1), of q] by (simp add: receive_message_def)
next
  case (Some i)
  note sel = find_message_correct(1) [OF assms(1) Some]
  then have i: "i < length (messages q)" by (simp add: selects_def)
  obtain msg q' where r: "receive_message now q t flg pid = Inr (msg, q')"
    and msg: "msg = messages q ! i" and q': "messages q' = take i (messages q) @ drop (Suc i) (messages q)"
    using Some by (simp add: receive_message_def Let_def)
  have small: "\<forall>msg \<in> set (messages q). msg_size msg < usize_bound"
    using assms(3) by (auto simp: MSGMAX_def usize_bound_def)
  have inv: "queue_inv q'" by (rule receive_message_inv [OF assms(2) small r Some i])
  have "\<exists>before after. messages q = before @ msg # after \<and> messages q' = before @ after \<and>
      selects t (messages q) (length before) \<and> queue_inv q'"
    by (rule exI [of _ "take i (messages q)"], rule exI [of _ "drop (Suc i) (messages q)"])
      (use i sel msg q' inv take_drop_nth [OF i] in simp)
  then show ?thesis using r by simp
qed

definition example_queue :: msg_queue where
  "example_queue = projr (send_message 0 (projr (send_message 0 (msg_queue_new 0 7 0 384 1)
     (message_new 0 5 [1, 2, 3] 1))) (message_new 0 2 [9] 1))"

lemmas example_queue_defs = example_queue_def send_message_def can_send_def msg_queue_new_def
  msgid_ds_new_def message_new_def msg_size_def usize_add_def usize_bound_def MSGMNB_def MSGMAX_def Let_def

theorem receive_message_correct_witness:
  "\<exists>msg q' before after. receive_message 0 example_queue (-4) 0 3 = Inr (msg, q') \<and>
    messages example_queue = before @ msg # after \<and> messages q' = before @ after"
proof -
  have inv: "queue_inv example_queue" and sz: "\<forall>msg \<in> set (messages example_queue). msg_size msg \<le> MSGMAX"
    by (simp_all add: example_queue_defs queue_inv_def)
  have el: "\<not> (\<forall>msg \<in> set (messages example_queue). \<not> eligible (-4) msg)"
    by (simp add: example_queue_defs eligible_def)
  show ?thesis
    using receive_message_correct [OF _ inv sz, of "-4" 0 0 3] el
    by (auto split: sum.splits)
qed

text \<open>C22: a receive whose buffer is too small, without \<open>MSG_NOERROR\<close>, reports \<open>E2BIG\<close> and loses the
  message: it has already been taken off the queue and is not copied out.\<close>

theorem msgrcv_e2big_loses_message:
  assumes "get_queue_by_msgid m i = Some q" and "bt_inv (queues m)" and "\<not> msg_rmid q"
    and "perm_mode (msg_perm (msqid_ds q)) AND 256 \<noteq> 0"
    and "receive_message now q t (nat (flg mod 2 ^ 32)) pid = Inr (msg, q')"
    and "length (mtext msg) > msgsz" and "flg AND int MSG_NOERROR = 0"
  shows "\<exists>m'. sys_msgrcv now wt wx m pid i msgsz t flg = (Inl E2BIG, m', None) \<and>
    get_queue_by_msgid m' i = Some q' \<and> length (messages q') < length (messages q)"
proof -
  obtain k where "find_message q t = Some k" "messages q' = take k (messages q) @ drop (Suc k) (messages q)"
    using assms(5) by (auto simp: receive_message_def Let_def split: option.splits if_splits)
  moreover have "k < length (messages q)" if "find_message q t = Some k" for k
    using that by (auto simp: find_message_def position_Some Let_def in_set_enumerate_eq
        dest!: min_by_mtype_Some [OF _ enumerate_filter_sorted] split: if_splits)
  ultimately have "length (messages q') < length (messages q)" by fastforce
  then show ?thesis
    using assms by (simp add: sys_msgrcv_def Let_def get_queue_by_msgid_def insert_msgid_queue_def bt_simps)
qed

definition example_msgs :: msg_manager where
  "example_msgs = insert_msgid_queue 0 example_queue msg_manager_new"

theorem msgrcv_e2big_loses_message_witness:
  "fst (sys_msgrcv 0 (Inr ()) (Inr ()) example_msgs 3 0 2 5 0) = Inl E2BIG"
  using msgrcv_e2big_loses_message [where m = example_msgs and i = 0 and q = example_queue and now = 0
      and t = 5 and flg = 0 and pid = 3 and msgsz = 2 and wt = "Inr ()" and wx = "Inr ()"
      and msg = "message_new 0 5 [1, 2, 3] 1" and q' = "snd (projr (receive_message 0 example_queue 5 0 3))"]
  by (auto simp: example_msgs_def insert_msgid_queue_def msg_manager_new_def get_queue_by_msgid_def
      example_queue_defs receive_message_def find_message_def)

end
