(* ===== verification/Mem_Addr.thy ===== *)
theory Mem_Addr
  imports Prelude
begin

text \<open>
  The interface of the third-party crate \<open>memory_addr\<close>: alignment of addresses and half-open address
  ranges. The definitions that use it take its operations as an argument \<open>A\<close>; the locale
  \<open>memory_addr\<close> states the documented behaviour the kernel relies on, and \<open>std_addr\<close> is one
  implementation that satisfies it. \<open>VirtAddr\<close> and \<open>PhysAddr\<close> wrap a \<open>usize\<close>.
\<close>

record va_range =
  va_start :: usize
  va_end :: usize

record addr_ops =
  align_down :: "usize \<Rightarrow> usize \<Rightarrow> usize"
  align_up :: "usize \<Rightarrow> usize \<Rightarrow> usize"
  align_offset :: "usize \<Rightarrow> usize \<Rightarrow> usize"
  is_aligned :: "usize \<Rightarrow> usize \<Rightarrow> bool"
  try_from_start_size :: "usize \<Rightarrow> usize \<Rightarrow> va_range option"
  from_start_size :: "usize \<Rightarrow> usize \<Rightarrow> va_range"
  range_size :: "va_range \<Rightarrow> usize"
  contains_addr :: "va_range \<Rightarrow> usize \<Rightarrow> bool"
  contains_range :: "va_range \<Rightarrow> va_range \<Rightarrow> bool"
  overlaps :: "va_range \<Rightarrow> va_range \<Rightarrow> bool"

definition PAGE_SIZE_4K :: usize where
  "PAGE_SIZE_4K = 4096"

locale memory_addr =
  fixes A :: addr_ops
  assumes align_down: "align_down A a (2 ^ k) = a - a mod 2 ^ k"
    and align_up: "a + 2 ^ k \<le> usize_bound \<Longrightarrow> align_up A a (2 ^ k) = (a + 2 ^ k - 1) div 2 ^ k * 2 ^ k"
    and align_offset: "align_offset A a (2 ^ k) = a mod 2 ^ k"
    and is_aligned: "is_aligned A a (2 ^ k) \<longleftrightarrow> a mod 2 ^ k = 0"
    and try_from_start_size: "try_from_start_size A s n =
      (if s + n < usize_bound then Some \<lparr>va_start = s, va_end = s + n\<rparr> else None)"
    and from_start_size: "s + n < usize_bound \<Longrightarrow> from_start_size A s n = \<lparr>va_start = s, va_end = s + n\<rparr>"
    and range_size: "va_start r \<le> va_end r \<Longrightarrow> range_size A r = va_end r - va_start r"
    and contains_addr: "contains_addr A r a \<longleftrightarrow> va_start r \<le> a \<and> a < va_end r"
    and contains_range: "contains_range A r q \<longleftrightarrow> va_start r \<le> va_start q \<and> va_end q \<le> va_end r"
    and overlaps: "overlaps A r q \<longleftrightarrow> va_start r < va_end q \<and> va_start q < va_end r"
begin

lemma align_4k:
  "align_down A a 4096 = a - a mod 4096" "align_offset A a 4096 = a mod 4096"
  "is_aligned A a 4096 \<longleftrightarrow> a mod 4096 = 0"
  using align_down [of a 12] align_offset [of a 12] is_aligned [of a 12] by simp_all

lemma align_down_aligned: "is_aligned A (align_down A a (2 ^ k)) (2 ^ k)"
  by (simp add: align_down is_aligned minus_mod_eq_mult_div)

lemma align_down_le: "align_down A a (2 ^ k) \<le> a" "a < align_down A a (2 ^ k) + 2 ^ k"
proof -
  have "a mod 2 ^ k \<le> a" "a mod 2 ^ k < 2 ^ k" by simp_all
  then show "align_down A a (2 ^ k) \<le> a" "a < align_down A a (2 ^ k) + 2 ^ k"
    unfolding align_down by linarith+
qed

lemma align_up_ge:
  assumes "a + 2 ^ k \<le> usize_bound"
  shows "a \<le> align_up A a (2 ^ k)" "align_up A a (2 ^ k) < a + 2 ^ k"
    "is_aligned A (align_up A a (2 ^ k)) (2 ^ k)"
proof -
  let ?p = "2 ^ k :: nat"
  have "?p > 0" by simp
  have eq: "align_up A a ?p = (a + ?p - 1) div ?p * ?p" by (rule align_up [OF assms])
  have "(a + ?p - 1) div ?p * ?p + (a + ?p - 1) mod ?p = a + ?p - 1" by (rule div_mult_mod_eq)
  moreover have "(a + ?p - 1) mod ?p < ?p" by simp
  ultimately show "a \<le> align_up A a ?p" "align_up A a ?p < a + ?p"
    unfolding eq using \<open>?p > 0\<close> by linarith+
  show "is_aligned A (align_up A a ?p) ?p" by (simp add: is_aligned eq)
qed

end

definition std_addr :: addr_ops where
  "std_addr =
     \<lparr>align_down = (\<lambda>a p. a - a mod p), align_up = (\<lambda>a p. (a + p - 1) div p * p),
      align_offset = (\<lambda>a p. a mod p), is_aligned = (\<lambda>a p. a mod p = 0),
      try_from_start_size =
        (\<lambda>s n. if s + n < usize_bound then Some \<lparr>va_start = s, va_end = s + n\<rparr> else None),
      from_start_size = (\<lambda>s n. \<lparr>va_start = s, va_end = s + n\<rparr>),
      range_size = (\<lambda>r. va_end r - va_start r),
      contains_addr = (\<lambda>r a. va_start r \<le> a \<and> a < va_end r),
      contains_range = (\<lambda>r q. va_start r \<le> va_start q \<and> va_end q \<le> va_end r),
      overlaps = (\<lambda>r q. va_start r < va_end q \<and> va_start q < va_end r)\<rparr>"

interpretation std_addr: memory_addr std_addr
  by unfold_locales (simp_all add: std_addr_def)

end
