(* ===== verification/Ipc_Shm.thy ===== *)
theory Ipc_Shm
  imports Ipc_Base Mem_Addr
begin

text \<open>
  System V shared memory: \<open>xkernel/src/ipc/shm.rs\<close> and the system calls of
  \<open>xkernel/src/syscall/ipc/shm.rs\<close>. The manager records, per segment, which processes attach it and
  where, and per process a two-way map between segment ids and attach addresses. The backing object
  of a segment is an opaque \<open>'o\<close>; what the virtual-memory space answers to a search for a free range,
  a mapping and an unmapping are arguments of the calls. The \<open>u16\<close> attach counter wraps on attach and
  saturates on detach.
\<close>

section \<open>Segments\<close>

record shm_info =
  shm_perm :: ipc_perm
  shm_segsz :: usize
  shm_atime :: int
  shm_dtime :: int
  shm_ctime :: int
  shm_cpid :: pid
  shm_lpid :: pid
  shm_nattch :: nat

definition shm_info_new :: "int \<Rightarrow> int \<Rightarrow> usize \<Rightarrow> nat \<Rightarrow> pid \<Rightarrow> shm_info" where
  "shm_info_new now key sz mode pid =
     \<lparr>shm_perm = ipc_perm_new key mode, shm_segsz = sz, shm_atime = 0, shm_dtime = 0, shm_ctime = now,
      shm_cpid = pid, shm_lpid = pid, shm_nattch = 0\<rparr>"

definition update_attach_time :: "int \<Rightarrow> pid \<Rightarrow> shm_info \<Rightarrow> shm_info" where
  "update_attach_time now pid i =
     i\<lparr>shm_atime := now, shm_lpid := pid, shm_nattch := u16_add (shm_nattch i) 1\<rparr>"

definition update_detach_time :: "int \<Rightarrow> pid \<Rightarrow> shm_info \<Rightarrow> shm_info" where
  "update_detach_time now pid i = i\<lparr>shm_dtime := now, shm_lpid := pid, shm_nattch := shm_nattch i - 1\<rparr>"

definition update_change_time :: "int \<Rightarrow> shm_info \<Rightarrow> shm_info" where
  "update_change_time now i = i\<lparr>shm_ctime := now\<rparr>"

text \<open>Mapping flags are the bits of \<open>MappingFlags\<close>: \<open>READ\<close> 1, \<open>WRITE\<close> 2, \<open>USER\<close> 8.\<close>

record 'o shm_segment =
  shmid :: int
  page_num :: usize
  va_ranges :: "(pid \<times> va_range) list"
  shm_object :: "'o option"
  shm_rmid :: bool
  mapping_flags :: nat
  shmid_ds :: shm_info

definition shm_segment_new ::
    "addr_ops \<Rightarrow> int \<Rightarrow> int \<Rightarrow> int \<Rightarrow> usize \<Rightarrow> nat \<Rightarrow> pid \<Rightarrow> 'o shm_segment" where
  "shm_segment_new A now key i sz flags pid =
     \<lparr>shmid = i, page_num = align_up A sz PAGE_SIZE_4K div PAGE_SIZE_4K, va_ranges = [],
      shm_object = None, shm_rmid = False, mapping_flags = flags,
      shmid_ds = shm_info_new now key sz flags pid\<rparr>"

definition shm_try_update ::
    "'o shm_segment \<Rightarrow> usize \<Rightarrow> nat \<Rightarrow> pid \<Rightarrow> (int \<times> 'o shm_segment) linux_result" where
  "shm_try_update s sz flags pid =
     (if sz \<noteq> shm_segsz (shmid_ds s) \<or> flags \<noteq> perm_mode (shm_perm (shmid_ds s)) then Inl EINVAL
      else Inr (shmid s, s\<lparr>shmid_ds := (shmid_ds s)\<lparr>shm_lpid := pid\<rparr>\<rparr>))"

definition set_object :: "'o \<Rightarrow> 'o shm_segment \<Rightarrow> 'o shm_segment" where
  "set_object obj s = s\<lparr>shm_object := Some obj\<rparr>"

definition attach_count :: "'o shm_segment \<Rightarrow> usize" where
  "attach_count s = length (va_ranges s)"

definition get_addr_range :: "'o shm_segment \<Rightarrow> pid \<Rightarrow> va_range option" where
  "get_addr_range s pid = map_of (va_ranges s) pid"

definition is_attached :: "'o shm_segment \<Rightarrow> pid \<Rightarrow> bool" where
  "is_attached s pid \<longleftrightarrow> map_of (va_ranges s) pid \<noteq> None"

definition attach_process ::
    "int \<Rightarrow> 'o shm_segment \<Rightarrow> pid \<Rightarrow> va_range \<Rightarrow> 'o shm_segment linux_result" where
  "attach_process now s pid r =
     (if is_attached s pid then Inl EINVAL
      else Inr (s\<lparr>va_ranges := bt_insert pid r (va_ranges s),
                  shmid_ds := update_attach_time now pid (shmid_ds s)\<rparr>))"

definition detach_process :: "int \<Rightarrow> 'o shm_segment \<Rightarrow> pid \<Rightarrow> 'o shm_segment linux_result" where
  "detach_process now s pid =
     (if \<not> is_attached s pid then Inl EINVAL
      else Inr (s\<lparr>va_ranges := bt_remove pid (va_ranges s),
                  shmid_ds := update_detach_time now pid (shmid_ds s)\<rparr>))"

definition should_remove :: "'o shm_segment \<Rightarrow> bool" where
  "should_remove s \<longleftrightarrow> shm_rmid s \<and> attach_count s = 0"

section \<open>The segment manager\<close>

record 'o shm_manager =
  shm_index :: "(int \<times> int) list"
  segments :: "(int \<times> 'o shm_segment) list"
  pid_shmid_vaddr :: "(pid \<times> (int, usize) bibtree) list"
  shm_next_id :: int

definition shm_manager_new :: "'o shm_manager" where
  "shm_manager_new = \<lparr>shm_index = [], segments = [], pid_shmid_vaddr = [], shm_next_id = 0\<rparr>"

definition get_shmid_by_key :: "'o shm_manager \<Rightarrow> int \<Rightarrow> int option" where
  "get_shmid_by_key m key = map_of (shm_index m) key"

definition get_segment_by_shmid :: "'o shm_manager \<Rightarrow> int \<Rightarrow> 'o shm_segment option" where
  "get_segment_by_shmid m i = map_of (segments m) i"

definition get_shmid_by_vaddr :: "'o shm_manager \<Rightarrow> pid \<Rightarrow> usize \<Rightarrow> int option" where
  "get_shmid_by_vaddr m pid vaddr =
     Option.bind (map_of (pid_shmid_vaddr m) pid) (\<lambda>b. get_by_value b vaddr)"

definition find_vaddr_by_shmid :: "'o shm_manager \<Rightarrow> pid \<Rightarrow> int \<Rightarrow> usize option" where
  "find_vaddr_by_shmid m pid i =
     Option.bind (map_of (pid_shmid_vaddr m) pid) (\<lambda>b. get_by_key b i)"

definition insert_key_shmid :: "int \<Rightarrow> int \<Rightarrow> 'o shm_manager \<Rightarrow> 'o shm_manager" where
  "insert_key_shmid key i m = m\<lparr>shm_index := bt_insert key i (shm_index m)\<rparr>"

text \<open>Also the write-back of a segment reached through its \<open>Arc\<close>.\<close>

definition insert_shmid_segment :: "int \<Rightarrow> 'o shm_segment \<Rightarrow> 'o shm_manager \<Rightarrow> 'o shm_manager" where
  "insert_shmid_segment i s m = m\<lparr>segments := bt_insert i s (segments m)\<rparr>"

definition insert_shmid_vaddr :: "pid \<Rightarrow> int \<Rightarrow> usize \<Rightarrow> 'o shm_manager \<Rightarrow> 'o shm_manager" where
  "insert_shmid_vaddr pid i vaddr m =
     (let b = (case map_of (pid_shmid_vaddr m) pid of None \<Rightarrow> bi_new | Some b \<Rightarrow> b)
      in m\<lparr>pid_shmid_vaddr := bt_insert pid (bi_insert i vaddr b) (pid_shmid_vaddr m)\<rparr>)"

text \<open>\<open>inherit_process\<close>: collecting the parent's attachments, then attaching the child to each segment,
  undoing the attachments made so far when one fails. \<open>reserve\<close> tells whether the list of attachments
  can be allocated.\<close>

fun collect_attachments ::
    "'o shm_manager \<Rightarrow> pid \<Rightarrow> pid \<Rightarrow> (int \<times> usize) list \<Rightarrow> (int \<times> usize \<times> va_range) list linux_result"
  where
  "collect_attachments m parent child [] = Inr []"
| "collect_attachments m parent child ((i, vaddr) # rest) =
     rbind (ok_or (get_segment_by_shmid m i) EINVAL) (\<lambda>s.
       if is_attached s child then Inl EINVAL
       else rbind (ok_or (get_addr_range s parent) EINVAL) (\<lambda>r.
         rbind (collect_attachments m parent child rest) (\<lambda>as. Inr ((i, vaddr, r) # as))))"

definition detach_one :: "int \<Rightarrow> pid \<Rightarrow> int \<Rightarrow> 'o shm_manager \<Rightarrow> 'o shm_manager" where
  "detach_one now pid i m =
     (case get_segment_by_shmid m i of
        None \<Rightarrow> m
      | Some s \<Rightarrow> (case detach_process now s pid of Inl _ \<Rightarrow> m | Inr s' \<Rightarrow> insert_shmid_segment i s' m))"

fun attach_all ::
    "int \<Rightarrow> pid \<Rightarrow> (int \<times> usize \<times> va_range) list \<Rightarrow> int list \<Rightarrow> 'o shm_manager \<Rightarrow>
     'o shm_manager \<times> linux_error option" where
  "attach_all now child [] attached m = (m, None)"
| "attach_all now child ((i, vaddr, r) # rest) attached m =
     (case get_segment_by_shmid m i of
        None \<Rightarrow> (m, Some EINVAL)
      | Some s \<Rightarrow>
          (case attach_process now s child r of
             Inl e \<Rightarrow> (fold (detach_one now child) attached m, Some e)
           | Inr s' \<Rightarrow> attach_all now child rest (i # attached) (insert_shmid_segment i s' m)))"

definition inherit_process ::
    "int \<Rightarrow> bool \<Rightarrow> 'o shm_manager \<Rightarrow> pid \<Rightarrow> pid \<Rightarrow> 'o shm_manager \<times> unit linux_result" where
  "inherit_process now reserve m parent child =
     (if map_of (pid_shmid_vaddr m) child \<noteq> None then (m, Inl EINVAL)
      else case map_of (pid_shmid_vaddr m) parent of
          None \<Rightarrow> (m, Inr ())
        | Some parent_mappings \<Rightarrow>
            if \<not> reserve then (m, Inl ENOMEM)
            else (case collect_attachments m parent child (forward parent_mappings) of
               Inl e \<Rightarrow> (m, Inl e)
             | Inr attachments \<Rightarrow>
                 (case attach_all now child attachments [] m of
                    (m', Some e) \<Rightarrow> (m', Inl e)
                  | (m', None) \<Rightarrow>
                      let child_mappings = fold (\<lambda>(i, vaddr, _). bi_insert i vaddr) attachments bi_new
                      in (m'\<lparr>pid_shmid_vaddr := bt_insert child child_mappings (pid_shmid_vaddr m')\<rparr>,
                          Inr ()))))"

definition remove_shmaddr :: "'o shm_manager \<Rightarrow> pid \<Rightarrow> usize \<Rightarrow> 'o shm_manager" where
  "remove_shmaddr m pid shmaddr =
     (case map_of (pid_shmid_vaddr m) pid of
        None \<Rightarrow> m
      | Some b \<Rightarrow>
          let b' = fst (remove_by_value b shmaddr)
          in if forward b' = [] then m\<lparr>pid_shmid_vaddr := bt_remove pid (pid_shmid_vaddr m)\<rparr>
             else m\<lparr>pid_shmid_vaddr := bt_insert pid b' (pid_shmid_vaddr m)\<rparr>)"

definition remove_shmid :: "'o shm_manager \<Rightarrow> int \<Rightarrow> 'o shm_manager \<times> bool" where
  "remove_shmid m i =
     (case map_of (segments m) i of
        Some s \<Rightarrow> (m\<lparr>shm_index := bt_remove (perm_key (shm_perm (shmid_ds s))) (shm_index m),
                     segments := bt_remove i (segments m)\<rparr>, True)
      | None \<Rightarrow> (m\<lparr>segments := bt_remove i (segments m)\<rparr>, False))"

definition cleanup_orphaned_segments :: "'o shm_manager \<Rightarrow> 'o shm_manager" where
  "cleanup_orphaned_segments m =
     fold (\<lambda>i m. fst (remove_shmid m i)) (map fst (filter (\<lambda>(_, s). should_remove s) (segments m))) m"

definition shm_detach_process :: "int \<Rightarrow> 'o shm_manager \<Rightarrow> pid \<Rightarrow> 'o shm_manager" where
  "shm_detach_process now m pid =
     cleanup_orphaned_segments
       (case map_of (pid_shmid_vaddr m) pid of
          None \<Rightarrow> m
        | Some mappings \<Rightarrow>
            fold (detach_one now pid) (map fst (forward mappings))
              (m\<lparr>pid_shmid_vaddr := bt_remove pid (pid_shmid_vaddr m)\<rparr>))"

definition segment_count :: "'o shm_manager \<Rightarrow> usize" where
  "segment_count m = length (segments m)"

definition total_pages :: "'o shm_manager \<Rightarrow> usize" where
  "total_pages m = fold (\<lambda>(_, s) total. usize_add total (page_num s)) (segments m) 0"

definition validate_segment_params :: "addr_ops \<Rightarrow> 'o shm_manager \<Rightarrow> usize \<Rightarrow> unit linux_result" where
  "validate_segment_params A m sz =
     (if \<not> (SHMMIN \<le> sz \<and> sz \<le> SHMMAX) then Inl EINVAL
      else if usize_add (total_pages m) (align_up A sz PAGE_SIZE_4K div PAGE_SIZE_4K) > SHMALL then Inl ENOSPC
      else if segment_count m \<ge> SHMMNI then Inl ENOSPC
      else Inr ())"

definition shm_clear_one :: "int \<Rightarrow> 'o shm_manager \<Rightarrow> 'o shm_manager" where
  "shm_clear_one i m = fst (remove_shmid
     (case map_of (segments m) i of
        None \<Rightarrow> m
      | Some s \<Rightarrow> insert_shmid_segment i
          (s\<lparr>shm_rmid := True, va_ranges := [], shmid_ds := (shmid_ds s)\<lparr>shm_nattch := 0\<rparr>\<rparr>) m) i)"

definition shm_clear :: "'o shm_manager \<Rightarrow> 'o shm_manager" where
  "shm_clear m =
     (let m' = fold shm_clear_one (map fst (segments m)) m
      in m'\<lparr>shm_index := [], segments := [], pid_shmid_vaddr := []\<rparr>)"

section \<open>System calls\<close>

definition convert_shm_flags_to_mapping :: "usize \<Rightarrow> nat" where
  "convert_shm_flags_to_mapping shmflg =
     8 OR (if (shmflg mod 2 ^ 32) AND 256 \<noteq> 0 then 1 else 0) OR
       (if (shmflg mod 2 ^ 32) AND 128 \<noteq> 0 then 2 else 0)"

definition sys_shmget ::
    "addr_ops \<Rightarrow> int \<Rightarrow> 'o shm_manager \<Rightarrow> pid \<Rightarrow> int \<Rightarrow> usize \<Rightarrow> usize \<Rightarrow>
     (int \<times> 'o shm_manager) linux_result" where
  "sys_shmget A now m cur_pid key sz shmflg =
     (if align_up A sz PAGE_SIZE_4K div PAGE_SIZE_4K = 0 then Inl EINVAL
      else let flags = convert_shm_flags_to_mapping shmflg in
        rbind (validate_segment_params A m sz) (\<lambda>_.
          case (if key \<noteq> IPC_PRIVATE then get_shmid_by_key m key else None) of
            Some i \<Rightarrow>
              rbind (ok_or (get_segment_by_shmid m i) EINVAL) (\<lambda>s.
                rbind (shm_try_update s sz flags cur_pid) (\<lambda>(r, s').
                  Inr (r, insert_shmid_segment i s' m)))
          | None \<Rightarrow>
              let (i, next) = ipcid_alloc (shm_next_id m);
                  s = shm_segment_new A now key i sz flags cur_pid
              in Inr (i, insert_shmid_segment i s (insert_key_shmid key i (m\<lparr>shm_next_id := next\<rparr>)))))"

text \<open>\<open>sys_shmat\<close>: \<open>find_addr\<close> is the outcome of \<open>find_mapping_address\<close> for the length, \<open>map_seg\<close> that of
  \<open>map_segment\<close>: the backing object of the segment, new or old.\<close>

definition sys_shmat ::
    "addr_ops \<Rightarrow> int \<Rightarrow> (usize \<Rightarrow> usize linux_result) \<Rightarrow> (va_range \<Rightarrow> nat \<Rightarrow> 'o linux_result) \<Rightarrow>
     'o shm_manager \<Rightarrow> pid \<Rightarrow> int \<Rightarrow> nat \<Rightarrow> (int \<times> 'o shm_manager) linux_result" where
  "sys_shmat A now find_addr map_seg m cur_pid i shmflg =
     rbind (ok_or (get_segment_by_shmid m i) EINVAL) (\<lambda>s.
       let flags = (if has_flag shmflg SHM_RDONLY then nat (int (mapping_flags s) AND NOT 2)
                    else mapping_flags s);
           len = (page_num s * PAGE_SIZE_4K) mod usize_bound
       in if is_attached s cur_pid then Inl EINVAL
          else rbind (find_addr len) (\<lambda>start.
            let r = from_start_size A start len in
            rbind (map_seg r flags) (\<lambda>obj.
              let s1 = (if shm_object s = None then set_object obj s else s) in
              rbind (attach_process now s1 cur_pid r) (\<lambda>s2.
                Inr (int start,
                  insert_shmid_vaddr cur_pid (shmid s2) start (insert_shmid_segment i s2 m))))))"

text \<open>\<open>buf\<close> is the user pointer; \<open>rd\<close> and \<open>wr\<close> are the outcomes of reading and writing a \<open>ShmInfo\<close> there.\<close>

definition sys_shmctl ::
    "int \<Rightarrow> shm_info linux_result \<Rightarrow> unit linux_result \<Rightarrow> 'o shm_manager \<Rightarrow> int \<Rightarrow> nat \<Rightarrow> usize \<Rightarrow>
     (int \<times> 'o shm_manager) linux_result" where
  "sys_shmctl now rd wr m i cmd buf =
     rbind (ok_or (get_segment_by_shmid m i) EINVAL) (\<lambda>s.
       if cmd = IPC_SET then
         (if buf \<noteq> 0
          then rbind rd (\<lambda>d. Inr (0, insert_shmid_segment i (s\<lparr>shmid_ds := update_change_time now d\<rparr>) m))
          else Inr (0, m))
       else if cmd = IPC_STAT then
         (if buf \<noteq> 0 then rbind wr (\<lambda>_. Inr (0, m)) else Inr (0, m))
       else if cmd = IPC_RMID then
         Inr (0, insert_shmid_segment i
           (s\<lparr>shm_rmid := True, shmid_ds := update_change_time now (shmid_ds s)\<rparr>) m)
       else Inl EINVAL)"

text \<open>\<open>sys_shmdt\<close>: \<open>unmap\<close> is the outcome of unmapping the range in the address space.\<close>

definition sys_shmdt ::
    "int \<Rightarrow> (va_range \<Rightarrow> unit linux_result) \<Rightarrow> 'o shm_manager \<Rightarrow> pid \<Rightarrow> usize \<Rightarrow>
     (int \<times> 'o shm_manager) linux_result" where
  "sys_shmdt now unmap m pid shmaddr =
     rbind (ok_or (get_shmid_by_vaddr m pid shmaddr) EINVAL) (\<lambda>i.
       rbind (ok_or (get_segment_by_shmid m i) EINVAL) (\<lambda>s.
         rbind (ok_or (get_addr_range s pid) EINVAL) (\<lambda>r.
           rbind (unmap r) (\<lambda>_.
             let m1 = remove_shmaddr m pid shmaddr in
             case detach_process now s pid of
               Inl _ \<Rightarrow> Inl EINVAL
             | Inr s' \<Rightarrow>
                 let m2 = insert_shmid_segment i s' m1
                 in Inr (0, if should_remove s' then fst (remove_shmid m2 i) else m2)))))"

section \<open>Consistency of the two views\<close>

text \<open>Where, if anywhere, a process attaches a segment, as the segments record it.\<close>

definition attachment :: "'o shm_manager \<Rightarrow> int \<Rightarrow> pid \<Rightarrow> va_range option" where
  "attachment m i pid = Option.bind (get_segment_by_shmid m i) (\<lambda>s. get_addr_range s pid)"

definition seg_ok :: "'o shm_segment \<Rightarrow> bool" where
  "seg_ok s \<longleftrightarrow> bt_inv (va_ranges s)"

text \<open>The per-process maps are bijections and say exactly what the segments say.\<close>

definition shm_inv :: "'o shm_manager \<Rightarrow> bool" where
  "shm_inv m \<longleftrightarrow> bt_inv (segments m) \<and> bt_inv (pid_shmid_vaddr m) \<and> bt_all seg_ok (segments m) \<and>
     bt_all bi_inv (pid_shmid_vaddr m) \<and>
     (\<forall>i s. get_segment_by_shmid m i = Some s \<longrightarrow> shmid s = i) \<and>
     (\<forall>pid i. find_vaddr_by_shmid m pid i = map_option va_start (attachment m i pid))"

lemma shm_inv_bt: "shm_inv m \<Longrightarrow> bt_inv (segments m)" "shm_inv m \<Longrightarrow> bt_inv (pid_shmid_vaddr m)"
  "shm_inv m \<Longrightarrow> bt_all seg_ok (segments m)" "shm_inv m \<Longrightarrow> bt_all bi_inv (pid_shmid_vaddr m)"
  by (simp_all add: shm_inv_def)

lemma shm_inv_view:
  "shm_inv m \<Longrightarrow> find_vaddr_by_shmid m pid i = map_option va_start (attachment m i pid)"
  by (simp add: shm_inv_def)

lemma shm_inv_id: "shm_inv m \<Longrightarrow> get_segment_by_shmid m i = Some s \<Longrightarrow> shmid s = i"
  by (simp add: shm_inv_def)

lemma get_segment_insert [simp]:
  "get_segment_by_shmid (insert_shmid_segment i s m) = (get_segment_by_shmid m)(i \<mapsto> s)"
  by (simp add: get_segment_by_shmid_def insert_shmid_segment_def bt_simps fun_eq_iff)

lemma insert_segment_fields [simp]:
  "pid_shmid_vaddr (insert_shmid_segment i s m) = pid_shmid_vaddr m"
  "shm_index (insert_shmid_segment i s m) = shm_index m"
  "segments (insert_shmid_segment i s m) = bt_insert i s (segments m)"
  by (simp_all add: insert_shmid_segment_def)

lemma seg_ok_get: "bt_all seg_ok (segments m) \<Longrightarrow> get_segment_by_shmid m i = Some s \<Longrightarrow> seg_ok s"
  by (auto simp: get_segment_by_shmid_def dest: bt_all_get)

text \<open>Detaching one process from one segment, ignoring an error.\<close>

definition det :: "int \<Rightarrow> pid \<Rightarrow> 'o shm_segment \<Rightarrow> 'o shm_segment" where
  "det now pid s = (case detach_process now s pid of Inl _ \<Rightarrow> s | Inr s' \<Rightarrow> s')"

lemma det_simps:
  "seg_ok s \<Longrightarrow> get_addr_range (det now pid s) p = (if p = pid then None else get_addr_range s p)"
  "seg_ok s \<Longrightarrow> seg_ok (det now pid s)" "shm_rmid (det now pid s) = shm_rmid s"
  "shmid (det now pid s) = shmid s"
  "seg_ok s \<Longrightarrow> det now pid (det now pid s) = det now pid s"
  by (auto simp: det_def detach_process_def get_addr_range_def is_attached_def seg_ok_def bt_simps)

lemma detach_one_get:
  "get_segment_by_shmid (detach_one now pid i m) j =
     (if j = i then map_option (det now pid) (get_segment_by_shmid m j) else get_segment_by_shmid m j)"
  by (auto simp: detach_one_def det_def split: option.splits sum.splits)

lemma detach_one_keeps:
  "bt_inv (segments m) \<Longrightarrow> bt_inv (segments (detach_one now pid i m))"
  "bt_all seg_ok (segments m) \<Longrightarrow> bt_all seg_ok (segments (detach_one now pid i m))"
  "pid_shmid_vaddr (detach_one now pid i m) = pid_shmid_vaddr m"
  using seg_ok_get [of m i]
  by (auto simp: detach_one_def detach_process_def seg_ok_def [abs_def] split: option.splits)

lemma det_twice:
  "bt_all seg_ok (segments m) \<Longrightarrow> map_option (det now pid) (map_option (det now pid) (get_segment_by_shmid m j))
     = map_option (det now pid) (get_segment_by_shmid m j)"
  by (cases "get_segment_by_shmid m j") (auto simp: det_simps dest: seg_ok_get)

lemma fold_detach_get:
  "bt_all seg_ok (segments m) \<Longrightarrow> get_segment_by_shmid (fold (detach_one now pid) is m) j =
     (if j \<in> set is then map_option (det now pid) (get_segment_by_shmid m j) else get_segment_by_shmid m j)"
  by (induction "is" arbitrary: m) (auto simp: detach_one_get detach_one_keeps det_twice)

lemma fold_detach_keeps:
  "pid_shmid_vaddr (fold (detach_one now pid) is m) = pid_shmid_vaddr m"
  "bt_all seg_ok (segments m) \<Longrightarrow> bt_all seg_ok (segments (fold (detach_one now pid) is m))"
  "bt_inv (segments m) \<Longrightarrow> bt_inv (segments (fold (detach_one now pid) is m))"
  by (induction "is" arbitrary: m) (simp_all add: detach_one_keeps)

lemma remove_shmid_get:
  "bt_inv (segments m) \<Longrightarrow> get_segment_by_shmid (fst (remove_shmid m i)) j =
     (if j = i then None else get_segment_by_shmid m j)"
  by (auto simp: remove_shmid_def get_segment_by_shmid_def bt_simps split: option.splits)

lemma remove_shmid_keeps:
  "bt_inv (segments m) \<Longrightarrow> bt_inv (segments (fst (remove_shmid m i)))"
  "bt_all seg_ok (segments m) \<Longrightarrow> bt_all seg_ok (segments (fst (remove_shmid m i)))"
  "pid_shmid_vaddr (fst (remove_shmid m i)) = pid_shmid_vaddr m"
  by (auto simp: remove_shmid_def split: option.splits)

lemma fold_remove:
  assumes "bt_inv (segments m)" "bt_all seg_ok (segments m)"
  defines "f \<equiv> \<lambda>i m. fst (remove_shmid m i)"
  shows "get_segment_by_shmid (fold f is m) j = (if j \<in> set is then None else get_segment_by_shmid m j)"
    and "pid_shmid_vaddr (fold f is m) = pid_shmid_vaddr m"
    and "bt_inv (segments (fold f is m))" and "bt_all seg_ok (segments (fold f is m))"
  using assms(1,2)
  by (induction "is" arbitrary: m) (auto simp: f_def remove_shmid_get remove_shmid_keeps)

lemma cleanup_get:
  assumes "bt_inv (segments m)" "bt_all seg_ok (segments m)"
  shows "get_segment_by_shmid (cleanup_orphaned_segments m) j =
    (case get_segment_by_shmid m j of None \<Rightarrow> None | Some s \<Rightarrow> if should_remove s then None else Some s)"
proof -
  have "j \<in> set (map fst (filter (\<lambda>(_, s). should_remove s) (segments m))) \<longleftrightarrow>
      (\<exists>s. get_segment_by_shmid m j = Some s \<and> should_remove s)"
    by (force simp: get_segment_by_shmid_def bt_inv_map_of_mem [OF assms(1), symmetric])
  then show ?thesis
    unfolding cleanup_orphaned_segments_def fold_remove(1) [OF assms] by (auto split: option.splits)
qed

lemma cleanup_keeps:
  assumes "bt_inv (segments m)" "bt_all seg_ok (segments m)"
  shows "pid_shmid_vaddr (cleanup_orphaned_segments m) = pid_shmid_vaddr m"
    "bt_inv (segments (cleanup_orphaned_segments m))" "bt_all seg_ok (segments (cleanup_orphaned_segments m))"
  unfolding cleanup_orphaned_segments_def using fold_remove(2-4) [OF assms] by simp_all

section \<open>Process exit\<close>

lemma attachment_None:
  assumes "shm_inv m"
    "\<And>b. map_of (pid_shmid_vaddr m) pid = Some b \<Longrightarrow> i \<notin> fst ` set (forward b)"
  shows "attachment m i pid = None"
proof -
  have "find_vaddr_by_shmid m pid i = None"
    using assms(2) by (auto simp: find_vaddr_by_shmid_def get_by_key_def map_of_eq_None_iff
        split: Option.bind_splits)
  then show ?thesis using shm_inv_view [OF assms(1), of pid i] by simp
qed

text \<open>The segments after the detach loop of an exiting process, before the clean-up: the process is
  detached from every segment.\<close>

lemma exit_detached:
  assumes inv: "shm_inv m"
    and m1_def: "m1 = (case map_of (pid_shmid_vaddr m) pid of None \<Rightarrow> m | Some b \<Rightarrow>
      fold (detach_one now pid) (map fst (forward b)) (m\<lparr>pid_shmid_vaddr := bt_remove pid (pid_shmid_vaddr m)\<rparr>))"
  shows "bt_inv (segments m1)" "bt_all seg_ok (segments m1)"
    and "pid_shmid_vaddr m1 = bt_remove pid (pid_shmid_vaddr m)"
    and "get_segment_by_shmid m1 j = None \<longleftrightarrow> get_segment_by_shmid m j = None"
    and "attachment m1 j p = (if p = pid then None else attachment m j p)"
    and "get_segment_by_shmid m j = Some s \<Longrightarrow> get_segment_by_shmid m1 j = Some s1 \<Longrightarrow>
      shm_rmid s1 = shm_rmid s \<and> shmid s1 = shmid s"
proof -
  note bt = shm_inv_bt [OF inv]
  let ?m = "m\<lparr>pid_shmid_vaddr := bt_remove pid (pid_shmid_vaddr m)\<rparr>"
  have gm: "get_segment_by_shmid ?m = get_segment_by_shmid m"
    by (simp add: fun_eq_iff get_segment_by_shmid_def)
  have noop: "bt_remove pid (pid_shmid_vaddr m) = pid_shmid_vaddr m" if "map_of (pid_shmid_vaddr m) pid = None"
    using that by (simp add: bt_remove_notin map_of_eq_None_iff)
  show "bt_inv (segments m1)" "bt_all seg_ok (segments m1)"
    "pid_shmid_vaddr m1 = bt_remove pid (pid_shmid_vaddr m)"
    using bt noop by (auto simp: m1_def fold_detach_keeps split: option.splits)
  have get: "get_segment_by_shmid m1 j = (case map_of (pid_shmid_vaddr m) pid of
      None \<Rightarrow> get_segment_by_shmid m j
    | Some b \<Rightarrow> if j \<in> fst ` set (forward b) then map_option (det now pid) (get_segment_by_shmid m j)
        else get_segment_by_shmid m j)" for j
    using bt by (simp add: m1_def fold_detach_get gm split: option.split)
  show "get_segment_by_shmid m1 j = None \<longleftrightarrow> get_segment_by_shmid m j = None"
    by (simp add: get split: option.split)
  show "get_segment_by_shmid m j = Some s \<Longrightarrow> get_segment_by_shmid m1 j = Some s1 \<Longrightarrow>
      shm_rmid s1 = shm_rmid s \<and> shmid s1 = shmid s"
    by (auto simp: get det_simps split: option.splits if_splits)
  show "attachment m1 j p = (if p = pid then None else attachment m j p)"
  proof (cases "get_segment_by_shmid m j")
    case None
    then show ?thesis by (simp add: attachment_def get split: option.split)
  next
    case (Some s)
    then have ok: "seg_ok s" using seg_ok_get [OF bt(3)] by blast
    show ?thesis
    proof (cases "\<exists>b. map_of (pid_shmid_vaddr m) pid = Some b \<and> j \<in> fst ` set (forward b)")
      case True
      then obtain b where "map_of (pid_shmid_vaddr m) pid = Some b" "j \<in> fst ` set (forward b)" by blast
      then have "get_segment_by_shmid m1 j = Some (det now pid s)" using Some by (simp add: get)
      then show ?thesis using Some ok by (simp add: attachment_def det_simps)
    next
      case False
      then have "attachment m j pid = None" by (intro attachment_None [OF inv]) auto
      with False Some show ?thesis by (auto simp: attachment_def get split: option.split)
    qed
  qed
qed

text \<open>C14: when a process exits it is detached from every segment, no other process's attachment changes,
  and exactly the segments that are marked for removal and now unattached are gone; the manager's two
  views of the attachments stay consistent.\<close>

theorem shm_exit_detaches:
  assumes "shm_inv m"
  shows "let m' = shm_detach_process now m pid in shm_inv m' \<and>
    (\<forall>i p. attachment m' i p = (if p = pid then None else attachment m i p)) \<and>
    (\<forall>i s. get_segment_by_shmid m i = Some s \<longrightarrow>
       (get_segment_by_shmid m' i = None \<longleftrightarrow> shm_rmid s \<and> (\<forall>p. p \<noteq> pid \<longrightarrow> attachment m i p = None)))"
proof -
  define m1 where "m1 = (case map_of (pid_shmid_vaddr m) pid of None \<Rightarrow> m | Some b \<Rightarrow>
      fold (detach_one now pid) (map fst (forward b)) (m\<lparr>pid_shmid_vaddr := bt_remove pid (pid_shmid_vaddr m)\<rparr>))"
  note d = exit_detached [OF assms m1_def]
  have m': "shm_detach_process now m pid = cleanup_orphaned_segments m1"
    by (simp add: shm_detach_process_def m1_def)
  have empty: "attach_count s = 0 \<longleftrightarrow> (\<forall>p. get_addr_range s p = None)" for s :: "'a shm_segment"
    by (cases "va_ranges s") (auto simp: attach_count_def get_addr_range_def split: if_splits)
  have unattached: "should_remove s1 \<longleftrightarrow> shm_rmid s1 \<and> (\<forall>p. attachment m1 i p = None)"
    if "get_segment_by_shmid m1 i = Some s1" for i s1
    using that by (simp add: should_remove_def empty attachment_def)
  have get': "get_segment_by_shmid (cleanup_orphaned_segments m1) i =
      (case get_segment_by_shmid m1 i of None \<Rightarrow> None | Some s \<Rightarrow> if should_remove s then None else Some s)" for i
    by (rule cleanup_get [OF d(1,2)])
  have att: "attachment (cleanup_orphaned_segments m1) i p = (if p = pid then None else attachment m i p)" for i p
  proof -
    have "attachment (cleanup_orphaned_segments m1) i p = attachment m1 i p"
      using unattached [of i] by (cases "get_segment_by_shmid m1 i") (auto simp: attachment_def get')
    then show ?thesis by (simp add: d(5))
  qed
  have inv: "shm_inv (cleanup_orphaned_segments m1)"
  proof -
    have "find_vaddr_by_shmid (cleanup_orphaned_segments m1) p i
        = map_option va_start (attachment (cleanup_orphaned_segments m1) i p)" for p i
      using shm_inv_view [OF assms, of p i] shm_inv_bt(2) [OF assms]
      by (simp add: att find_vaddr_by_shmid_def cleanup_keeps(1) [OF d(1,2)] d(3) bt_simps)
    moreover have "shmid s' = i" if s': "get_segment_by_shmid (cleanup_orphaned_segments m1) i = Some s'" for i s'
    proof -
      have s1: "get_segment_by_shmid m1 i = Some s'" using s' by (auto simp: get' split: option.splits if_splits)
      then obtain s where s: "get_segment_by_shmid m i = Some s" using d(4) [of i] by auto
      then show ?thesis using d(6) [OF s s1] shm_inv_id [OF assms s] by simp
    qed
    ultimately show ?thesis
      using cleanup_keeps [OF d(1,2)] d(3) shm_inv_bt [OF assms] by (simp add: shm_inv_def)
  qed
  have "get_segment_by_shmid (cleanup_orphaned_segments m1) i = None \<longleftrightarrow>
      shm_rmid s \<and> (\<forall>p. p \<noteq> pid \<longrightarrow> attachment m i p = None)" if s: "get_segment_by_shmid m i = Some s" for i s
  proof -
    obtain s1 where s1: "get_segment_by_shmid m1 i = Some s1" using d(4) [of i] s by auto
    then show ?thesis
      using unattached [OF s1] d(6) [OF s s1] by (auto simp: get' d(5))
  qed
  then show ?thesis using inv att by (simp add: m' Let_def)
qed

section \<open>Attaching and detaching\<close>

lemma find_vaddr_insert:
  assumes "bt_all bi_inv (pid_shmid_vaddr m)"
  shows "find_vaddr_by_shmid (insert_shmid_vaddr pid i v m) p j =
    (if p \<noteq> pid then find_vaddr_by_shmid m p j
     else if j = i then Some v
     else if find_vaddr_by_shmid m pid j = Some v then None else find_vaddr_by_shmid m pid j)"
proof (cases "map_of (pid_shmid_vaddr m) pid")
  case None
  then show ?thesis
    by (simp add: find_vaddr_by_shmid_def insert_shmid_vaddr_def bt_simps bi.lookup_insert [OF bi.inv_empty]
        bi.empty_lookup)
next
  case (Some b)
  then have "bi_inv b" using bt_all_get [OF assms] by blast
  with Some show ?thesis
    by (simp add: find_vaddr_by_shmid_def insert_shmid_vaddr_def bt_simps bi.lookup_insert)
qed

lemma insert_vaddr_fields [simp]:
  "get_segment_by_shmid (insert_shmid_vaddr pid i v m) = get_segment_by_shmid m"
  "segments (insert_shmid_vaddr pid i v m) = segments m"
  "attachment (insert_shmid_vaddr pid i v m) = attachment m"
  by (simp_all add: fun_eq_iff get_segment_by_shmid_def attachment_def insert_shmid_vaddr_def Let_def)

lemma insert_vaddr_bt:
  "bt_inv (pid_shmid_vaddr m) \<Longrightarrow> bt_inv (pid_shmid_vaddr (insert_shmid_vaddr pid i v m))"
  by (simp add: insert_shmid_vaddr_def Let_def)

lemma insert_vaddr_bi:
  assumes "bt_all bi_inv (pid_shmid_vaddr m)"
  shows "bt_all bi_inv (pid_shmid_vaddr (insert_shmid_vaddr pid i v m))"
proof -
  have "bi_inv (case map_of (pid_shmid_vaddr m) pid of None \<Rightarrow> bi_new | Some b \<Rightarrow> b)"
    using bt_all_get [OF assms] bi.inv_empty by (auto split: option.split)
  then show ?thesis using assms by (simp add: insert_shmid_vaddr_def Let_def bi.inv_insert)
qed

lemma vaddr_unused:
  assumes "bt_all bi_inv (pid_shmid_vaddr m)" "get_shmid_by_vaddr m pid v = None"
  shows "find_vaddr_by_shmid m pid j \<noteq> Some v"
proof (cases "map_of (pid_shmid_vaddr m) pid")
  case (Some b)
  then have "bi_inv b" using bt_all_get [OF assms(1)] by blast
  with Some assms(2) show ?thesis
    using bi.inverse [of b j v] by (simp add: find_vaddr_by_shmid_def get_shmid_by_vaddr_def)
qed (simp add: find_vaddr_by_shmid_def)

text \<open>Attaching process \<open>pid\<close> to segment \<open>i\<close> at an address it does not use yet keeps the two views
  consistent.\<close>

lemma attach_inv:
  assumes inv: "shm_inv m" and s: "get_segment_by_shmid m i = Some s"
    and s2: "attach_process now (s\<lparr>shm_object := obj\<rparr>) pid r = Inr s2"
    and free: "get_shmid_by_vaddr m pid (va_start r) = None"
  defines "m' \<equiv> insert_shmid_vaddr pid i (va_start r) (insert_shmid_segment i s2 m)"
  shows "shm_inv m'" "attachment m' j p = (if j = i \<and> p = pid then Some r else attachment m j p)"
    "get_segment_by_shmid m' i = Some s2"
proof -
  note bt = shm_inv_bt [OF inv]
  have s2': "shmid s2 = i" "seg_ok s2"
    "get_addr_range s2 q = (if q = pid then Some r else get_addr_range s q)" for q
    using s2 shm_inv_id [OF inv s] seg_ok_get [OF bt(3) s]
    by (auto simp: attach_process_def seg_ok_def get_addr_range_def bt_simps split: if_splits)
  show get: "get_segment_by_shmid m' i = Some s2" by (simp add: m'_def)
  have att: "attachment m' j p = (if j = i \<and> p = pid then Some r else attachment m j p)" for j p
    using s s2' by (simp add: m'_def attachment_def)
  then show "attachment m' j p = (if j = i \<and> p = pid then Some r else attachment m j p)" .
  have fv: "find_vaddr_by_shmid (insert_shmid_segment i s2 m) = find_vaddr_by_shmid m"
    by (simp add: fun_eq_iff find_vaddr_by_shmid_def)
  have "find_vaddr_by_shmid m' p j = map_option va_start (attachment m' j p)" for p j
    using vaddr_unused [OF bt(4) free, of j] shm_inv_view [OF inv]
    unfolding att by (auto simp: m'_def find_vaddr_insert [of "insert_shmid_segment i s2 m"] bt fv)
  then show "shm_inv m'"
    using bt s2' shm_inv_id [OF inv] insert_vaddr_bi [of "insert_shmid_segment i s2 m"]
    by (simp add: shm_inv_def m'_def insert_vaddr_bt)
qed

lemma remove_shmaddr_find:
  assumes "shm_inv m" "get_shmid_by_vaddr m pid v = Some i"
  shows "find_vaddr_by_shmid (remove_shmaddr m pid v) p j =
    (if p = pid \<and> j = i then None else find_vaddr_by_shmid m p j)"
    and "bt_inv (pid_shmid_vaddr (remove_shmaddr m pid v))"
    and "bt_all bi_inv (pid_shmid_vaddr (remove_shmaddr m pid v))"
proof -
  note bt = shm_inv_bt [OF assms(1)]
  obtain b where b: "map_of (pid_shmid_vaddr m) pid = Some b" and iv: "get_by_value b v = Some i"
    using assms(2) by (auto simp: get_shmid_by_vaddr_def split: Option.bind_splits)
  have bi: "bi_inv b" using b bt_all_get [OF bt(4)] by blast
  let ?b = "fst (remove_by_value b v)"
  have lk: "get_by_key ?b = (\<lambda>x. if x = i then None else get_by_key b x)"
    using bi.lookup_del_value(1) [OF bi, of v] bi.inverse [OF bi] iv bi.key_unique [OF bi]
    by (auto simp: fun_eq_iff)
  have empty: "get_by_key ?b x = None" if "forward ?b = []" for x using that by (simp add: get_by_key_def)
  show "find_vaddr_by_shmid (remove_shmaddr m pid v) p j =
      (if p = pid \<and> j = i then None else find_vaddr_by_shmid m p j)"
  proof (cases "forward ?b = []")
    case True
    then have "get_by_key b x = None" if "x \<noteq> i" for x
      using empty [OF True, of x] lk that by simp
    then show ?thesis using b True bt by (simp add: remove_shmaddr_def find_vaddr_by_shmid_def bt_simps Let_def)
  next
    case False
    then show ?thesis using b bt lk
      by (simp add: remove_shmaddr_def find_vaddr_by_shmid_def bt_simps Let_def)
  qed
  show "bt_inv (pid_shmid_vaddr (remove_shmaddr m pid v))"
    "bt_all bi_inv (pid_shmid_vaddr (remove_shmaddr m pid v))"
    using b bt bi by (simp_all add: remove_shmaddr_def Let_def bi.inv_del_value)
qed

lemma remove_shmaddr_fields [simp]:
  "segments (remove_shmaddr m pid v) = segments m"
  "get_segment_by_shmid (remove_shmaddr m pid v) = get_segment_by_shmid m"
  by (simp_all add: fun_eq_iff get_segment_by_shmid_def remove_shmaddr_def Let_def split: option.split)

text \<open>C17: attaching a segment at an address the process does not use yet and detaching that address
  again are inverse. The attach succeeds whenever a range is found and mapped, registers exactly that
  attachment and keeps the manager consistent; the detach of the returned address then finds the
  segment and leaves the attachments as they were before.\<close>

theorem shmat_shmdt_roundtrip:
  assumes "memory_addr A" and "shm_inv m" and "get_segment_by_shmid m i = Some s"
    and "\<not> is_attached s pid" and "find_addr ((page_num s * PAGE_SIZE_4K) mod usize_bound) = Inr start"
    and "start + (page_num s * PAGE_SIZE_4K) mod usize_bound < usize_bound"
    and "\<And>r flags. map_seg r flags = Inr obj" and "\<And>r. unmap r = Inr ()"
    and "get_shmid_by_vaddr m pid start = None" and "\<not> shm_rmid s"
  shows "\<exists>m1 m2. sys_shmat A now find_addr map_seg m pid i flg = Inr (int start, m1) \<and> shm_inv m1 \<and>
    (\<exists>r. va_start r = start \<and>
       (\<forall>j p. attachment m1 j p = (if j = i \<and> p = pid then Some r else attachment m j p))) \<and>
    sys_shmdt now unmap m1 pid start = Inr (0, m2) \<and> shm_inv m2 \<and> attachment m2 = attachment m"
proof -
  let ?len = "(page_num s * PAGE_SIZE_4K) mod usize_bound"
  let ?r = "\<lparr>va_start = start, va_end = start + ?len\<rparr>"
  let ?o = "if shm_object s = None then Some obj else shm_object s"
  let ?s = "s\<lparr>shm_object := ?o\<rparr>"
  have r: "from_start_size A start ?len = ?r"
    using memory_addr.from_start_size [OF assms(1,6)] .
  have "\<not> is_attached ?s pid" using assms(4) by (simp add: is_attached_def)
  then obtain s2 where s2: "attach_process now ?s pid ?r = Inr s2" by (simp add: attach_process_def)
  define m1 where "m1 = insert_shmid_vaddr pid i (va_start ?r) (insert_shmid_segment i s2 m)"
  have "get_shmid_by_vaddr m pid (va_start ?r) = None" using assms(9) by simp
  note at = attach_inv [OF assms(2,3) s2 this, folded m1_def]
  have sid: "shmid s2 = i"
    using s2 shm_inv_id [OF assms(2,3)] by (auto simp: attach_process_def split: if_splits)
  have eq: "(if shm_object s = None then set_object obj s else s) = ?s"
    by (cases s) (auto simp: set_object_def)
  have run: "sys_shmat A now find_addr map_seg m pid i flg = Inr (int start, m1)"
    using assms(3,4,5,7) s2 sid r eq by (simp add: sys_shmat_def Let_def m1_def)
  have att1: "attachment m1 i pid = Some ?r" by (simp add: at)
  then have rng: "get_addr_range s2 pid = Some ?r" by (simp add: attachment_def at(3))
  have "find_vaddr_by_shmid m1 pid i = Some start" using shm_inv_view [OF at(1), of pid i] att1 by simp
  then have byv: "get_shmid_by_vaddr m1 pid start = Some i"
    using bi.inverse bt_all_get [OF shm_inv_bt(4) [OF at(1)], of pid]
    by (auto simp: find_vaddr_by_shmid_def get_shmid_by_vaddr_def split: Option.bind_splits)
  have att_s2: "is_attached s2 pid" using rng by (simp add: is_attached_def get_addr_range_def)
  then obtain s3 where s3: "detach_process now s2 pid = Inr s3" by (simp add: detach_process_def)
  have s3': "get_addr_range s3 q = get_addr_range s q" "\<not> shm_rmid s3" for q
    using s2 s3 assms(4,10) seg_ok_get [OF shm_inv_bt(3) [OF assms(2)] assms(3)]
    by (auto simp: attach_process_def detach_process_def get_addr_range_def is_attached_def bt_simps
        seg_ok_def split: if_splits)
  define m2 where "m2 = insert_shmid_segment i s3 (remove_shmaddr m1 pid start)"
  have dt: "sys_shmdt now unmap m1 pid start = Inr (0, m2)"
    using byv at(3) rng assms(8) s3 s3'(2) by (simp add: sys_shmdt_def Let_def m2_def should_remove_def)
  have "attachment m2 j p = attachment m j p" for j p
    using s3'(1) assms(3) at(2) [of j p] by (auto simp: m2_def attachment_def)
  then have restored: "attachment m2 = attachment m" by (simp add: fun_eq_iff)
  have free_i: "attachment m i pid = None"
    using assms(3,4) by (simp add: attachment_def is_attached_def get_addr_range_def)
  have "seg_ok s2" using seg_ok_get [OF shm_inv_bt(3) [OF at(1)] at(3)] .
  then have "seg_ok s3" "shmid s3 = i"
    using s3 sid by (auto simp: detach_process_def seg_ok_def split: if_splits)
  moreover have "find_vaddr_by_shmid m2 p j = find_vaddr_by_shmid (remove_shmaddr m1 pid start) p j" for p j
    by (simp add: m2_def find_vaddr_by_shmid_def)
  then have "find_vaddr_by_shmid m2 p j = map_option va_start (attachment m2 j p)" for p j
    unfolding restored remove_shmaddr_find(1) [OF at(1) byv] shm_inv_view [OF at(1)] at(2)
    using free_i by simp
  ultimately have "shm_inv m2"
    using shm_inv_bt [OF at(1)] shm_inv_id [OF at(1)] remove_shmaddr_find(2,3) [OF at(1) byv]
    by (simp add: shm_inv_def m2_def find_vaddr_by_shmid_def attachment_def)
  moreover have "va_start ?r = start" by simp
  ultimately show ?thesis using run at(1,2) dt restored by blast
qed

section \<open>Inheritance across fork\<close>

lemma collect_attachments_ok:
  assumes "\<And>i v. (i, v) \<in> set fw \<Longrightarrow> attachment m i parent \<noteq> None \<and> attachment m i child = None"
  shows "collect_attachments m parent child fw =
    Inr (map (\<lambda>(i, v). (i, v, the (attachment m i parent))) fw)"
  using assms
proof (induction fw)
  case (Cons iv fw)
  obtain i v where iv: "iv = (i, v)" by (cases iv)
  then obtain s r where "get_segment_by_shmid m i = Some s" "get_addr_range s parent = Some r"
      "get_addr_range s child = None"
    using Cons.prems [of i v] by (fastforce simp: attachment_def split: Option.bind_splits)
  moreover have "collect_attachments m parent child fw =
      Inr (map (\<lambda>(i, v). (i, v, the (attachment m i parent))) fw)"
    using Cons.prems by (intro Cons.IH) auto
  ultimately show ?case by (simp add: iv attachment_def is_attached_def get_addr_range_def)
qed simp

lemma attach_all_ok:
  assumes "distinct (map fst as)" "\<And>i. i \<in> fst ` set as \<Longrightarrow> attachment m i child = None \<and> get_segment_by_shmid m i \<noteq> None"
    "shm_inv m" "child \<notin> fst ` set (pid_shmid_vaddr m)"
  shows "\<exists>m'. attach_all now child as att m = (m', None) \<and> pid_shmid_vaddr m' = pid_shmid_vaddr m \<and>
    bt_inv (segments m') \<and> bt_all seg_ok (segments m') \<and>
    (\<forall>i s. get_segment_by_shmid m' i = Some s \<longrightarrow> shmid s = i) \<and>
    (\<forall>i p. attachment m' i p = (case map_of as i of
       Some (v, r) \<Rightarrow> if p = child then Some r else attachment m i p | None \<Rightarrow> attachment m i p))"
proof -
  let ?I = "\<lambda>m. bt_inv (segments m) \<and> bt_all seg_ok (segments m) \<and>
    (\<forall>i s. get_segment_by_shmid m i = Some s \<longrightarrow> shmid s = i)"
  have "?I m" using assms(3) by (simp add: shm_inv_def)
  with assms(1,2) show ?thesis
  proof (induction as arbitrary: m att)
    case (Cons a as)
    obtain i v r where a: "a = (i, v, r)" by (cases a)
    then obtain s where s: "get_segment_by_shmid m i = Some s" "get_addr_range s child = None"
      using Cons.prems(2) [of i] by (auto simp: attachment_def)
    have ok: "seg_ok s" using s Cons.prems(3) seg_ok_get by blast
    obtain s' where s': "attach_process now s child r = Inr s'"
      using s by (simp add: attach_process_def is_attached_def get_addr_range_def)
    have s'': "seg_ok s'" "shmid s' = shmid s"
      "get_addr_range s' q = (if q = child then Some r else get_addr_range s q)" for q
      using s' ok by (auto simp: attach_process_def seg_ok_def get_addr_range_def bt_simps split: if_splits)
    let ?m = "insert_shmid_segment i s' m"
    have attm: "attachment ?m j p = (if j = i \<and> p = child then Some r else attachment m j p)" for j p
      using s s'' by (simp add: attachment_def)
    have inv: "?I ?m" using Cons.prems(3) s s'' by simp
    have pre: "attachment ?m j child = None \<and> get_segment_by_shmid ?m j \<noteq> None" if "j \<in> fst ` set as" for j
      using Cons.prems(1) Cons.prems(2) [of j] that by (auto simp: attm a)
    have "distinct (map fst as)" using Cons.prems(1) by simp
    from Cons.IH [OF this pre inv, of "i # att"] obtain m' where
      "attach_all now child as (i # att) ?m = (m', None)" "pid_shmid_vaddr m' = pid_shmid_vaddr m" "?I m'"
      and m': "\<And>j p. attachment m' j p = (case map_of as j of
       Some (v, r) \<Rightarrow> if p = child then Some r else attachment ?m j p | None \<Rightarrow> attachment ?m j p)"
      by auto
    moreover have "map_of as i = None" using Cons.prems(1) by (simp add: a map_of_eq_None_iff)
    then have "attachment m' j p = (case map_of (a # as) j of
       Some (v, r) \<Rightarrow> if p = child then Some r else attachment m j p | None \<Rightarrow> attachment m j p)" for j p
      by (auto simp: m' attm a split: option.split)
    ultimately show ?case using s s' by (simp add: a)
  qed simp
qed

lemma fold_bi_insert:
  assumes "distinct (map fst xs)" "distinct (map snd xs)" "bi_inv b"
    "\<And>i v. (i, v) \<in> set xs \<Longrightarrow> get_by_key b i = None \<and> (\<forall>j. get_by_key b j \<noteq> Some v)"
  shows "bi_inv (fold (\<lambda>(i, v). bi_insert i v) xs b) \<and>
    get_by_key (fold (\<lambda>(i, v). bi_insert i v) xs b) = get_by_key b ++ map_of xs"
  using assms
proof (induction xs arbitrary: b)
  case (Cons x xs)
  obtain i v where x: "x = (i, v)" by (cases x)
  have lk: "get_by_key (bi_insert i v b) = (get_by_key b)(i \<mapsto> v)"
    using Cons.prems(4) [of i v] bi.lookup_insert [OF Cons.prems(3), of i v] by (auto simp: x fun_eq_iff)
  have pre: "get_by_key (bi_insert i v b) j = None \<and> (\<forall>k. get_by_key (bi_insert i v b) k \<noteq> Some w)"
    if "(j, w) \<in> set xs" for j w
    using Cons.prems(1,2) Cons.prems(4) [of j w] that by (force simp: lk x)
  have "distinct (map fst xs)" "distinct (map snd xs)" using Cons.prems(1,2) by simp_all
  from Cons.IH [OF this bi.inv_insert [OF Cons.prems(3)] pre]
  moreover have "map_of xs i = None" using Cons.prems(1) by (simp add: x map_of_eq_None_iff)
  ultimately show ?case by (auto simp: x lk fun_eq_iff map_add_def split: option.split)
qed simp

lemma map_of_map_pair:
  "map_of (map (\<lambda>(i, v). (i, v, f i)) xs) i = map_option (\<lambda>v. (v, f i)) (map_of xs i)"
  by (induction xs) auto

lemma bi_distinct: "bi_inv b \<Longrightarrow> distinct (map fst (forward b)) \<and> distinct (map snd (forward b))"
proof -
  assume b: "bi_inv b"
  then have bt: "bt_inv (forward b)" by (simp add: bi_inv_def)
  then have d: "distinct (map fst (forward b))" by (simp add: bt_inv_def strict_sorted_iff)
  moreover have "inj_on snd (set (forward b))"
    using bi.key_unique [OF b] bt_inv_map_of_mem [OF bt] by (fastforce simp: inj_on_def get_by_key_def)
  ultimately show ?thesis by (simp add: distinct_map)
qed

lemma child_mappings:
  fixes b :: "(int, usize) bibtree" and f :: "int \<Rightarrow> 'a"
  assumes "bi_inv b"
  defines "cm \<equiv> fold (\<lambda>(i, v, _). bi_insert i v) (map (\<lambda>(i, v). (i, v, f i)) (forward b)) bi_new"
  shows "bi_inv cm" "get_by_key cm = map_of (forward b)"
proof -
  have "cm = fold (\<lambda>(i, v). bi_insert i v) (forward b) bi_new"
    unfolding cm_def fold_map by (rule fold_cong) auto
  moreover have "get_by_key (bi_new :: (int, usize) bibtree) i = None" for i by (rule bi.empty_lookup)
  ultimately show "bi_inv cm" "get_by_key cm = map_of (forward b)"
    using fold_bi_insert [of "forward b" bi_new] bi_distinct [OF assms(1)]
    by (auto simp: bi.inv_empty fun_eq_iff map_add_def split: option.split)
qed


section \<open>Concrete instances\<close>

text \<open>A manager with one one-page segment, and the same with process 1 attached to it.\<close>

definition demo_segment :: "unit shm_segment" where
  "demo_segment = shm_segment_new std_addr 0 7 0 4096 11 1"

definition demo_manager :: "unit shm_manager" where
  "demo_manager = insert_shmid_segment 0 demo_segment shm_manager_new"

definition demo_range :: va_range where
  "demo_range = \<lparr>va_start = 8192, va_end = 12288\<rparr>"

definition demo_attached :: "unit shm_manager" where
  "demo_attached = insert_shmid_vaddr 1 0 8192 (insert_shmid_segment 0
     (demo_segment\<lparr>shm_object := Some (), va_ranges := [(1, demo_range)],
        shmid_ds := update_attach_time 3 1 (shmid_ds demo_segment)\<rparr>) demo_manager)"

lemma demo_segment_fields:
  "page_num demo_segment = 1" "va_ranges demo_segment = []" "shmid demo_segment = 0"
  "\<not> shm_rmid demo_segment"
  by (simp_all add: demo_segment_def shm_segment_new_def std_addr_def PAGE_SIZE_4K_def Let_def)

lemma demo_segments [simp]:
  "get_segment_by_shmid demo_manager = [0 \<mapsto> demo_segment]" "pid_shmid_vaddr demo_manager = []"
  "segments demo_manager = [(0, demo_segment)]"
  by (simp_all add: demo_manager_def shm_manager_new_def fun_eq_iff get_segment_by_shmid_def)

lemma demo_inv: "shm_inv demo_manager"
  by (simp add: shm_inv_def seg_ok_def attachment_def find_vaddr_by_shmid_def demo_segment_fields
      get_addr_range_def bt_all_def)

lemma demo_attached_inv:
  "shm_inv demo_attached" "attachment demo_attached j p = (if j = 0 \<and> p = 1 then Some demo_range else None)"
proof -
  have s: "get_segment_by_shmid demo_manager 0 = Some demo_segment" by simp
  have a: "attach_process 3 (demo_segment\<lparr>shm_object := Some ()\<rparr>) 1 demo_range = Inr
      (demo_segment\<lparr>shm_object := Some (), va_ranges := [(1, demo_range)],
        shmid_ds := update_attach_time 3 1 (shmid_ds demo_segment)\<rparr>)"
    by (simp add: attach_process_def is_attached_def demo_segment_fields)
  have f: "get_shmid_by_vaddr demo_manager 1 (va_start demo_range) = None"
    by (simp add: get_shmid_by_vaddr_def)
  have none: "attachment demo_manager j p = None"
    by (simp add: attachment_def demo_segment_fields get_addr_range_def)
  have v: "va_start demo_range = 8192" by (simp add: demo_range_def)
  note at = attach_inv [OF demo_inv s a f, unfolded v, folded demo_attached_def]
  show "shm_inv demo_attached" by (rule at(1))
  show "attachment demo_attached j p = (if j = 0 \<and> p = 1 then Some demo_range else None)"
    by (simp add: at(2) none)
qed

theorem shm_exit_detaches_witness:
  "attachment demo_attached 0 1 = Some demo_range \<and>
   attachment (shm_detach_process 9 demo_attached 1) 0 1 = None"
  using shm_exit_detaches [OF demo_attached_inv(1), where now = 9 and pid = 1] demo_attached_inv(2)
  by (simp add: Let_def)

theorem shmat_shmdt_roundtrip_witness:
  "\<exists>m1 m2. sys_shmat std_addr 5 (\<lambda>_. Inr 8192) (\<lambda>_ _. Inr ()) demo_manager 1 0 0 = Inr (8192, m1) \<and>
     sys_shmdt 5 (\<lambda>_. Inr ()) m1 1 8192 = Inr (0, m2) \<and> attachment m2 = attachment demo_manager"
proof -
  have ua: "\<not> is_attached demo_segment 1" by (simp add: is_attached_def demo_segment_fields)
  have b: "8192 + page_num demo_segment * PAGE_SIZE_4K mod usize_bound < usize_bound"
    by (simp add: demo_segment_fields PAGE_SIZE_4K_def usize_bound_def)
  have f: "get_shmid_by_vaddr demo_manager 1 8192 = None" by (simp add: get_shmid_by_vaddr_def)
  from shmat_shmdt_roundtrip [OF std_addr.memory_addr_axioms demo_inv _ ua, where find_addr = "\<lambda>_. Inr 8192"
      and start = 8192 and i = 0 and map_seg = "\<lambda>_ _. Inr ()" and unmap = "\<lambda>_. Inr ()" and now = 5 and flg = 0]
  show ?thesis using b f demo_segment_fields(4) by auto
qed


end
