(* ===== verification/Ipc.thy ===== *)
theory Ipc
  imports Ipc_Sem Ipc_Msg Ipc_Shm
begin

text \<open>
  The IPC namespace of \<open>xkernel/src/ipc/util.rs\<close>: the three managers behind one lock, the resource
  limits, the statistics computed from the managers, and the check that the limits are kept. The
  bounds proved here are those of the three creating calls together.
\<close>

section \<open>The manager\<close>

record 'o ipc_manager =
  ipc_shm :: "'o shm_manager"
  ipc_msg :: msg_manager
  ipc_sem :: sem_manager
  limits :: ipc_limits

record ipc_stats =
  stat_shm_segments :: usize
  stat_msg_queues :: usize
  stat_sem_arrays :: usize
  stat_total_shm_pages :: usize
  stat_total_msg_bytes :: usize
  stat_total_messages :: usize
  stat_total_semaphores :: usize

definition ipc_manager_new :: "'o ipc_manager" where
  "ipc_manager_new = \<lparr>ipc_shm = shm_manager_new, ipc_msg = msg_manager_new, ipc_sem = sem_manager_new,
     limits = ipc_limits_default\<rparr>"

definition set_limits :: "'o ipc_manager \<Rightarrow> ipc_limits \<Rightarrow> 'o ipc_manager" where
  "set_limits m l = m\<lparr>limits := l\<rparr>"

definition array_count :: "sem_manager \<Rightarrow> usize" where
  "array_count m = length (semsets m)"

definition get_ipc_stats :: "'o ipc_manager \<Rightarrow> ipc_stats" where
  "get_ipc_stats m =
     \<lparr>stat_shm_segments = segment_count (ipc_shm m), stat_msg_queues = queue_count (ipc_msg m),
      stat_sem_arrays = array_count (ipc_sem m), stat_total_shm_pages = total_pages (ipc_shm m),
      stat_total_msg_bytes = total_queues_bytes (ipc_msg m),
      stat_total_messages = total_messages (ipc_msg m),
      stat_total_semaphores = total_semaphores (ipc_sem m)\<rparr>"

definition check_limits :: "'o ipc_manager \<Rightarrow> bool" where
  "check_limits m \<longleftrightarrow> (let stats = get_ipc_stats m in
     stat_shm_segments stats \<le> shmmni (limits m) \<and> stat_msg_queues stats \<le> msgmni (limits m) \<and>
     stat_sem_arrays stats \<le> semmni (limits m) \<and> stat_total_shm_pages stats \<le> shmall (limits m) \<and>
     stat_total_semaphores stats \<le> semmns (limits m))"

definition ipc_clear :: "'o ipc_manager \<Rightarrow> 'o ipc_manager" where
  "ipc_clear m = m\<lparr>ipc_shm := shm_clear (ipc_shm m), ipc_msg := msg_clear (ipc_msg m),
     ipc_sem := sem_clear (ipc_sem m)\<rparr>"

section \<open>Limits\<close>

text \<open>The largest number of pages of a segment of at most \<open>SHMMAX\<close> bytes.\<close>

definition max_pages :: nat where
  "max_pages = 2 ^ 52 - 2 ^ 12"

definition shm_bounded :: "'o shm_manager \<Rightarrow> bool" where
  "shm_bounded m \<longleftrightarrow> bt_inv (segments m) \<and> length (segments m) \<le> SHMMNI \<and>
     bt_all (\<lambda>s. page_num s \<le> max_pages) (segments m) \<and> bt_sum page_num (segments m) \<le> SHMALL"

definition ipc_bounded :: "'o ipc_manager \<Rightarrow> bool" where
  "ipc_bounded m \<longleftrightarrow> shm_bounded (ipc_shm m) \<and> sem_mgr_inv (ipc_sem m) \<and> bt_inv (queues (ipc_msg m)) \<and>
     queue_count (ipc_msg m) \<le> MSGMNI \<and> limits m = ipc_limits_default"

lemma fold_usize_add:
  assumes "bt_sum f m + a < usize_bound"
  shows "fold (\<lambda>(_, s) total. usize_add total (f s)) m a = bt_sum f m + a"
  using assms by (induction m arbitrary: a) (auto simp: usize_add_def)

lemma bt_sum_le: "bt_all (\<lambda>s. f s \<le> b) m \<Longrightarrow> bt_sum f m \<le> length m * b"
  by (induction m) auto

lemma total_pages_sum: "shm_bounded m \<Longrightarrow> total_pages m = bt_sum page_num (segments m)"
  using fold_usize_add [of page_num "segments m" 0]
  by (simp add: total_pages_def shm_bounded_def SHMALL_def usize_bound_def)

lemma bounded_check_limits: "ipc_bounded m \<Longrightarrow> check_limits m"
  by (auto simp: ipc_bounded_def check_limits_def get_ipc_stats_def Let_def ipc_limits_default_def
      total_pages_sum array_count_def segment_count_def) (auto simp: shm_bounded_def sem_mgr_inv_def)

text \<open>Writing a segment of a legal size under an identifier: the page sum cannot wrap, because
  \<open>SHMMNI\<close> segments of the largest size still fit in a \<open>usize\<close>.\<close>

lemma shm_insert_bounded:
  assumes m: "shm_bounded m" and s: "page_num s \<le> max_pages"
    and room: "i \<in> fst ` set (segments m) \<or> length (segments m) < SHMMNI"
    and pages: "bt_sum page_num (bt_insert i s (segments m)) \<le> SHMALL"
  shows "shm_bounded (insert_shmid_segment i s m)"
  using assms by (auto simp: shm_bounded_def length_bt_insert bt_inv_insert)

lemma pages_bound:
  assumes "memory_addr A" "sz \<le> SHMMAX"
  shows "align_up A sz PAGE_SIZE_4K div PAGE_SIZE_4K \<le> max_pages"
proof -
  have b: "sz + 2 ^ 12 \<le> usize_bound" using assms(2) by (simp add: SHMMAX_def usize_bound_def)
  have "align_up A sz 4096 < sz + 4096"
    using memory_addr.align_up_ge(2) [OF assms(1) b] by simp
  then show ?thesis using assms(2) by (simp add: PAGE_SIZE_4K_def SHMMAX_def max_pages_def usize_bound_def)
qed

lemma shmget_bounded:
  fixes m :: "'o shm_manager"
  assumes A: "memory_addr A" and m: "shm_bounded m"
    and run: "sys_shmget A now m pid key sz flg = Inr (r, m')"
  shows "shm_bounded m'"
proof -
  let ?pages = "align_up A sz PAGE_SIZE_4K div PAGE_SIZE_4K"
  have v: "validate_segment_params A m sz = Inr ()"
    using run by (auto simp: sys_shmget_def rbind_eq_Inr Let_def split: if_splits)
  then have sz: "sz \<le> SHMMAX" and cnt: "length (segments m) < SHMMNI"
    and add: "usize_add (total_pages m) ?pages \<le> SHMALL"
    by (auto simp: validate_segment_params_def segment_count_def split: if_splits)
  have p: "?pages \<le> max_pages" by (rule pages_bound [OF A sz])
  have "bt_sum page_num (segments m) \<le> length (segments m) * max_pages"
    using m bt_sum_le by (auto simp: shm_bounded_def)
  also have "\<dots> \<le> 4095 * max_pages" using cnt by (intro mult_right_mono) (simp_all add: SHMMNI_def)
  finally have "bt_sum page_num (segments m) + ?pages < usize_bound"
    using p by (simp add: max_pages_def usize_bound_def)
  then have sum: "bt_sum page_num (segments m) + ?pages \<le> SHMALL"
    using add by (simp add: usize_add_def total_pages_sum [OF m])
  let ?new = "shm_segment_new A now key r sz (convert_shm_flags_to_mapping flg) pid :: 'o shm_segment"
  have new: "page_num ?new = ?pages" by (simp add: shm_segment_new_def)
  have "(\<exists>i s. get_segment_by_shmid m i = Some s \<and>
      m' = insert_shmid_segment i (s\<lparr>shmid_ds := (shmid_ds s)\<lparr>shm_lpid := pid\<rparr>\<rparr>) m) \<or> segments m' = bt_insert r ?new (segments m)"
    using run
    by (auto simp: sys_shmget_def rbind_eq_Inr ok_or_eq_Inr Let_def shm_try_update_def insert_key_shmid_def
        split: if_splits option.splits prod.splits)
  then consider (existing) i s where "get_segment_by_shmid m i = Some s"
      "m' = insert_shmid_segment i (s\<lparr>shmid_ds := (shmid_ds s)\<lparr>shm_lpid := pid\<rparr>\<rparr>) m"
    | (fresh) "segments m' = bt_insert r ?new (segments m)" by blast
  then show ?thesis
  proof cases
    case existing
    let ?s = "s\<lparr>shmid_ds := (shmid_ds s)\<lparr>shm_lpid := pid\<rparr>\<rparr>"
    have k: "map_of (segments m) i = Some s" using existing(1) by (simp add: get_segment_by_shmid_def)
    have "bt_sum page_num (bt_insert i ?s (segments m)) = bt_sum page_num (segments m)"
      using m k bt_sum_insert [of "segments m" page_num i ?s] by (simp add: shm_bounded_def)
    moreover have "i \<in> fst ` set (segments m)" using k by (force dest: map_of_SomeD)
    moreover have "page_num ?s \<le> max_pages"
      using m k bt_all_get [of "\<lambda>s. page_num s \<le> max_pages"] by (auto simp: shm_bounded_def)
    ultimately show ?thesis
      unfolding existing(2) using m by (intro shm_insert_bounded) (simp_all add: shm_bounded_def)
  next
    case fresh
    have "bt_sum page_num (bt_insert r ?new (segments m)) \<le> SHMALL"
    proof -
      have "bt_inv (segments m)" using m by (simp add: shm_bounded_def)
      from bt_sum_insert [OF this, of page_num r ?new] show ?thesis using sum new by linarith
    qed
    then have "shm_bounded (insert_shmid_segment r ?new m)"
      using p new cnt by (intro shm_insert_bounded [OF m]) simp_all
    then show ?thesis using fresh by (simp add: shm_bounded_def)
  qed
qed

lemma msgget_bounded:
  assumes "bt_inv (queues m)" "queue_count m \<le> MSGMNI"
    and "sys_msgget now ipc_limits_default m pid key flg = Inr (r, m')"
  shows "bt_inv (queues m') \<and> queue_count m' \<le> MSGMNI"
  using assms
  by (auto simp: sys_msgget_def Let_def allocate_msgid_def insert_msgid_queue_def insert_key_msgid_def
      queue_count_def ipc_limits_default_def length_bt_insert bt_inv_insert
      split: if_splits option.splits prod.splits)


lemma ipc_new_bounded: "ipc_bounded ipc_manager_new"
  by (simp add: ipc_bounded_def ipc_manager_new_def shm_bounded_def shm_manager_new_def sem_mgr_inv_new
      msg_manager_new_def queue_count_def)


end
