(* ===== verification/Assembler.thy ===== *)
theory Assembler
  imports Prelude
begin

text \<open>
  The buffer reassembler of the TCP/IP stack (\<open>crates/smoltcp/src/storage/assembler.rs\<close>): a fixed
  array of contigs, each a hole followed by data, into which received ranges are merged. The array
  length is a constant generated by the build, so the model is a list of any positive length; the
  in-place loops of the code are loops over that list. Abstractly the assembler is the set of offsets
  received.
\<close>

section \<open>Contigs\<close>

record contig =
  hole_size :: usize
  data_size :: usize

definition contig_empty :: contig where
  "contig_empty = \<lparr>hole_size = 0, data_size = 0\<rparr>"

definition hole_and_data :: "usize \<Rightarrow> usize \<Rightarrow> contig" where
  "hole_and_data h d = \<lparr>hole_size = h, data_size = d\<rparr>"

definition has_hole :: "contig \<Rightarrow> bool" where
  "has_hole c \<longleftrightarrow> hole_size c \<noteq> 0"

definition has_data :: "contig \<Rightarrow> bool" where
  "has_data c \<longleftrightarrow> data_size c \<noteq> 0"

definition total_size :: "contig \<Rightarrow> usize" where
  "total_size c = usize_add (hole_size c) (data_size c)"

definition shrink_hole_by :: "usize \<Rightarrow> contig \<Rightarrow> contig" where
  "shrink_hole_by n c = c\<lparr>hole_size := usize_sub (hole_size c) n\<rparr>"

definition shrink_hole_to :: "usize \<Rightarrow> contig \<Rightarrow> contig" where
  "shrink_hole_to n c = \<lparr>hole_size = n, data_size = usize_sub (total_size c) n\<rparr>"

section \<open>The assembler\<close>

type_synonym assembler = "contig list"

datatype too_many_holes_error = TooManyHolesError

definition assembler_new :: "nat \<Rightarrow> assembler" where
  "assembler_new n = replicate n contig_empty"

definition assembler_clear :: "assembler \<Rightarrow> assembler" where
  "assembler_clear cs = map (\<lambda>_. contig_empty) cs"

definition front :: "assembler \<Rightarrow> contig" where
  "front cs = cs ! 0"

definition peek_front :: "assembler \<Rightarrow> usize" where
  "peek_front cs = (if has_hole (front cs) then 0 else data_size (front cs))"

definition back_contig :: "assembler \<Rightarrow> contig" where
  "back_contig cs = cs ! (length cs - 1)"

definition assembler_is_empty :: "assembler \<Rightarrow> bool" where
  "assembler_is_empty cs \<longleftrightarrow> \<not> has_data (front cs)"

text \<open>The loop of \<open>remove_contig_at\<close> from index \<open>i\<close>.\<close>

function remove_contig_at :: "assembler \<Rightarrow> nat \<Rightarrow> assembler" where
  "remove_contig_at cs i =
     (if i < length cs - 1 then
        (if \<not> has_data (cs ! i) then cs else remove_contig_at (cs[i := cs ! (i + 1)]) (i + 1))
      else cs[length cs - 1 := contig_empty])"
  by pat_completeness auto
termination
  by (relation "measure (\<lambda>(cs, i). length cs - i)") auto

text \<open>The loop of \<open>add_contig_at\<close>, from index \<open>i\<close> down to the one after \<open>at\<close>.\<close>

fun shift_right :: "assembler \<Rightarrow> nat \<Rightarrow> nat \<Rightarrow> assembler" where
  "shift_right cs 0 at = cs"
| "shift_right cs (Suc i) at = (if at < Suc i then shift_right (cs[Suc i := cs ! i]) i at else cs)"

definition add_contig_at :: "assembler \<Rightarrow> nat \<Rightarrow> too_many_holes_error + assembler" where
  "add_contig_at cs at =
     (if has_data (back_contig cs) then Inl TooManyHolesError
      else Inr ((shift_right cs (length cs - 1) at)[at := contig_empty]))"

text \<open>The search loop of \<open>add\<close>: the array is exhausted, an unused contig is reached, or the contig
  that contains the start of the range; with the offset relative to that contig.\<close>

datatype find_result = Exhausted | Unused nat usize | Touch nat usize

function find_contig :: "assembler \<Rightarrow> nat \<Rightarrow> usize \<Rightarrow> find_result" where
  "find_contig cs i offset =
     (if length cs \<le> i then Exhausted
      else if \<not> has_data (cs ! i) then Unused i offset
      else if offset \<le> total_size (cs ! i) then Touch i offset
      else find_contig cs (i + 1) (offset - total_size (cs ! i)))"
  by pat_completeness auto
termination
  by (relation "measure (\<lambda>(cs, i, _). length cs - i)") auto

text \<open>The coalescing loop: contigs from \<open>j\<close> on that the range ending at \<open>e\<close> reaches are merged into
  contig \<open>i\<close>.\<close>

function coalesce :: "assembler \<Rightarrow> nat \<Rightarrow> nat \<Rightarrow> usize \<Rightarrow> assembler \<times> nat" where
  "coalesce cs i j e =
     (if j < length cs \<and> has_data (cs ! j) \<and> e \<ge> usize_add (total_size (cs ! i)) (hole_size (cs ! j))
      then coalesce (cs[i := (cs ! i)\<lparr>data_size := usize_add (data_size (cs ! i)) (total_size (cs ! j))\<rparr>])
             i (j + 1) e
      else (cs, j))"
  by pat_completeness auto
termination
  by (relation "measure (\<lambda>(cs, _, j, _). length cs - j)") auto

text \<open>The loop that moves the contigs after the merged ones to the left.\<close>

function shift_left :: "assembler \<Rightarrow> nat \<Rightarrow> nat \<Rightarrow> assembler" where
  "shift_left cs x shift =
     (if x < length cs \<and> has_data (cs ! x)
      then shift_left (cs[x := if x + shift < length cs then cs ! (x + shift) else contig_empty])
             (x + 1) shift
      else cs)"
  by pat_completeness auto
termination
  by (relation "measure (\<lambda>(cs, x, _). length cs - x)") auto

declare remove_contig_at.simps [simp del] find_contig.simps [simp del] coalesce.simps [simp del]
  shift_left.simps [simp del]

text \<open>The rest of \<open>add\<close>, from the contig the range starts in.\<close>

definition extend_contig :: "assembler \<Rightarrow> nat \<Rightarrow> usize \<Rightarrow> assembler" where
  "extend_contig cs i e =
     (if e > total_size (cs ! i) then
        let left = e - total_size (cs ! i);
            cs' = cs[i := (cs ! i)\<lparr>data_size := usize_add (data_size (cs ! i)) left\<rparr>]
        in if i + 1 < length cs' \<and> has_data (cs' ! (i + 1))
           then cs'[i + 1 := shrink_hole_by left (cs' ! (i + 1))] else cs'
      else cs)"

definition add_touching :: "assembler \<Rightarrow> nat \<Rightarrow> usize \<Rightarrow> usize \<Rightarrow> too_many_holes_error + assembler" where
  "add_touching cs i offset sz =
     (let c = cs ! i; e = usize_add offset sz in
      if offset < hole_size c \<and> e < hole_size c then
        rbind (add_contig_at cs i) (\<lambda>cs1.
          let cs2 = cs1[i := hole_and_data offset sz]
          in Inr (cs2[i + 1 := shrink_hole_by e (cs2 ! (i + 1))]))
      else
        let cs1 = (if offset < hole_size c then cs[i := shrink_hole_to offset c] else cs);
            (cs2, j) = coalesce cs1 i (i + 1) e;
            shift = j - i - 1;
            cs3 = (if shift \<noteq> 0 then shift_left cs2 (i + 1) shift else cs2)
        in Inr (extend_contig cs3 i e))"

definition add :: "assembler \<Rightarrow> usize \<Rightarrow> usize \<Rightarrow> too_many_holes_error + assembler" where
  "add cs offset sz =
     (if sz = 0 then Inr cs
      else case find_contig cs 0 offset of
          Exhausted \<Rightarrow> Inl TooManyHolesError
        | Unused i off \<Rightarrow> Inr (cs[i := hole_and_data off sz])
        | Touch i off \<Rightarrow> add_touching cs i off sz)"

definition remove_front :: "assembler \<Rightarrow> usize \<times> assembler" where
  "remove_front cs =
     (if has_hole (front cs) \<or> \<not> has_data (front cs) then (0, cs)
      else (data_size (front cs), remove_contig_at cs 0))"

definition add_then_remove_front ::
    "assembler \<Rightarrow> usize \<Rightarrow> usize \<Rightarrow> too_many_holes_error + (usize \<times> assembler)" where
  "add_then_remove_front cs offset sz =
     (if offset = 0 \<and> sz < hole_size (cs ! 0) then Inr (sz, cs[0 := shrink_hole_by sz (cs ! 0)])
      else rbind (add cs offset sz) (\<lambda>cs'. Inr (remove_front cs')))"

text \<open>All items of the iterator \<open>iter_data\<close>: the ranges of data, shifted by \<open>offset\<close>; \<open>left\<close> is the
  running position.\<close>

fun iter_data_from :: "usize \<Rightarrow> usize \<Rightarrow> assembler \<Rightarrow> (usize \<times> usize) list" where
  "iter_data_from offset left [] = []"
| "iter_data_from offset left (c # cs) =
     (let l = usize_add left (hole_size c); r = usize_add l (data_size c)
      in if l < r then (usize_add l offset, usize_add r offset) # iter_data_from offset r cs
         else iter_data_from offset l cs)"

definition iter_data :: "assembler \<Rightarrow> usize \<Rightarrow> (usize \<times> usize) list" where
  "iter_data cs first_offset = iter_data_from first_offset 0 cs"

section \<open>The set of received offsets\<close>

text \<open>The documented invariant: a prefix of used contigs, each with data and all but the first with a
  hole, then unused ones.\<close>

definition contigs_wf :: "contig list \<Rightarrow> bool" where
  "contigs_wf ds \<longleftrightarrow> list_all has_data ds \<and> list_all has_hole (tl ds)"

definition assembler_inv :: "assembler \<Rightarrow> bool" where
  "assembler_inv cs \<longleftrightarrow> cs \<noteq> [] \<and>
     (\<exists>ds k. cs = ds @ replicate k contig_empty \<and> contigs_wf ds)"

fun present :: "nat \<Rightarrow> contig list \<Rightarrow> nat set" where
  "present b [] = {}"
| "present b (c # ds) =
     {b + hole_size c..<b + hole_size c + data_size c} \<union> present (b + hole_size c + data_size c) ds"

definition received :: "assembler \<Rightarrow> nat set" where
  "received cs = present 0 cs"

definition span :: "contig list \<Rightarrow> nat" where
  "span ds = sum_list (map (\<lambda>c. hole_size c + data_size c) ds)"

section \<open>The array loops on the list of used contigs\<close>

abbreviation unused :: "nat \<Rightarrow> contig list" where
  "unused k \<equiv> replicate k contig_empty"

lemma has_data_empty [simp]: "\<not> has_data contig_empty" "data_size contig_empty = 0" "hole_size contig_empty = 0"
  by (simp_all add: has_data_def contig_empty_def)

lemma has_hole_simps [simp]:
  "has_hole (hole_and_data h d) \<longleftrightarrow> h \<noteq> 0" "has_hole (c\<lparr>hole_size := h\<rparr>) \<longleftrightarrow> h \<noteq> 0"
  by (simp_all add: has_hole_def hole_and_data_def)

lemma remove_contig_at_spec:
  assumes "has_data c" "list_all has_data b"
  shows "remove_contig_at (a @ c # b @ unused k) (length a) = a @ b @ unused (Suc k)"
  using assms
proof (induction b arbitrary: a c)
  case Nil
  show ?case
  proof (cases k)
    case 0
    then show ?thesis by (subst remove_contig_at.simps) simp
  next
    case (Suc n)
    have "remove_contig_at (a @ c # unused (Suc n)) (length a)
        = remove_contig_at (a @ contig_empty # unused (Suc n)) (Suc (length a))"
      using Nil by (subst remove_contig_at.simps) (simp add: nth_append list_update_append)
    also have "\<dots> = a @ unused (Suc (Suc n))"
      by (subst remove_contig_at.simps) (auto simp: nth_append list_update_append)
    finally show ?thesis using Suc by simp
  qed
next
  case (Cons d b)
  have "remove_contig_at (a @ c # (d # b) @ unused k) (length a)
      = remove_contig_at ((a @ [d]) @ d # b @ unused k) (length (a @ [d]))"
    using Cons.prems by (subst remove_contig_at.simps) (simp add: nth_append list_update_append)
  also have "\<dots> = (a @ [d]) @ b @ unused (Suc k)" using Cons.prems by (intro Cons.IH) simp_all
  finally show ?case by simp
qed

lemma shift_right_spec:
  "shift_right (a @ xs @ y # ys) (length a + length xs) (length a) = a @ hd (xs @ [y]) # xs @ ys"
proof (induction xs arbitrary: y ys rule: rev_induct)
  case Nil
  then show ?case by (cases "length a") simp_all
next
  case (snoc x xs)
  have "shift_right (a @ (xs @ [x]) @ y # ys) (length a + length (xs @ [x])) (length a)
      = shift_right (a @ xs @ x # (x # ys)) (length a + length xs) (length a)"
    by (simp add: nth_append list_update_append)
  also have "\<dots> = a @ hd (xs @ [x]) # xs @ x # ys" by (rule snoc.IH)
  finally show ?case by (cases xs) simp_all
qed

lemma add_contig_at_spec:
  assumes "list_all has_data (b :: contig list)"
  shows "add_contig_at (a @ b @ unused (Suc k)) (length a) = Inr (a @ contig_empty # b @ unused k)"
proof -
  let ?cs = "a @ (b @ unused k) @ contig_empty # []"
  have eq: "a @ b @ unused (Suc k) = ?cs" by (simp add: replicate_append_same)
  have "back_contig ?cs = contig_empty" by (simp add: back_contig_def nth_append)
  moreover have "shift_right ?cs (length ?cs - 1) (length a) = a @ hd (b @ unused k @ [contig_empty]) # b @ unused k"
    using shift_right_spec [of a "b @ unused k" contig_empty "[]"] by simp
  ultimately show ?thesis unfolding eq add_contig_at_def by (simp add: list_update_append)
qed

definition get_or_empty :: "contig list \<Rightarrow> nat \<Rightarrow> contig" where
  "get_or_empty cs n = (if n < length cs then cs ! n else contig_empty)"

lemma shift_left_map:
  assumes "list_all has_data xs" "0 < shift"
  shows "shift_left (a @ xs @ unused k) (length a) shift =
    a @ map (\<lambda>t. get_or_empty (xs @ unused k) (t + shift)) [0..<length xs] @ unused k"
  using assms(1)
proof (induction xs arbitrary: a)
  case Nil
  show ?case by (cases k) (subst shift_left.simps, simp add: nth_append)+
next
  case (Cons x xs)
  let ?v = "get_or_empty (x # xs @ unused k) shift"
  have "shift_left (a @ (x # xs) @ unused k) (length a) shift
      = shift_left ((a @ [?v]) @ xs @ unused k) (length (a @ [?v])) shift"
    using Cons.prems by (subst shift_left.simps) (auto simp: nth_append list_update_append get_or_empty_def)
  also have "\<dots> = (a @ [?v]) @ map (\<lambda>t. get_or_empty (xs @ unused k) (t + shift)) [0..<length xs] @ unused k"
    using Cons.prems by (intro Cons.IH) simp
  also have "map (\<lambda>t. get_or_empty (xs @ unused k) (t + shift)) [0..<length xs]
      = map (\<lambda>t. get_or_empty (x # xs @ unused k) (t + shift)) [1..<Suc (length xs)]"
    by (rule nth_equalityI) (auto simp: get_or_empty_def simp del: upt_Suc)
  finally show ?case by (simp add: upt_conv_Cons del: upt_Suc)
qed

lemma shift_left_spec:
  assumes "list_all has_data (m @ b)" "m \<noteq> []"
  shows "shift_left (a @ m @ b @ unused k) (length a) (length m) = a @ b @ unused (k + length m)"
proof -
  have "map (\<lambda>t. get_or_empty ((m @ b) @ unused k) (t + length m)) [0..<length (m @ b)]
      = b @ unused (length m)"
    by (rule nth_equalityI) (auto simp: get_or_empty_def nth_append)
  then show ?thesis
    using shift_left_map [OF assms(1), of "length m" a k] assms(2)
    by (simp add: replicate_add [symmetric] add.commute)
qed

section \<open>Adding a range to the list of used contigs\<close>

text \<open>Reference definitions over unbounded numbers and without the unused tail of the array.\<close>

fun absorb :: "nat \<Rightarrow> contig \<Rightarrow> contig list \<Rightarrow> contig \<times> contig list" where
  "absorb e c [] = (c, [])"
| "absorb e c (x # xs) =
     (if e \<ge> hole_size c + data_size c + hole_size x
      then absorb e (c\<lparr>data_size := data_size c + hole_size x + data_size x\<rparr>) xs else (c, x # xs))"

definition extend_ref :: "nat \<Rightarrow> contig \<Rightarrow> contig list \<Rightarrow> contig list" where
  "extend_ref e c ds =
     (let left = e - (hole_size c + data_size c)
      in c\<lparr>data_size := data_size c + left\<rparr> #
         (case ds of [] \<Rightarrow> [] | x # xs \<Rightarrow> x\<lparr>hole_size := hole_size x - left\<rparr> # xs))"

definition start_ref :: "nat \<Rightarrow> contig \<Rightarrow> contig" where
  "start_ref off c = (if off < hole_size c
     then \<lparr>hole_size = off, data_size = hole_size c + data_size c - off\<rparr> else c)"

fun add_ref :: "contig list \<Rightarrow> nat \<Rightarrow> nat \<Rightarrow> contig list" where
  "add_ref [] off n = [hole_and_data off n]"
| "add_ref (c # ds) off n =
     (if off > hole_size c + data_size c then c # add_ref ds (off - (hole_size c + data_size c)) n
      else if off + n < hole_size c
      then hole_and_data off n # c\<lparr>hole_size := hole_size c - (off + n)\<rparr> # ds
      else case absorb (off + n) (start_ref off c) ds of (c', ds') \<Rightarrow> extend_ref (off + n) c' ds')"

lemma span_simps [simp]:
  "span [] = 0" "span (c # ds) = hole_size c + data_size c + span ds" "span (a @ b) = span a + span b"
  by (simp_all add: span_def)

lemma absorb_suffix: "absorb e c xs = (c', xs') \<Longrightarrow> \<exists>taken. xs = taken @ xs'"
  by (induction e c xs rule: absorb.induct) (auto split: if_splits intro: exI [of _ "_ # _"])

lemma absorb_stops:
  "absorb e c ds = (c', x # xs) \<Longrightarrow> e < hole_size c' + data_size c' + hole_size x"
  by (induction e c ds rule: absorb.induct) (auto split: if_splits)

lemma absorb_total:
  "absorb e c ds = (c', ds') \<Longrightarrow> hole_size c' = hole_size c \<and> data_size c \<le> data_size c' \<and>
     data_size c' + span ds' = data_size c + span ds"
  by (induction e c ds rule: absorb.induct) (auto split: if_splits)

lemma coalesce_spec:
  assumes "list_all has_data xs" "span (c # xs) < usize_bound" "absorb e c xs = (c', xs')" "xs = taken @ xs'"
  shows "coalesce (a @ c # m @ xs @ unused k) (length a) (length a + 1 + length m) e =
    (a @ c' # m @ xs @ unused k, length a + 1 + length m + length taken)"
  using assms
proof (induction xs arbitrary: c m taken)
  case Nil
  then show ?case by (cases k) (subst coalesce.simps, simp add: nth_append)+
next
  case (Cons x xs)
  let ?cs = "a @ c # m @ (x # xs) @ unused k"
  have nth: "?cs ! length a = c" "?cs ! (length a + 1 + length m) = x"
    by (simp_all add: nth_append)
  have tot: "total_size c = hole_size c + data_size c" "total_size x = hole_size x + data_size x"
    "usize_add (hole_size c + data_size c) (hole_size x) = hole_size c + data_size c + hole_size x"
    "usize_add (data_size c) (hole_size x + data_size x) = data_size c + hole_size x + data_size x"
    using Cons.prems(2) by (simp_all add: total_size_def usize_add_def)
  show ?case
  proof (cases "e \<ge> hole_size c + data_size c + hole_size x")
    case True
    let ?c = "c\<lparr>data_size := data_size c + hole_size x + data_size x\<rparr>"
    have rec: "absorb e ?c xs = (c', xs')" using Cons.prems(3) True by simp
    then obtain t where t: "xs = t @ xs'" using absorb_suffix by blast
    have "taken = x # t" using Cons.prems(4) t by (metis append_Cons append_same_eq)
    moreover have "coalesce ?cs (length a) (length a + 1 + length m) e
        = coalesce (a @ ?c # (m @ [x]) @ xs @ unused k) (length a) (length a + 1 + length (m @ [x])) e"
      using True Cons.prems(1)
      by (subst coalesce.simps) (simp only: nth tot, simp add: list_update_append)
    moreover have "coalesce (a @ ?c # (m @ [x]) @ xs @ unused k) (length a) (length a + 1 + length (m @ [x])) e
        = (a @ c' # (m @ [x]) @ xs @ unused k, length a + 1 + length (m @ [x]) + length t)"
      using Cons.prems(1,2) rec t by (intro Cons.IH) simp_all
    ultimately show ?thesis by simp
  next
    case False
    then have "c' = c" "xs' = x # xs" using Cons.prems(3) by simp_all
    moreover from this have "taken = []" using Cons.prems(4) by simp
    ultimately show ?thesis
      using False by (subst coalesce.simps) (simp only: nth tot, simp)
  qed
qed

lemma extend_contig_spec:
  assumes "list_all has_data ds" "span (c # ds) < usize_bound" "e < usize_bound"
    and stop: "\<And>x xs. ds = x # xs \<Longrightarrow> e < hole_size c + data_size c + hole_size x"
  shows "extend_contig (a @ c # ds @ unused k) (length a) e = a @ extend_ref e c ds @ unused k"
proof -
  have tot: "total_size c = hole_size c + data_size c"
    using assms(2) by (simp add: total_size_def usize_add_def)
  show ?thesis
  proof (cases "e > hole_size c + data_size c")
    case False
    then show ?thesis by (simp add: extend_contig_def extend_ref_def tot nth_append split: list.split)
  next
    case True
    let ?left = "e - (hole_size c + data_size c)"
    have d: "usize_add (data_size c) ?left = data_size c + ?left"
      using True assms(3) by (simp add: usize_add_def)
    show ?thesis
    proof (cases ds)
      case Nil
      then show ?thesis using True d
        by (cases k) (simp_all add: extend_contig_def extend_ref_def tot nth_append list_update_append Let_def)
    next
      case (Cons x xs)
      have "usize_sub (hole_size x) ?left = hole_size x - ?left"
        using stop [OF Cons] True assms(2) Cons by (intro usize_sub_id) auto
      moreover have "has_data x" using assms(1) Cons by simp
      ultimately show ?thesis using True d Cons
        by (simp add: extend_contig_def extend_ref_def tot nth_append list_update_append Let_def shrink_hole_by_def)
    qed
  qed
qed

lemma add_in_hole_spec:
  assumes "list_all has_data (c # ds)" "span (c # ds) < usize_bound" "off + n < hole_size c"
  shows "add_touching (a @ (c # ds) @ unused k) (length a) off n =
    (if k = 0 then Inl TooManyHolesError
     else Inr (a @ (hole_and_data off n # c\<lparr>hole_size := hole_size c - (off + n)\<rparr> # ds) @ unused (k - 1)))"
proof -
  let ?cs = "a @ (c # ds) @ unused k"
  have e: "usize_add off n = off + n" using assms(2,3) by (simp add: usize_add_def)
  have sub: "usize_sub (hole_size c) (off + n) = hole_size c - (off + n)"
    using assms(2,3) by (intro usize_sub_id) auto
  have nth: "?cs ! length a = c" by (simp add: nth_append)
  show ?thesis
  proof (cases k)
    case 0
    have "has_data (back_contig ?cs)"
    proof (cases ds rule: rev_exhaust)
      case Nil
      then show ?thesis using 0 assms(1) by (simp add: back_contig_def nth_append)
    next
      case (snoc ys y)
      then show ?thesis using 0 assms(1) by (simp add: back_contig_def nth_append)
    qed
    then show ?thesis
      unfolding add_touching_def Let_def nth e add_contig_at_def using assms(3) 0 by simp
  next
    case (Suc j)
    have "add_contig_at ?cs (length a) = Inr (a @ contig_empty # (c # ds) @ unused j)"
      using add_contig_at_spec [OF assms(1), of a j] Suc by simp
    then show ?thesis
      unfolding add_touching_def Let_def nth e using assms(3) Suc sub
      by (simp add: list_update_append nth_append shrink_hole_by_def)
  qed
qed

lemma add_merge_spec:
  assumes "list_all has_data (c # ds)" "span (c # ds) < usize_bound" "off + n < usize_bound"
    "off \<le> hole_size c + data_size c" "\<not> off + n < hole_size c"
    and ab: "absorb (off + n) (start_ref off c) ds = (c', ds')"
  shows "add_touching (a @ (c # ds) @ unused k) (length a) off n =
    Inr (a @ extend_ref (off + n) c' ds' @ unused (k + length ds - length ds'))"
proof -
  let ?cs = "a @ (c # ds) @ unused k" and ?s = "start_ref off c"
  obtain taken where taken: "ds = taken @ ds'" using absorb_suffix [OF ab] by blast
  have e: "usize_add off n = off + n" using assms(3) by (simp add: usize_add_def)
  have nth: "?cs ! length a = c" by (simp add: nth_append)
  have "usize_sub (total_size c) off = hole_size c + data_size c - off"
    using assms(2,4) by (simp add: total_size_def usize_add_def usize_sub_id)
  then have s: "(if off < hole_size c then ?cs[length a := shrink_hole_to off c] else ?cs) = a @ ?s # ds @ unused k"
    by (simp add: start_ref_def shrink_hole_to_def list_update_append)
  have tot: "hole_size ?s + data_size ?s = hole_size c + data_size c"
    using assms(4) by (simp add: start_ref_def)
  have co: "coalesce (a @ ?s # ds @ unused k) (length a) (length a + 1) (off + n)
      = (a @ c' # ds @ unused k, length a + 1 + length taken)"
    using coalesce_spec [of ds ?s "off + n" c' ds' taken a "[]" k] assms(1,2) ab taken tot by simp
  have sh: "shift_left (a @ c' # taken @ ds' @ unused k) (Suc (length a)) (length taken)
      = a @ c' # ds' @ unused (k + length taken)" if "taken \<noteq> []"
    using shift_left_spec [of taken ds' "a @ [c']" k] assms(1) taken that by simp
  have "extend_contig (a @ c' # ds' @ unused (k + length taken)) (length a) (off + n)
      = a @ extend_ref (off + n) c' ds' @ unused (k + length taken)"
  proof (rule extend_contig_spec)
    show "off + n < hole_size c' + data_size c' + hole_size x" if "ds' = x # xs" for x xs
      using absorb_stops ab that by blast
  qed (use assms(1,2,3) taken absorb_total [OF ab] tot in auto)
  then show ?thesis
    unfolding add_touching_def Let_def nth e s using assms(5) co sh taken by (cases "taken = []") simp_all
qed

lemma length_extend_ref [simp]: "length (extend_ref e c ds) = Suc (length ds)"
  by (simp add: extend_ref_def Let_def split: list.split)

text \<open>The whole of \<open>add\<close> after the check for an empty range, from the contig after the prefix \<open>a\<close>.\<close>

definition add_from :: "assembler \<Rightarrow> nat \<Rightarrow> usize \<Rightarrow> usize \<Rightarrow> too_many_holes_error + assembler" where
  "add_from cs i offset sz =
     (case find_contig cs i offset of
        Exhausted \<Rightarrow> Inl TooManyHolesError
      | Unused i off \<Rightarrow> Inr (cs[i := hole_and_data off sz])
      | Touch i off \<Rightarrow> add_touching cs i off sz)"

lemma add_from_spec:
  assumes "list_all has_data ds" "span ds < usize_bound" "off + n < usize_bound"
  shows "add_from (a @ ds @ unused k) (length a) off n =
    (if length (add_ref ds off n) \<le> length ds + k
     then Inr (a @ add_ref ds off n @ unused (length ds + k - length (add_ref ds off n)))
     else Inl TooManyHolesError)"
  using assms
proof (induction ds arbitrary: a off)
  case Nil
  show ?case
    by (cases k) (simp_all add: add_from_def find_contig.simps [of _ "length a"] nth_append list_update_append)
next
  case (Cons c ds)
  let ?cs = "a @ (c # ds) @ unused k" and ?t = "hole_size c + data_size c"
  have tot: "total_size c = ?t" using Cons.prems(2) by (simp add: total_size_def usize_add_def)
  have nth: "?cs ! length a = c" by (simp add: nth_append)
  have find: "find_contig ?cs (length a) off =
      (if off \<le> ?t then Touch (length a) off else find_contig ?cs (length a + 1) (off - ?t))"
    using Cons.prems(1) by (subst find_contig.simps) (simp only: nth tot, simp)
  show ?case
  proof (cases "off \<le> ?t")
    case False
    have "add_from ?cs (length a) off n = add_from ((a @ [c]) @ ds @ unused k) (length (a @ [c])) (off - ?t) n"
      using False find by (simp add: add_from_def)
    then show ?thesis using False Cons.prems Cons.IH [of "off - ?t" "a @ [c]"] by simp
  next
    case True
    then have step: "add_from ?cs (length a) off n = add_touching ?cs (length a) off n"
      by (simp only: add_from_def find if_True find_result.case)
    show ?thesis
    proof (cases "off + n < hole_size c")
      case hole: True
      then show ?thesis unfolding step add_in_hole_spec [OF Cons.prems(1,2) hole] using True by simp
    next
      case False
      obtain c' ds' where ab: "absorb (off + n) (start_ref off c) ds = (c', ds')" by force
      then obtain taken where "ds = taken @ ds'" using absorb_suffix by blast
      then show ?thesis
        unfolding step add_merge_spec [OF Cons.prems True False ab] using True False ab by simp
    qed
  qed
qed

lemma add_spec:
  assumes "list_all has_data ds" "span ds < usize_bound" "off + n < usize_bound" "n \<noteq> 0"
  shows "add (ds @ unused k) off n =
    (if length (add_ref ds off n) \<le> length ds + k
     then Inr (add_ref ds off n @ unused (length ds + k - length (add_ref ds off n)))
     else Inl TooManyHolesError)"
  using add_from_spec [OF assms(1-3), of "[]" k] assms(4) by (simp add: add_def add_from_def)

section \<open>Refinement of the set of received offsets\<close>

lemma present_append: "present b (xs @ ys) = present b xs \<union> present (b + span xs) ys"
  by (induction xs arbitrary: b) (auto simp: algebra_simps)

lemma present_unused [simp]: "present b (unused k) = {}"
  by (induction k arbitrary: b) simp_all

lemma present_shift: "present (b + k) ds = (\<lambda>x. x + k) ` present b ds"
proof (induction ds arbitrary: b)
  case (Cons c ds)
  have "present (b + k + hole_size c + data_size c) ds = (\<lambda>x. x + k) ` present (b + hole_size c + data_size c) ds"
    using Cons [of "b + hole_size c + data_size c"] by (simp add: algebra_simps)
  then show ?case by (simp add: image_Un algebra_simps)
qed simp

lemma present_ge: "x \<in> present b ds \<Longrightarrow> b \<le> x \<and> x < b + span ds"
  by (induction ds arbitrary: b) (auto, fastforce+)

lemma absorb_present:
  "absorb e c ds = (c', ds') \<Longrightarrow> off \<le> hole_size c + data_size c \<Longrightarrow>
   present b (c' # ds') \<union> {b + off..<b + e} = present b (c # ds) \<union> {b + off..<b + e}"
proof (induction e c ds rule: absorb.induct)
  case (2 e c x xs)
  show ?case
  proof (cases "e \<ge> hole_size c + data_size c + hole_size x")
    case True
    let ?c = "c\<lparr>data_size := data_size c + hole_size x + data_size x\<rparr>"
    have "present b (c' # ds') \<union> {b + off..<b + e} = present b (?c # xs) \<union> {b + off..<b + e}"
      using 2 True by (intro 2(1)) auto
    also have "\<dots> = present b (c # x # xs) \<union> {b + off..<b + e}"
      using True 2(3) by (auto simp: add.assoc)
    finally show ?thesis .
  qed (use 2 in auto)
qed simp

lemma extend_present:
  assumes "\<And>x xs. ds = x # xs \<Longrightarrow> e < hole_size c + data_size c + hole_size x"
    "hole_size c \<le> off" "off \<le> hole_size c + data_size c"
  shows "present b (extend_ref e c ds) = present b (c # ds) \<union> {b + off..<b + e}"
proof (cases ds)
  case Nil
  then show ?thesis using assms(2,3) by (auto simp: extend_ref_def Let_def)
next
  case (Cons x xs)
  note stop = assms(1) [OF Cons]
  have "b + hole_size c + (data_size c + (e - (hole_size c + data_size c))) +
      (hole_size x - (e - (hole_size c + data_size c))) = b + hole_size c + data_size c + hole_size x"
    using stop by simp
  then show ?thesis using assms(2,3) Cons by (auto simp: extend_ref_def Let_def add.assoc)
qed

lemma merge_present:
  assumes ab: "absorb (off + n) (start_ref off c) ds = (c', ds')"
    and "off \<le> hole_size c + data_size c" "\<not> off + n < hole_size c"
  shows "present b (extend_ref (off + n) c' ds') = present b (c # ds) \<union> {b + off..<b + (off + n)}"
proof -
  let ?r = "{b + off..<b + (off + n)}" and ?s = "start_ref off c"
  have s: "hole_size ?s \<le> off" "off \<le> hole_size ?s + data_size ?s"
    using assms(2) by (auto simp: start_ref_def)
  have c': "hole_size c' = hole_size ?s" "data_size ?s \<le> data_size c'" using absorb_total [OF ab] by auto
  have "present b (extend_ref (off + n) c' ds') = present b (c' # ds') \<union> ?r"
  proof (rule extend_present)
    show "off + n < hole_size c' + data_size c' + hole_size x" if "ds' = x # xs" for x xs
      using absorb_stops ab that by blast
  qed (use s c' in auto)
  also have "\<dots> = present b (?s # ds) \<union> ?r" using absorb_present [OF ab s(2)] .
  also have "\<dots> = present b (c # ds) \<union> ?r"
  proof (cases "off < hole_size c")
    case True
    then have "b + off + (hole_size c + data_size c - off) = b + hole_size c + data_size c" by simp
    with True show ?thesis using assms(3) by (auto simp: start_ref_def add.assoc)
  qed (simp add: start_ref_def)
  finally show ?thesis .
qed

lemma add_ref_present: "present b (add_ref ds off n) = present b ds \<union> {b + off..<b + off + n}"
proof (induction ds off n arbitrary: b rule: add_ref.induct)
  case (2 c ds off n)
  consider (after) "off > hole_size c + data_size c" | (hole) "off \<le> hole_size c + data_size c" "off + n < hole_size c"
    | (merge) "off \<le> hole_size c + data_size c" "\<not> off + n < hole_size c" by linarith
  then show ?case
  proof cases
    case after
    then show ?thesis using 2(1) by (simp add: Un_assoc add.assoc)
  next
    case hole
    then have "b + off + n + (hole_size c - (off + n)) = b + hole_size c" by simp
    with hole show ?thesis by (auto simp: hole_and_data_def)
  next
    case merge
    obtain c' ds' where ab: "absorb (off + n) (start_ref off c) ds = (c', ds')" by force
    show ?thesis using merge ab merge_present [OF ab merge, of b] by (simp add: add.assoc)
  qed
qed (auto simp: hole_and_data_def)

lemma add_ref_data:
  assumes "n \<noteq> 0" "list_all has_data ds" shows "list_all has_data (add_ref ds off n)"
  using assms
proof (induction ds off n rule: add_ref.induct)
  case (2 c ds off n)
  obtain c' ds' where ab: "absorb (off + n) (start_ref off c) ds = (c', ds')" by force
  then obtain taken where "ds = taken @ ds'" using absorb_suffix by blast
  moreover have "data_size (start_ref off c) \<le> data_size c'" using absorb_total [OF ab] by simp
  ultimately show ?case using 2 ab
    by (auto simp: has_data_def hole_and_data_def extend_ref_def start_ref_def Let_def split: if_splits list.split)
qed (simp add: has_data_def hole_and_data_def)

lemma extend_ref_holes:
  assumes "absorb e s ds = (c', ds')" "list_all has_hole ds"
  shows "list_all has_hole (tl (extend_ref e c' ds'))"
proof -
  obtain taken where "ds = taken @ ds'" using absorb_suffix [OF assms(1)] by blast
  then show ?thesis using assms absorb_stops [of e s ds c']
    by (fastforce simp: extend_ref_def Let_def has_hole_def split: list.split)
qed

lemma add_ref_holes:
  "0 < off \<Longrightarrow> list_all has_hole ds \<Longrightarrow> list_all has_hole (add_ref ds off n)"
proof (induction ds off n rule: add_ref.induct)
  case (2 c ds off n)
  obtain c' ds' where ab: "absorb (off + n) (start_ref off c) ds = (c', ds')" by force
  have h: "list_all has_hole ds" using 2(3) by simp
  have "hole_size c' \<noteq> 0" using absorb_total [OF ab] 2(2,3) by (simp add: start_ref_def has_hole_def split: if_splits)
  then have "has_hole (c'\<lparr>data_size := z\<rparr>)" for z by (simp add: has_hole_def)
  then have "list_all has_hole (extend_ref (off + n) c' ds')"
    using extend_ref_holes [OF ab h] by (simp add: extend_ref_def Let_def)
  then show ?case using 2 ab by auto
qed simp

lemma add_ref_wf:
  assumes "contigs_wf ds" "n \<noteq> 0" shows "contigs_wf (add_ref ds off n)"
proof (cases ds)
  case Nil
  then show ?thesis using assms by (simp add: contigs_wf_def has_data_def hole_and_data_def)
next
  case (Cons c es)
  obtain c' ds' where ab: "absorb (off + n) (start_ref off c) es = (c', ds')" by force
  have h: "list_all has_hole es" using assms(1) Cons by (simp add: contigs_wf_def)
  then have "list_all has_hole (tl (add_ref ds off n))"
    using Cons ab extend_ref_holes [OF ab h] add_ref_holes [of _ es] by auto
  then show ?thesis using add_ref_data [OF assms(2)] assms(1) by (simp add: contigs_wf_def)
qed

lemma add_ref_span: "span (add_ref ds off n) \<le> max (span ds) (off + n)"
proof (induction ds off n rule: add_ref.induct)
  case (2 c ds off n)
  obtain c' ds' where ab: "absorb (off + n) (start_ref off c) ds = (c', ds')" by force
  have "hole_size (start_ref off c) + data_size (start_ref off c) = hole_size c + data_size c"
    if "off \<le> hole_size c + data_size c"
    using that by (simp add: start_ref_def)
  then have "span (extend_ref (off + n) c' ds') \<le> max (span (c # ds)) (off + n)"
    if "off \<le> hole_size c + data_size c"
    using that absorb_total [OF ab] absorb_stops [of "off + n" "start_ref off c" ds c'] ab
    by (fastforce simp: extend_ref_def Let_def split: list.split)
  then show ?case using 2 ab by (auto simp: hole_and_data_def)
qed (simp add: hole_and_data_def)

text \<open>The representation is canonical: two well-formed lists with the same offsets are equal.\<close>

lemma present_first:
  assumes "contigs_wf (c # ds)"
  shows "x \<in> present b (c # ds) \<Longrightarrow> b + hole_size c \<le> x" and "b + hole_size c \<in> present b (c # ds)"
    and "b + hole_size c + data_size c \<notin> present b (c # ds)"
    and "present (b + hole_size c + data_size c) ds = present b (c # ds) \<inter> {b + hole_size c + data_size c..}"
proof -
  show "x \<in> present b (c # ds) \<Longrightarrow> b + hole_size c \<le> x" by (auto dest: present_ge)
  show "b + hole_size c \<in> present b (c # ds)" using assms by (simp add: contigs_wf_def has_data_def)
  show "b + hole_size c + data_size c \<notin> present b (c # ds)"
    using assms by (cases ds) (auto simp: contigs_wf_def has_hole_def dest: present_ge)
  show "present (b + hole_size c + data_size c) ds = present b (c # ds) \<inter> {b + hole_size c + data_size c..}"
    by (auto dest: present_ge)
qed

lemma contigs_wf_Cons: "contigs_wf (c # ds) \<Longrightarrow> contigs_wf ds \<and> list_all has_data ds"
  by (cases ds) (auto simp: contigs_wf_def)

lemma contigs_unique: "contigs_wf ds \<Longrightarrow> contigs_wf es \<Longrightarrow> present b ds = present b es \<Longrightarrow> ds = es"
proof (induction ds arbitrary: es b)
  case Nil
  then show ?case by (cases es) (auto simp: contigs_wf_def has_data_def)
next
  case (Cons c ds)
  then obtain c' es' where es: "es = c' # es'"
    by (cases es) (auto simp: contigs_wf_def has_data_def)
  note f = present_first [OF Cons.prems(1), where b = b]
    and g = present_first [OF Cons.prems(2) [unfolded es], where b = b]
  have h: "hole_size c = hole_size c'"
    using f(1,2) g(1,2) Cons.prems(3) es by (metis add_le_cancel_left antisym)
  have in_first: "b + hole_size c + data_size c \<in> present b (c' # es')" if "data_size c < data_size c'"
    using that h by simp
  have in_second: "b + hole_size c' + data_size c' \<in> present b (c # ds)" if "data_size c' < data_size c"
    using that h by simp
  have d: "data_size c = data_size c'"
    using f(3) g(3) in_first in_second Cons.prems(3) es by (metis linorder_neqE_nat)
  have "ds = es'"
  proof (rule Cons.IH)
    show "contigs_wf ds" "contigs_wf es'" using Cons.prems(1,2) es contigs_wf_Cons by auto
    show "present (b + hole_size c + data_size c) ds = present (b + hole_size c + data_size c) es'"
      using f(4) g(4) h d Cons.prems(3) es by simp
  qed
  with h d show ?case by (simp add: es)
qed

lemma received_unused [simp]: "received (ds @ unused k) = present 0 ds"
  by (simp add: received_def present_append)

lemma span_unused [simp]: "span (unused k) = 0"
  by (simp add: span_def)

lemma wf_data: "contigs_wf ds \<Longrightarrow> list_all has_data ds"
  by (simp add: contigs_wf_def)

text \<open>A well-formed list is the shortest representation of its offsets that an assembler can have.\<close>

lemma inv_length:
  assumes "assembler_inv cs" "contigs_wf ds" "received cs = present 0 ds"
  shows "length ds \<le> length cs"
proof -
  obtain es k where "cs = es @ unused k" "contigs_wf es" using assms(1) by (auto simp: assembler_inv_def)
  then show ?thesis using contigs_unique [of es ds 0] assms by simp
qed

text \<open>C21: adding a range refines set union. When \<open>add\<close> succeeds the assembler keeps its invariant and holds
  exactly the offsets received before together with those of the new range, however the range overlaps
  holes and data. When it fails, no assembler of that length can represent this set, so no
  representable range is ever refused.\<close>

theorem assembler_add_refines:
  assumes "assembler_inv cs" and "span cs < usize_bound" and "off + n < usize_bound"
  shows "case add cs off n of
      Inr cs' \<Rightarrow> assembler_inv cs' \<and> length cs' = length cs \<and>
        received cs' = received cs \<union> {off..<off + n} \<and> span cs' \<le> max (span cs) (off + n)
    | Inl _ \<Rightarrow> \<not> (\<exists>cs'. assembler_inv cs' \<and> length cs' = length cs \<and>
        received cs' = received cs \<union> {off..<off + n})"
proof (cases "n = 0")
  case True
  then show ?thesis using assms(1) by (simp add: add_def)
next
  case False
  obtain ds k where cs: "cs = ds @ unused k" and wf: "contigs_wf ds"
    using assms(1) by (auto simp: assembler_inv_def)
  let ?r = "add_ref ds off n"
  have add: "add cs off n = (if length ?r \<le> length cs then Inr (?r @ unused (length cs - length ?r))
      else Inl TooManyHolesError)"
    using add_spec [OF wf_data [OF wf], of off n k] assms(2,3) False by (simp add: cs)
  have r: "contigs_wf ?r" "present 0 ?r = received cs \<union> {off..<off + n}"
    using add_ref_wf [OF wf False] add_ref_present [of 0 ds off n] by (simp_all add: cs)
  have "?r \<noteq> []"
  proof
    assume "?r = []"
    then show False using r(2) False by auto
  qed
  show ?thesis
  proof (cases "length ?r \<le> length cs")
    case True
    have "span ?r \<le> max (span cs) (off + n)" using add_ref_span [of ds off n] by (simp add: cs)
    then show ?thesis unfolding add using True r \<open>?r \<noteq> []\<close> by (auto simp: assembler_inv_def)
  next
    case False
    then show ?thesis unfolding add using inv_length [OF _ r(1)] r(2) by force
  qed
qed

lemma assembler_add_inv:
  assumes "assembler_inv cs" "span cs < usize_bound" "off + n < usize_bound" "add cs off n = Inr cs'"
  shows "assembler_inv cs'"
proof (cases "n = 0")
  case False
  obtain ds k where cs: "cs = ds @ unused k" "contigs_wf ds"
    using assms(1) unfolding assembler_inv_def by blast
  have "contigs_wf (add_ref ds off n)" by (rule add_ref_wf [OF cs(2) False])
  moreover have "cs' \<noteq> []" using assms(1,4) False cs add_spec [OF wf_data [OF cs(2)], of off n k] assms(2,3)
    by (auto simp: assembler_inv_def split: if_splits)
  ultimately show ?thesis
    using add_spec [OF wf_data [OF cs(2)], of off n k] assms(2-4) False cs(1)
    by (auto simp: assembler_inv_def split: if_splits)
qed (use assms in \<open>simp add: add_def\<close>)

lemma inv_Cons:
  assumes "assembler_inv cs"
  obtains (empty) k where "cs = unused (Suc k)"
    | (used) c ds k where "cs = c # ds @ unused k" "contigs_wf (c # ds)"
proof -
  obtain ds k where cs: "cs = ds @ unused k" "contigs_wf ds" "cs \<noteq> []"
    using assms unfolding assembler_inv_def by blast
  show thesis
  proof (cases ds)
    case Nil
    then obtain j where "k = Suc j" using cs by (cases k) auto
    then show thesis using Nil cs by (intro empty) simp
  next
    case (Cons c es)
    then show thesis using cs by (intro used) auto
  qed
qed

lemma remove_front_correct:
  assumes "assembler_inv cs" "remove_front cs = (k, cs')"
  shows "assembler_inv cs' \<and> length cs' = length cs \<and> k = peek_front cs \<and> {0..<k} \<subseteq> received cs \<and>
    k \<notin> received cs \<and> received cs' = {x. x + k \<in> received cs}"
  using assms(1)
proof (cases rule: inv_Cons)
  case (empty n)
  then show ?thesis using assms
    by (auto simp: remove_front_def front_def has_hole_def peek_front_def received_def)
next
  case (used c ds n)
  have f: "front cs = c" "has_data c" using used by (simp_all add: front_def contigs_wf_def)
  show ?thesis
  proof (cases "has_hole c")
    case True
    have "0 \<notin> present 0 (c # ds)" using True by (auto simp: has_hole_def dest: present_ge)
    then have "0 \<notin> received cs" using received_unused [of "c # ds" n] used(1) by simp
    moreover have "cs' = cs" "k = 0" "peek_front cs = 0"
      using True assms(2) f by (auto simp: remove_front_def peek_front_def)
    ultimately show ?thesis using assms(1) by simp
  next
    case False
    then have h: "hole_size c = 0" by (simp add: has_hole_def)
    note wf = contigs_wf_Cons [OF used(2)]
    have "remove_contig_at cs 0 = ds @ unused (Suc n)"
      using remove_contig_at_spec [OF f(2), of ds "[]" n] wf used(1) by simp
    then have cs': "cs' = ds @ unused (Suc n)" and k: "k = data_size c"
      using assms(2) False f by (auto simp: remove_front_def)
    have "received cs = {0..<k} \<union> (\<lambda>x. x + k) ` present 0 ds"
      using present_shift [of 0 k ds] h k used(1)
      by (simp add: received_def present_append del: present_shift)
    moreover have "k \<notin> present k ds"
      using present_first(3) [OF used(2), of 0] h k by simp
    then have "0 \<notin> present 0 ds" using present_shift [of 0 k ds] by force
    ultimately show ?thesis
      using wf False f used(1) by (auto simp: cs' k assembler_inv_def peek_front_def simp del: replicate_Suc)
  qed
qed

lemma add_at_front_fits:
  assumes "\<not> n < hole_size c" shows "length (add_ref (c # ds) 0 n) \<le> Suc (length ds)"
proof -
  obtain c' ds' where ab: "absorb n (start_ref 0 c) ds = (c', ds')" by force
  then obtain taken where "ds = taken @ ds'" using absorb_suffix by blast
  then show ?thesis using assms ab by simp
qed

text \<open>C23: \<open>add_then_remove_front\<close> agrees with \<open>add\<close> followed by \<open>remove_front\<close> whenever \<open>add\<close> succeeds, and
  never fails for the next expected offset. The front range it removes is the longest received run
  from offset 0, and the remaining offsets are renumbered by its length.\<close>

theorem add_then_remove_front_correct:
  assumes "assembler_inv cs" and "span cs < usize_bound" and "off + n < usize_bound"
  shows "(\<forall>cs'. add cs off n = Inr cs' \<longrightarrow> add_then_remove_front cs off n = Inr (remove_front cs') \<and>
      (\<forall>k cs''. remove_front cs' = (k, cs'') \<longrightarrow> assembler_inv cs'' \<and> {0..<k} \<subseteq> received cs' \<and>
         k \<notin> received cs' \<and> received cs'' = {x. x + k \<in> received cs'})) \<and>
    (off = 0 \<longrightarrow> (\<exists>r. add_then_remove_front cs off n = Inr r))"
proof -
  have inv: "assembler_inv cs'" if "add cs off n = Inr cs'" for cs'
    using assembler_add_inv [OF assms that] .
  have eq: "add_then_remove_front cs off n = Inr (remove_front cs')" if cs': "add cs off n = Inr cs'" for cs'
  proof (cases "off = 0 \<and> n < hole_size (cs ! 0)")
    case False
    then show ?thesis using cs' by (auto simp: add_then_remove_front_def)
  next
    case True
    from assms(1) show ?thesis
    proof (cases rule: inv_Cons)
      case (used c ds k)
      then have c: "off = 0" "n < hole_size c" using True by simp_all
      have sub: "usize_sub (hole_size c) n = hole_size c - n"
        using assms(2) used(1) c by (intro usize_sub_id) auto
      show ?thesis
      proof (cases "n = 0")
        case n: True
        then show ?thesis using cs' c sub used(1)
          by (auto simp: add_then_remove_front_def add_def shrink_hole_by_def remove_front_def front_def has_hole_def)
      next
        case False
        note wf = contigs_wf_Cons [OF used(2)] and d = wf_data [OF used(2)]
        have "add cs off n = (if k = 0 then Inl TooManyHolesError
            else Inr (hole_and_data 0 n # c\<lparr>hole_size := hole_size c - n\<rparr> # ds @ unused (k - 1)))"
          using add_spec [OF d, of 0 n k] assms(2,3) used(1) c False by auto
        then have cs'': "cs' = [] @ hole_and_data 0 n # (c\<lparr>hole_size := hole_size c - n\<rparr> # ds) @ unused (k - 1)"
          and "k \<noteq> 0" using cs' by (auto split: if_splits)
        then have "remove_contig_at cs' 0 = (c\<lparr>hole_size := hole_size c - n\<rparr> # ds) @ unused k"
          using remove_contig_at_spec [of "hole_and_data 0 n" "c\<lparr>hole_size := hole_size c - n\<rparr> # ds" "[]" "k - 1"]
            d False by (simp add: has_data_def hole_and_data_def)
        moreover have "front cs' = hole_and_data 0 n" by (simp add: cs'' front_def)
        ultimately have "remove_front cs' = (n, c\<lparr>hole_size := hole_size c - n\<rparr> # ds @ unused k)"
          using False by (simp add: remove_front_def has_data_def hole_and_data_def has_hole_def)
        then show ?thesis using c sub used(1)
          by (simp add: add_then_remove_front_def shrink_hole_by_def)
      qed
    qed (use True in simp)
  qed
  have "\<exists>r. add_then_remove_front cs off n = Inr r" if off: "off = 0"
  proof (cases "add cs off n")
    case (Inr cs')
    then show ?thesis using eq by blast
  next
    case (Inl err)
    then have n: "n \<noteq> 0" by (auto simp: add_def split: if_splits)
    from assms(1) show ?thesis
    proof (cases rule: inv_Cons)
      case (empty k)
      then show ?thesis using add_spec [of "[]" off n "Suc k"] Inl n assms(3) by simp
    next
      case (used c ds k)
      have "n < hole_size c"
        using add_spec [OF wf_data [OF used(2)], of 0 n k] add_at_front_fits [of n c ds] Inl n assms(2,3) used(1) off
        by (auto split: if_splits)
      then show ?thesis using off used(1) by (simp add: add_then_remove_front_def)
    qed
  qed
  then show ?thesis using eq inv remove_front_correct by blast
qed

lemma iter_unused: "left < usize_bound \<Longrightarrow> iter_data_from fo left (unused k) = []"
  by (induction k) (simp_all add: usize_add_def)

lemma iter_ranges:
  assumes "list_all has_data ds" "left + span ds + fo < usize_bound"
  shows "iter_data_from fo left (ds @ unused k) =
    (case ds of [] \<Rightarrow> [] | c # ds' \<Rightarrow>
       (left + hole_size c + fo, left + hole_size c + data_size c + fo) #
         iter_data_from fo (left + hole_size c + data_size c) (ds' @ unused k))"
  using assms by (auto simp: iter_unused usize_add_def has_data_def Let_def split: list.split)

lemma iter_correct:
  assumes "list_all has_data ds" "list_all has_hole (tl ds)" "left + span ds + fo < usize_bound"
  shows "(\<Union>(l, r)\<in>set (iter_data_from fo left (ds @ unused k)). {l..<r}) = (\<lambda>x. x + fo) ` present left ds \<and>
    list_all (\<lambda>(l, r). l < r \<and> left + (if ds = [] then 0 else hole_size (hd ds)) + fo \<le> l)
      (iter_data_from fo left (ds @ unused k)) \<and>
    sorted_wrt (\<lambda>(_, r) (l, _). r < l) (iter_data_from fo left (ds @ unused k))"
  using assms
proof (induction ds arbitrary: left)
  case Nil
  then show ?case by (simp add: iter_unused)
next
  case (Cons c ds)
  let ?left = "left + hole_size c + data_size c"
  have "list_all has_hole (tl ds)" using Cons.prems(2) by (cases ds) simp_all
  then have IH: "(\<Union>(l, r)\<in>set (iter_data_from fo ?left (ds @ unused k)). {l..<r}) = (\<lambda>x. x + fo) ` present ?left ds"
    "list_all (\<lambda>(l, r). l < r \<and> ?left + (if ds = [] then 0 else hole_size (hd ds)) + fo \<le> l)
      (iter_data_from fo ?left (ds @ unused k))"
    "sorted_wrt (\<lambda>(_, r) (l, _). r < l) (iter_data_from fo ?left (ds @ unused k))"
    using Cons.IH [of ?left] Cons.prems by auto
  have it: "iter_data_from fo left ((c # ds) @ unused k) =
      (left + hole_size c + fo, ?left + fo) # iter_data_from fo ?left (ds @ unused k)"
    using iter_ranges [OF Cons.prems(1,3), of k] by simp
  have img: "{left + hole_size c + fo..<?left + fo} = (\<lambda>x. x + fo) ` {left + hole_size c..<?left}" by simp
  have gap: "?left + fo < l" if "(l, r) \<in> set (iter_data_from fo ?left (ds @ unused k))" for l r
  proof (cases ds)
    case Nil
    then show ?thesis using that Cons.prems(3) by (simp add: iter_unused)
  next
    case (Cons x xs)
    then show ?thesis using that IH(2) Cons.prems(2) by (fastforce simp: list_all_iff has_hole_def)
  qed
  have d: "0 < data_size c" using Cons.prems(1) by (simp add: has_data_def)
  have "(\<Union>(l, r)\<in>set (iter_data_from fo left ((c # ds) @ unused k)). {l..<r})
      = (\<lambda>x. x + fo) ` present left (c # ds)"
    unfolding it by (simp add: IH(1) image_Un)
  moreover have "l < r \<and> left + hole_size c + fo \<le> l" if "(l, r) \<in> set (iter_data_from fo ?left (ds @ unused k))" for l r
    using IH(2) gap [OF that] that by (auto simp: list_all_iff)
  then have "list_all (\<lambda>(l, r). l < r \<and> left + (if c # ds = [] then 0 else hole_size (hd (c # ds))) + fo \<le> l)
      (iter_data_from fo left ((c # ds) @ unused k))"
    unfolding it using d by (auto simp: list_all_iff)
  moreover have "sorted_wrt (\<lambda>(_, r) (l, _). r < l) (iter_data_from fo left ((c # ds) @ unused k))"
    unfolding it using IH(3) gap by auto
  ultimately show ?case by blast
qed

text \<open>C32: \<open>iter_data\<close> yields exactly the received offsets, shifted by the first offset, as a strictly ascending
  sequence of non-empty ranges no two of which touch: the maximal received runs.\<close>

theorem iter_data_correct:
  assumes "assembler_inv cs" and "span cs + first < usize_bound"
  shows "(\<Union>(l, r)\<in>set (iter_data cs first). {l..<r}) = (\<lambda>x. x + first) ` received cs \<and>
    (\<forall>(l, r)\<in>set (iter_data cs first). l < r) \<and> sorted_wrt (\<lambda>(_, r) (l, _). r < l) (iter_data cs first)"
proof -
  obtain ds k where cs: "cs = ds @ unused k" "contigs_wf ds"
    using assms(1) unfolding assembler_inv_def by blast
  have "list_all has_data ds" "list_all has_hole (tl ds)" "0 + span ds + first < usize_bound"
    using cs assms(2) by (simp_all add: contigs_wf_def)
  from iter_correct [OF this, of k] show ?thesis
    by (auto simp: cs(1) iter_data_def list_all_iff)
qed

section \<open>Concrete instances\<close>

text \<open>Two separate ranges in an array of three contigs.\<close>

definition demo_assembler :: assembler where
  "demo_assembler = [hole_and_data 2 3, hole_and_data 4 1, contig_empty]"

lemma demo_assembler_inv: "assembler_inv demo_assembler" "span demo_assembler = 10"
proof -
  have "demo_assembler = [hole_and_data 2 3, hole_and_data 4 1] @ unused 1" by (simp add: demo_assembler_def)
  moreover have "contigs_wf [hole_and_data 2 3, hole_and_data 4 1]"
    by (simp add: contigs_wf_def has_data_def hole_and_data_def has_hole_def)
  moreover have "demo_assembler \<noteq> []" by (simp add: demo_assembler_def)
  ultimately show "assembler_inv demo_assembler" unfolding assembler_inv_def by blast
  show "span demo_assembler = 10" by (simp add: demo_assembler_def hole_and_data_def contig_empty_def)
qed

theorem assembler_add_refines_witness:
  "\<exists>cs'. add demo_assembler 4 3 = Inr cs' \<and> received cs' = received demo_assembler \<union> {4..<7}"
proof -
  have "demo_assembler = [hole_and_data 2 3, hole_and_data 4 1] @ unused 1" by (simp add: demo_assembler_def)
  then obtain cs' where "add demo_assembler 4 3 = Inr cs'"
    using add_spec [of "[hole_and_data 2 3, hole_and_data 4 1]" 4 3 1]
    by (simp add: has_data_def hole_and_data_def usize_bound_def start_ref_def)
  then show ?thesis
    using assembler_add_refines [OF demo_assembler_inv(1), of 4 3] demo_assembler_inv(2)
    by (simp add: usize_bound_def)
qed

theorem add_then_remove_front_correct_witness:
  "\<exists>r. add_then_remove_front demo_assembler 0 1 = Inr r"
  using add_then_remove_front_correct [OF demo_assembler_inv(1), of 0 1] demo_assembler_inv(2)
  by (simp add: usize_bound_def)

theorem iter_data_correct_witness:
  "(\<Union>(l, r)\<in>set (iter_data demo_assembler 7). {l..<r}) = (\<lambda>x. x + 7) ` received demo_assembler"
  using iter_data_correct [OF demo_assembler_inv(1), of 7] demo_assembler_inv(2)
  by (simp add: usize_bound_def)

end
