(* ===== verification/Ring_Buffer.thy ===== *)
theory Ring_Buffer
  imports Prelude
begin

text \<open>
  The ring buffer of the TCP/IP stack (\<open>crates/smoltcp/src/storage/ring_buffer.rs\<close>). The storage is a
  list of fixed length; a closure over a mutable element or slice is a function that returns the new
  element or slice with its result; a panic is \<open>None\<close>. Abstractly the buffer is the list of its
  elements in queue order, followed by the free cells.
\<close>

section \<open>The buffer\<close>

record 'a ring_buffer =
  storage :: "'a list"
  read_at :: usize
  rb_len :: usize

datatype full = Full
datatype empty = Empty

definition rb_new :: "'a list \<Rightarrow> 'a ring_buffer" where
  "rb_new st = \<lparr>storage = st, read_at = 0, rb_len = 0\<rparr>"

definition rb_clear :: "'a ring_buffer \<Rightarrow> 'a ring_buffer" where
  "rb_clear rb = rb\<lparr>read_at := 0, rb_len := 0\<rparr>"

definition capacity :: "'a ring_buffer \<Rightarrow> usize" where
  "capacity rb = length (storage rb)"

definition rb_reset :: "('a \<Rightarrow> 'a) \<Rightarrow> 'a ring_buffer \<Rightarrow> 'a ring_buffer" where
  "rb_reset reset_elem rb = (rb_clear rb)\<lparr>storage := map reset_elem (storage rb)\<rparr>"

definition window :: "'a ring_buffer \<Rightarrow> usize" where
  "window rb = usize_sub (capacity rb) (rb_len rb)"

definition get_idx :: "'a ring_buffer \<Rightarrow> usize \<Rightarrow> usize" where
  "get_idx rb idx = (if capacity rb > 0 then usize_add (read_at rb) idx mod capacity rb else 0)"

definition contiguous_window :: "'a ring_buffer \<Rightarrow> usize" where
  "contiguous_window rb = min (window rb) (usize_sub (capacity rb) (get_idx rb (rb_len rb)))"

definition rb_is_empty :: "'a ring_buffer \<Rightarrow> bool" where
  "rb_is_empty rb \<longleftrightarrow> rb_len rb = 0"

definition rb_is_full :: "'a ring_buffer \<Rightarrow> bool" where
  "rb_is_full rb \<longleftrightarrow> window rb = 0"

definition get_idx_unchecked :: "'a ring_buffer \<Rightarrow> usize \<Rightarrow> usize" where
  "get_idx_unchecked rb idx = usize_add (read_at rb) idx mod capacity rb"

section \<open>Single elements\<close>

definition enqueue_one_with ::
    "('a \<Rightarrow> 'a \<times> ('e + 'r)) \<Rightarrow> 'a ring_buffer \<Rightarrow> full + (('e + 'r) \<times> 'a ring_buffer)" where
  "enqueue_one_with f rb =
     (if rb_is_full rb then Inl Full
      else let index = get_idx_unchecked rb (rb_len rb);
               (x, res) = f (storage rb ! index);
               rb1 = rb\<lparr>storage := (storage rb)[index := x]\<rparr>
           in Inr (res, if is_ok res then rb1\<lparr>rb_len := usize_add (rb_len rb1) 1\<rparr> else rb1))"

text \<open>\<open>enqueue_one\<close> returns a reference to the new cell; every caller assigns a value through it, which
  is the argument here.\<close>

definition enqueue_one :: "'a \<Rightarrow> 'a ring_buffer \<Rightarrow> full + 'a ring_buffer" where
  "enqueue_one v rb = rbind (enqueue_one_with (\<lambda>_. (v, Inr () :: unit + unit)) rb) (\<lambda>(_, rb'). Inr rb')"

definition dequeue_one_with ::
    "('a \<Rightarrow> 'a \<times> ('e + 'r)) \<Rightarrow> 'a ring_buffer \<Rightarrow> empty + (('e + 'r) \<times> 'a ring_buffer)" where
  "dequeue_one_with f rb =
     (if rb_is_empty rb then Inl Empty
      else let next_at = get_idx_unchecked rb 1;
               (x, res) = f (storage rb ! read_at rb);
               rb1 = rb\<lparr>storage := (storage rb)[read_at rb := x]\<rparr>
           in Inr (res, if is_ok res then rb1\<lparr>rb_len := usize_sub (rb_len rb1) 1, read_at := next_at\<rparr> else rb1))"

definition dequeue_one :: "'a ring_buffer \<Rightarrow> empty + ('a \<times> 'a ring_buffer)" where
  "dequeue_one rb = rbind (dequeue_one_with (\<lambda>x. (x, Inr x :: unit + 'a)) rb)
     (\<lambda>(r, rb'). case r of Inr x \<Rightarrow> Inr (x, rb') | Inl _ \<Rightarrow> Inl Empty)"

section \<open>Slices\<close>

definition write_slice :: "'a list \<Rightarrow> usize \<Rightarrow> 'a list \<Rightarrow> 'a list" where
  "write_slice st at ys = take at st @ ys @ drop (at + length ys) st"

definition read_slice :: "'a list \<Rightarrow> usize \<Rightarrow> usize \<Rightarrow> 'a list" where
  "read_slice st at n = take n (drop at st)"

definition enqueue_many_with ::
    "('a list \<Rightarrow> 'a list \<times> usize \<times> 'r) \<Rightarrow> 'a ring_buffer \<Rightarrow> (usize \<times> 'r \<times> 'a ring_buffer) option" where
  "enqueue_many_with f rb =
     (let rb1 = (if rb_len rb = 0 then rb\<lparr>read_at := 0\<rparr> else rb);
          write_at = get_idx rb1 (rb_len rb1);
          max_size = contiguous_window rb1;
          (slice, sz, result) = f (read_slice (storage rb1) write_at max_size)
      in if sz \<le> max_size
         then Some (sz, result, rb1\<lparr>storage := write_slice (storage rb1) write_at slice,
                                    rb_len := usize_add (rb_len rb1) sz\<rparr>)
         else None)"

text \<open>The slice \<open>enqueue_many\<close> returns is written by the caller; the model returns its length.\<close>

definition enqueue_many :: "usize \<Rightarrow> 'a ring_buffer \<Rightarrow> (usize \<times> 'a ring_buffer) option" where
  "enqueue_many sz rb = map_option (\<lambda>(n, _, rb'). (n, rb'))
     (enqueue_many_with (\<lambda>buf. (buf, min sz (length buf), ())) rb)"

definition copy_in :: "'a list \<Rightarrow> 'a list \<Rightarrow> 'a list \<times> usize \<times> 'a list" where
  "copy_in data buf = (let n = min (length buf) (length data) in (take n data @ drop n buf, n, drop n data))"

definition enqueue_slice :: "'a list \<Rightarrow> 'a ring_buffer \<Rightarrow> (usize \<times> 'a ring_buffer) option" where
  "enqueue_slice data rb =
     Option.bind (enqueue_many_with (copy_in data) rb) (\<lambda>(size_1, data', rb1).
       Option.bind (enqueue_many_with (copy_in data') rb1) (\<lambda>(size_2, _, rb2).
         Some (usize_add size_1 size_2, rb2)))"

definition dequeue_many_with ::
    "('a list \<Rightarrow> 'a list \<times> usize \<times> 'r) \<Rightarrow> 'a ring_buffer \<Rightarrow> (usize \<times> 'r \<times> 'a ring_buffer) option" where
  "dequeue_many_with f rb =
     (let max_size = min (rb_len rb) (usize_sub (capacity rb) (read_at rb));
          (slice, sz, result) = f (read_slice (storage rb) (read_at rb) max_size)
      in if sz \<le> max_size
         then Some (sz, result, rb\<lparr>storage := write_slice (storage rb) (read_at rb) slice,
                read_at := (if capacity rb > 0 then usize_add (read_at rb) sz mod capacity rb else 0),
                rb_len := usize_sub (rb_len rb) sz\<rparr>)
         else None)"

definition dequeue_many :: "usize \<Rightarrow> 'a ring_buffer \<Rightarrow> ('a list \<times> 'a ring_buffer) option" where
  "dequeue_many sz rb = map_option (\<lambda>(_, r, rb'). (r, rb'))
     (dequeue_many_with (\<lambda>buf. (buf, min sz (length buf), take (min sz (length buf)) buf)) rb)"

text \<open>\<open>dequeue_slice\<close> into a slice of length \<open>n\<close>; the elements copied out are returned.\<close>

definition copy_out :: "usize \<Rightarrow> 'a list \<Rightarrow> 'a list \<times> usize \<times> 'a list" where
  "copy_out n buf = (let m = min (length buf) n in (buf, m, take m buf))"

definition dequeue_slice :: "usize \<Rightarrow> 'a ring_buffer \<Rightarrow> (usize \<times> 'a list \<times> 'a ring_buffer) option" where
  "dequeue_slice n rb =
     Option.bind (dequeue_many_with (copy_out n) rb) (\<lambda>(size_1, out_1, rb1).
       Option.bind (dequeue_many_with (copy_out (n - size_1)) rb1) (\<lambda>(size_2, out_2, rb2).
         Some (usize_add size_1 size_2, out_1 @ out_2, rb2)))"

section \<open>Random access\<close>

text \<open>Start and length of the slice that \<open>get_unallocated\<close> returns; \<open>None\<close> is the empty slice.\<close>

definition get_unallocated :: "'a ring_buffer \<Rightarrow> usize \<Rightarrow> usize \<Rightarrow> (usize \<times> usize) option" where
  "get_unallocated rb offset sz =
     (let start_at = get_idx rb (usize_add (rb_len rb) offset) in
      if offset > window rb then None
      else let clamped_window = usize_sub (window rb) offset;
               until_end = usize_sub (capacity rb) start_at
           in Some (start_at, min (min sz clamped_window) until_end))"

definition write_at_offset :: "usize \<Rightarrow> 'a list \<Rightarrow> 'a ring_buffer \<Rightarrow> usize \<times> 'a ring_buffer" where
  "write_at_offset offset data rb =
     (case get_unallocated rb offset (length data) of
        None \<Rightarrow> (0, rb)
      | Some (at, n) \<Rightarrow> (n, rb\<lparr>storage := write_slice (storage rb) at (take n data)\<rparr>))"

definition write_unallocated :: "usize \<Rightarrow> 'a list \<Rightarrow> 'a ring_buffer \<Rightarrow> usize \<times> 'a ring_buffer" where
  "write_unallocated offset data rb =
     (let (size_1, rb1) = write_at_offset offset data rb;
          (size_2, rb2) = write_at_offset (usize_add offset size_1) (drop size_1 data) rb1
      in (usize_add size_1 size_2, rb2))"

definition enqueue_unallocated :: "usize \<Rightarrow> 'a ring_buffer \<Rightarrow> 'a ring_buffer option" where
  "enqueue_unallocated cnt rb =
     (if cnt \<le> window rb then Some (rb\<lparr>rb_len := usize_add (rb_len rb) cnt\<rparr>) else None)"

definition get_allocated :: "'a ring_buffer \<Rightarrow> usize \<Rightarrow> usize \<Rightarrow> 'a list" where
  "get_allocated rb offset sz =
     (let start_at = get_idx rb offset in
      if offset > rb_len rb then []
      else let clamped_length = usize_sub (rb_len rb) offset;
               until_end = usize_sub (capacity rb) start_at
           in read_slice (storage rb) start_at (min (min sz clamped_length) until_end))"

text \<open>\<open>read_allocated\<close> into a slice of length \<open>n\<close>; the elements copied out are returned.\<close>

definition read_allocated :: "usize \<Rightarrow> usize \<Rightarrow> 'a ring_buffer \<Rightarrow> usize \<times> 'a list" where
  "read_allocated offset n rb =
     (let s1 = get_allocated rb offset n;
          s2 = get_allocated rb (usize_add offset (length s1)) (n - length s1)
      in (usize_add (length s1) (length s2), s1 @ s2))"

definition dequeue_allocated :: "usize \<Rightarrow> 'a ring_buffer \<Rightarrow> 'a ring_buffer option" where
  "dequeue_allocated cnt rb =
     (if cnt \<le> rb_len rb
      then Some (rb\<lparr>rb_len := usize_sub (rb_len rb) cnt, read_at := get_idx rb cnt\<rparr>) else None)"

section \<open>Queue view\<close>

text \<open>A slice of the language is at most half the address space, so indices do not wrap around.\<close>

definition rb_inv :: "'a ring_buffer \<Rightarrow> bool" where
  "rb_inv rb \<longleftrightarrow> rb_len rb \<le> capacity rb \<and> read_at rb \<le> capacity rb - 1 \<and> 2 * capacity rb \<le> usize_bound"

definition view :: "'a ring_buffer \<Rightarrow> 'a list" where
  "view rb = rotate (read_at rb) (storage rb)"

definition contents :: "'a ring_buffer \<Rightarrow> 'a list" where
  "contents rb = take (rb_len rb) (view rb)"

definition free_cells :: "'a ring_buffer \<Rightarrow> 'a list" where
  "free_cells rb = drop (rb_len rb) (view rb)"

lemma length_view [simp]: "length (view rb) = capacity rb"
  by (simp add: view_def capacity_def)

lemma rb_inv_len: "rb_inv rb \<Longrightarrow> rb_len rb \<le> capacity rb"
  by (simp add: rb_inv_def)

lemma rb_inv_cap: "rb_inv rb \<Longrightarrow> capacity rb < usize_bound"
  by (auto simp: rb_inv_def usize_bound_def)

lemma length_contents: "rb_inv rb \<Longrightarrow> length (contents rb) = rb_len rb"
  by (simp add: contents_def rb_inv_def)

lemma length_free_cells [simp]: "length (free_cells rb) = capacity rb - rb_len rb"
  by (simp add: free_cells_def)

lemma window_eq: "rb_inv rb \<Longrightarrow> window rb = capacity rb - rb_len rb"
  by (simp add: window_def rb_inv_def usize_sub_id usize_bound_def)

lemma get_idx_eq:
  assumes "rb_inv rb" "p \<le> capacity rb"
  shows "get_idx rb p = (read_at rb + p) mod capacity rb" and "get_idx rb p \<le> capacity rb"
    and "0 < capacity rb \<Longrightarrow> get_idx rb p < capacity rb"
proof -
  have "read_at rb + p < usize_bound \<or> capacity rb = 0" using assms by (auto simp: rb_inv_def)
  then show eq: "get_idx rb p = (read_at rb + p) mod capacity rb"
    using assms by (auto simp: get_idx_def usize_add_def rb_inv_def)
  show "get_idx rb p \<le> capacity rb" "0 < capacity rb \<Longrightarrow> get_idx rb p < capacity rb"
    unfolding eq using assms by (cases "capacity rb") (auto simp: rb_inv_def intro: less_imp_le)
qed

lemma mod_add_inj:
  fixes a b c r :: nat
  assumes "a < c" "b < c" "(r + a) mod c = (r + b) mod c"
  shows "a = b"
proof -
  have "(int r + int a) mod int c = (int r + int b) mod int c"
    using assms(3) by (metis of_nat_add of_nat_mod)
  then have "int a mod int c = int b mod int c" by (simp add: mod_eq_dvd_iff)
  then show ?thesis using assms(1,2) by simp
qed

lemma mod_shift:
  fixes r p c w k :: nat
  assumes "(r + p) mod c = w" "w + k < c"
  shows "(r + (p + k)) mod c = w + k"
proof -
  have "(r + (p + k)) mod c = ((r + p) mod c + k) mod c" by (simp add: mod_add_left_eq add.assoc)
  then show ?thesis using assms by simp
qed

lemma nth_view: "i < capacity rb \<Longrightarrow> view rb ! i = storage rb ! ((read_at rb + i) mod capacity rb)"
  by (simp add: view_def nth_rotate capacity_def)

lemma read_slice_view:
  assumes "rb_inv rb" "p + n \<le> capacity rb" "get_idx rb p + n \<le> capacity rb"
  shows "read_slice (storage rb) (get_idx rb p) n = take n (drop p (view rb))"
proof (rule nth_equalityI)
  show "length (read_slice (storage rb) (get_idx rb p) n) = length (take n (drop p (view rb)))"
    using assms by (simp add: read_slice_def capacity_def)
next
  fix i
  assume "i < length (read_slice (storage rb) (get_idx rb p) n)"
  then have i: "i < n" "get_idx rb p + i < capacity rb"
    using assms(3) by (auto simp: read_slice_def capacity_def)
  then have "(read_at rb + (p + i)) mod capacity rb = get_idx rb p + i"
    using get_idx_eq(1) [OF assms(1), of p] assms(2) by (intro mod_shift) simp_all
  then show "read_slice (storage rb) (get_idx rb p) n ! i = take n (drop p (view rb)) ! i"
    using i assms(2,3) by (simp add: read_slice_def nth_view capacity_def [symmetric])
qed

lemma length_write_slice: "at + length ys \<le> length st \<Longrightarrow> length (write_slice st at ys) = length st"
  by (simp add: write_slice_def)

lemma write_slice_view:
  assumes "rb_inv rb" "p + length ys \<le> capacity rb" "get_idx rb p + length ys \<le> capacity rb"
  shows "view (rb\<lparr>storage := write_slice (storage rb) (get_idx rb p) ys\<rparr>) =
    take p (view rb) @ ys @ drop (p + length ys) (view rb)"
proof -
  let ?w = "get_idx rb p" and ?c = "capacity rb" and ?n = "length ys"
  let ?rb = "rb\<lparr>storage := write_slice (storage rb) ?w ys\<rparr>"
  have c: "capacity ?rb = ?c" using assms(3) by (simp add: capacity_def length_write_slice)
  have w: "?w = (read_at rb + p) mod ?c" using get_idx_eq(1) [OF assms(1)] assms(2) by simp
  show ?thesis
  proof (rule nth_equalityI)
    show "length (view ?rb) = length (take p (view rb) @ ys @ drop (p + ?n) (view rb))" using assms(2) c by simp
  next
    fix i
    assume "i < length (view ?rb)"
    then have i: "i < ?c" using c by simp
    let ?j = "(read_at rb + i) mod ?c"
    have j: "?j < ?c" using i by simp
    have lhs: "view ?rb ! i = write_slice (storage rb) ?w ys ! ?j" using nth_view [of i ?rb] i c by simp
    show "view ?rb ! i = (take p (view rb) @ ys @ drop (p + ?n) (view rb)) ! i"
    proof (cases "p \<le> i \<and> i < p + ?n")
      case True
      then have "?w + (i - p) < ?c" using assms(3) by linarith
      from mod_shift [OF w [symmetric] this] have "?j = ?w + (i - p)" using True by simp
      then show ?thesis using True assms(2,3) lhs by (auto simp: write_slice_def nth_append capacity_def)
    next
      case False
      have "\<not> (?w \<le> ?j \<and> ?j < ?w + ?n)"
      proof
        assume a: "?w \<le> ?j \<and> ?j < ?w + ?n"
        then have "(read_at rb + (p + (?j - ?w))) mod ?c = ?j"
          using mod_shift [of "read_at rb" p ?c ?w "?j - ?w"] w j by simp
        then have "p + (?j - ?w) = i"
          using mod_add_inj [of "p + (?j - ?w)" ?c i "read_at rb"] a i assms(2) by auto
        then show False using False a by auto
      qed
      then have "write_slice (storage rb) ?w ys ! ?j = storage rb ! ?j"
        using j assms(3) by (auto simp: write_slice_def nth_append capacity_def)
      then show ?thesis using False lhs i nth_view [OF i] assms(2) by (auto simp: nth_append)
    qed
  qed
qed

section \<open>Operations on the queue view\<close>

definition norm_read :: "'a ring_buffer \<Rightarrow> 'a ring_buffer" where
  "norm_read rb = (if rb_len rb = 0 then rb\<lparr>read_at := 0\<rparr> else rb)"

lemma norm_read:
  assumes "rb_inv rb"
  shows "rb_inv (norm_read rb)" "contents (norm_read rb) = contents rb" "capacity (norm_read rb) = capacity rb"
    "rb_len (norm_read rb) = rb_len rb" "storage (norm_read rb) = storage rb"
  using assms by (auto simp: norm_read_def rb_inv_def contents_def capacity_def)

lemma contiguous_window_eq:
  assumes "rb_inv rb"
  shows "contiguous_window rb = min (capacity rb - rb_len rb) (capacity rb - get_idx rb (rb_len rb))"
proof -
  have "capacity rb < usize_bound" using assms by (auto simp: rb_inv_def usize_bound_def)
  then show ?thesis
    using assms get_idx_eq(2) [OF assms rb_inv_len [OF assms]]
    by (simp add: contiguous_window_def window_eq usize_sub_id)
qed

text \<open>Advancing the length over freshly written cells.\<close>

lemma write_extends:
  assumes "rb_inv rb" "m \<le> contiguous_window rb" "length ys = contiguous_window rb"
  defines "rb' \<equiv> rb\<lparr>storage := write_slice (storage rb) (get_idx rb (rb_len rb)) ys, rb_len := usize_add (rb_len rb) m\<rparr>"
  shows "rb_inv rb'" "capacity rb' = capacity rb" "rb_len rb' = rb_len rb + m"
    "contents rb' = contents rb @ take m ys" "read_at rb' = read_at rb"
proof -
  let ?w = "get_idx rb (rb_len rb)"
  note cw = contiguous_window_eq [OF assms(1)]
  have fit: "rb_len rb + length ys \<le> capacity rb" "?w + length ys \<le> capacity rb"
  proof -
    have "length ys \<le> capacity rb - rb_len rb" "length ys \<le> capacity rb - ?w"
      unfolding assms(3) cw by simp_all
    moreover have "rb_len rb \<le> capacity rb" by (rule rb_inv_len [OF assms(1)])
    moreover from this have "?w \<le> capacity rb" by (rule get_idx_eq(2) [OF assms(1)])
    ultimately show "rb_len rb + length ys \<le> capacity rb" "?w + length ys \<le> capacity rb" by linarith+
  qed
  have len: "usize_add (rb_len rb) m = rb_len rb + m"
    using assms fit by (simp add: usize_add_def rb_inv_def usize_bound_def)
  show cap: "capacity rb' = capacity rb" using fit(2) by (simp add: rb'_def capacity_def length_write_slice)
  show rl: "rb_len rb' = rb_len rb + m" by (simp add: rb'_def len)
  show "read_at rb' = read_at rb" by (simp add: rb'_def)
  then show "rb_inv rb'" using assms(1,2,3) fit cap rl by (auto simp: rb_inv_def)
  have v: "view rb' = take (rb_len rb) (view rb) @ ys @ drop (rb_len rb + length ys) (view rb)"
    using write_slice_view [OF assms(1) fit] by (simp add: rb'_def view_def)
  show "contents rb' = contents rb @ take m ys"
    using assms(2,3) rb_inv_len [OF assms(1)] fit by (simp add: contents_def rl v)
qed

lemma enqueue_many_gen:
  assumes "rb_inv rb" and cw: "cw = contiguous_window (norm_read rb)"
    and f: "f (read_slice (storage rb) (get_idx (norm_read rb) (rb_len rb)) cw) = (ys, m, r)"
    and ys: "length ys = cw" "m \<le> cw"
  shows "\<exists>rb'. enqueue_many_with f rb = Some (m, r, rb') \<and> rb_inv rb' \<and>
    capacity rb' = capacity rb \<and> rb_len rb' = rb_len rb + m \<and> contents rb' = contents rb @ take m ys \<and>
    read_at rb' = read_at (norm_read rb)"
proof -
  let ?rb = "norm_read rb" and ?w = "get_idx (norm_read rb) (rb_len rb)"
  note n = norm_read [OF assms(1)]
  let ?rb' = "?rb\<lparr>storage := write_slice (storage ?rb) ?w ys, rb_len := usize_add (rb_len ?rb) m\<rparr>"
  have "enqueue_many_with f rb = Some (m, r, ?rb')"
    using f ys(2) n(4,5) by (simp add: enqueue_many_with_def norm_read_def [symmetric] cw Let_def)
  moreover note write_extends [OF n(1) ys(2) [unfolded cw] ys(1) [unfolded cw]]
  ultimately show ?thesis using n by auto
qed

lemma length_free_slice:
  assumes "rb_inv rb" "cw = contiguous_window (norm_read rb)"
  shows "length (read_slice (storage rb) (get_idx (norm_read rb) (rb_len rb)) cw) = cw"
  using contiguous_window_eq [OF norm_read(1) [OF assms(1)]] norm_read [OF assms(1)] assms(2)
    get_idx_eq(2) [OF norm_read(1) [OF assms(1)], of "rb_len rb"] rb_inv_len [OF assms(1)]
  by (simp add: read_slice_def capacity_def)

lemma enqueue_many_copy:
  fixes data :: "'a list"
  assumes "rb_inv rb"
  defines "m \<equiv> min (contiguous_window (norm_read rb)) (length data)"
  shows "\<exists>rb'. enqueue_many_with (copy_in data) rb = Some (m, drop m data, rb') \<and> rb_inv rb' \<and>
    capacity rb' = capacity rb \<and> rb_len rb' = rb_len rb + m \<and> contents rb' = contents rb @ take m data \<and>
    read_at rb' = read_at (norm_read rb)"
proof -
  let ?buf = "read_slice (storage rb) (get_idx (norm_read rb) (rb_len rb)) (contiguous_window (norm_read rb))"
  have buf: "length ?buf = contiguous_window (norm_read rb)" by (rule length_free_slice [OF assms(1) refl])
  have f: "copy_in data ?buf = (take m data @ drop m ?buf, m, drop m data)"
    unfolding copy_in_def Let_def m_def buf ..
  have m: "m \<le> contiguous_window (norm_read rb)" "m \<le> length data" unfolding m_def by simp_all
  have "length (take m data @ drop m ?buf) = contiguous_window (norm_read rb)" using buf m by simp
  from enqueue_many_gen [where f = "copy_in data", OF assms(1) refl f this m(1)] show ?thesis using m by simp
qed

text \<open>After a slice that stops at the end of the storage the rest of the free cells is contiguous.\<close>

lemma second_window:
  assumes "rb_inv rb" "rb_inv rb'" "capacity rb' = capacity rb" "read_at rb' = read_at (norm_read rb)"
    "rb_len rb' = rb_len rb + contiguous_window (norm_read rb)"
  shows "contiguous_window (norm_read rb') = capacity rb' - rb_len rb'"
proof (cases "capacity rb = 0 \<or> rb_len rb' = capacity rb'")
  case True
  then show ?thesis
    using assms(3) contiguous_window_eq [OF norm_read(1) [OF assms(2)]] norm_read(3,4) [OF assms(2)] by auto
next
  case False
  let ?rb = "norm_read rb" and ?w = "get_idx (norm_read rb) (rb_len rb)"
  note n = norm_read [OF assms(1)] and n' = norm_read [OF assms(2)]
  have cw: "contiguous_window ?rb = min (capacity rb - rb_len rb) (capacity rb - ?w)"
    using contiguous_window_eq [OF n(1)] n(3,4) by simp
  have w: "?w < capacity rb" "(read_at ?rb + rb_len rb) mod capacity rb = ?w"
    using get_idx_eq [OF n(1), of "rb_len rb"] n(3) rb_inv_len [OF assms(1)] False by auto
  have "rb_len rb' \<le> capacity rb" "rb_len rb' \<noteq> capacity rb" using rb_inv_len [OF assms(2)] assms(3) False by auto
  then have stop: "contiguous_window ?rb = capacity rb - ?w" using cw assms(5) by linarith
  have "0 < rb_len rb'" using stop w assms(5) by simp
  then have "norm_read rb' = rb'" by (simp add: norm_read_def)
  moreover have "get_idx rb' (rb_len rb') = ((read_at ?rb + rb_len rb) mod capacity rb + (capacity rb - ?w)) mod capacity rb"
    using get_idx_eq(1) [OF assms(2) rb_inv_len [OF assms(2)]] assms(3,4,5) stop
    by (simp add: mod_add_left_eq add.assoc)
  then have "get_idx rb' (rb_len rb') = 0" using w by simp
  ultimately show ?thesis using contiguous_window_eq [OF assms(2)] by simp
qed

lemma enqueue_slice_spec:
  fixes data :: "'a list"
  assumes "rb_inv rb"
  defines "n \<equiv> min (capacity rb - rb_len rb) (length data)"
  shows "\<exists>rb'. enqueue_slice data rb = Some (n, rb') \<and> rb_inv rb' \<and> capacity rb' = capacity rb \<and>
    contents rb' = contents rb @ take n data"
proof -
  let ?m = "min (contiguous_window (norm_read rb)) (length data)"
  obtain rb1 where r1: "enqueue_many_with (copy_in data) rb = Some (?m, drop ?m data, rb1)" "rb_inv rb1"
    "capacity rb1 = capacity rb" "rb_len rb1 = rb_len rb + ?m" "contents rb1 = contents rb @ take ?m data"
    "read_at rb1 = read_at (norm_read rb)"
    using enqueue_many_copy [OF assms(1), of data] by auto
  let ?k = "min (contiguous_window (norm_read rb1)) (length (drop ?m data))"
  obtain rb2 where r2: "enqueue_many_with (copy_in (drop ?m data)) rb1 = Some (?k, drop ?k (drop ?m data), rb2)"
    "rb_inv rb2" "capacity rb2 = capacity rb1" "contents rb2 = contents rb1 @ take ?k (drop ?m data)"
    using enqueue_many_copy [OF r1(2), of "drop ?m data"] by auto
  have le: "contiguous_window (norm_read rb) \<le> capacity rb - rb_len rb"
    using contiguous_window_eq [OF norm_read(1) [OF assms(1)]] norm_read(3,4) [OF assms(1)] by simp
  have mk: "?m + ?k = n"
  proof (cases "contiguous_window (norm_read rb) < length data")
    case True
    then have "contiguous_window (norm_read rb1) = capacity rb1 - rb_len rb1"
      using second_window [OF assms(1) r1(2,3,6)] r1(4) by simp
    then show ?thesis using True r1(3,4) le by (auto simp: n_def min_def)
  next
    case False
    then show ?thesis using le by (auto simp: n_def min_def)
  qed
  have "n \<le> capacity rb" by (simp add: n_def)
  then have "n < usize_bound" using rb_inv_cap [OF assms(1)] by linarith
  then have "usize_add ?m ?k = ?m + ?k" using mk by (simp add: usize_add_def)
  moreover have "take ?m data @ take ?k (drop ?m data) = take n data" unfolding mk [symmetric] by (simp add: take_add)
  ultimately show ?thesis using r1 r2 mk by (simp add: enqueue_slice_def)
qed

lemma write_back:
  assumes "at + n \<le> length st" shows "write_slice st at (read_slice st at n) = st"
proof -
  have "length (take n (drop at st)) = n" using assms by simp
  moreover have "take at st @ take n (drop at st) = take (at + n) st" by (simp add: take_add)
  ultimately have "write_slice st at (read_slice st at n) = take (at + n) st @ drop (at + n) st"
    unfolding write_slice_def read_slice_def by (metis append_assoc)
  then show ?thesis by simp
qed

lemma dequeue_view:
  assumes "rb_inv rb" "m \<le> rb_len rb"
    "rb' = rb\<lparr>read_at := (if capacity rb > 0 then usize_add (read_at rb) m mod capacity rb else 0),
      rb_len := usize_sub (rb_len rb) m\<rparr>"
  shows "rb_inv rb'" "capacity rb' = capacity rb" "rb_len rb' = rb_len rb - m" "contents rb' = drop m (contents rb)"
    "0 < capacity rb \<Longrightarrow> read_at rb' = (read_at rb + m) mod capacity rb"
proof -
  have len: "usize_sub (rb_len rb) m = rb_len rb - m"
    using assms(1,2) by (intro usize_sub_id) (auto simp: rb_inv_def usize_bound_def)
  show cap: "capacity rb' = capacity rb" and rl: "rb_len rb' = rb_len rb - m"
    by (simp_all add: assms(3) capacity_def len)
  have ra: "read_at rb' = (read_at rb + m) mod capacity rb" if "0 < capacity rb"
  proof -
    have "read_at rb + m < usize_bound" using assms(1,2) that by (auto simp: rb_inv_def)
    then show ?thesis using that by (simp add: assms(3) usize_add_def)
  qed
  then show "0 < capacity rb \<Longrightarrow> read_at rb' = (read_at rb + m) mod capacity rb" .
  show "rb_inv rb'"
  proof (cases "capacity rb")
    case 0
    then show ?thesis using assms(1,3) cap rl by (simp add: rb_inv_def)
  next
    case (Suc k)
    then have "read_at rb' < capacity rb" using ra by simp
    then show ?thesis using assms(1) cap rl by (auto simp: rb_inv_def)
  qed
  show "contents rb' = drop m (contents rb)"
  proof (cases "capacity rb")
    case 0
    then have "rb_len rb = 0" using assms(1) by (simp add: rb_inv_def)
    then show ?thesis using rl by (simp add: contents_def)
  next
    case (Suc k)
    have "view rb' = rotate ((read_at rb + m) mod capacity rb) (storage rb)"
      using ra Suc by (simp add: view_def assms(3))
    also have "\<dots> = rotate m (view rb)"
      by (simp add: view_def rotate_rotate capacity_def rotate_conv_mod [symmetric] add.commute)
    finally have v: "view rb' = rotate m (view rb)" .
    show ?thesis
    proof (cases "m = capacity rb")
      case True
      then show ?thesis using assms(1,2) rl by (simp add: contents_def rb_inv_def)
    next
      case False
      then have "m < capacity rb" using assms(1,2) by (simp add: rb_inv_def)
      then show ?thesis using assms(1,2) rl v by (simp add: contents_def rotate_drop_take drop_take rb_inv_def)
    qed
  qed
qed

lemma dequeue_many_copy:
  fixes n :: usize
  assumes "rb_inv rb"
  defines "m \<equiv> min (min (rb_len rb) (capacity rb - read_at rb)) n"
  shows "\<exists>rb'. dequeue_many_with (copy_out n) rb = Some (m, take m (contents rb), rb') \<and> rb_inv rb' \<and>
    capacity rb' = capacity rb \<and> rb_len rb' = rb_len rb - m \<and> contents rb' = drop m (contents rb) \<and>
    (0 < capacity rb \<longrightarrow> read_at rb' = (read_at rb + m) mod capacity rb)"
proof -
  let ?max = "min (rb_len rb) (capacity rb - read_at rb)"
  have max: "min (rb_len rb) (usize_sub (capacity rb) (read_at rb)) = ?max"
    using assms(1) rb_inv_cap [OF assms(1)] by (cases "capacity rb = 0") (auto simp: rb_inv_def usize_sub_id)
  let ?buf = "read_slice (storage rb) (read_at rb) ?max"
  have ra: "read_at rb \<le> capacity rb" using assms(1) by (auto simp: rb_inv_def)
  then have fit: "read_at rb + ?max \<le> length (storage rb)" unfolding capacity_def by linarith
  then have buf: "length ?buf = ?max" by (simp add: read_slice_def)
  have "get_idx rb 0 = read_at rb"
    using assms(1) get_idx_eq(1) [OF assms(1), of 0] by (cases "capacity rb") (auto simp: rb_inv_def)
  then have "?buf = take ?max (view rb)"
    using read_slice_view [OF assms(1), of 0 ?max] fit rb_inv_len [OF assms(1)] by (simp add: capacity_def)
  then have out: "take m ?buf = take m (contents rb)" by (simp add: contents_def m_def min_def)
  define rb' where "rb' = rb\<lparr>read_at := (if capacity rb > 0 then usize_add (read_at rb) m mod capacity rb else 0),
      rb_len := usize_sub (rb_len rb) m\<rparr>"
  have m: "m \<le> rb_len rb" "min ?max n = m" "m \<le> ?max" unfolding m_def by linarith+
  have "rb\<lparr>storage := storage rb\<rparr> = rb" by simp
  then have "dequeue_many_with (copy_out n) rb = Some (m, take m (contents rb), rb')"
    unfolding dequeue_many_with_def max Let_def copy_out_def buf
    using m out write_back [OF fit] by (simp add: rb'_def)
  then show ?thesis using dequeue_view [OF assms(1) m(1) rb'_def] by auto
qed

lemma copy_sizes:
  fixes d l c n :: nat
  assumes "d < l" "d < n" "l \<le> c"
  shows "d + min (min (l - d) c) (n - d) = min l n"
proof (cases "l \<le> n")
  case True
  then show ?thesis using assms by (simp add: min_absorb1)
next
  case False
  then show ?thesis using assms by (simp add: min_absorb1 min_absorb2)
qed

lemma copy_sizes_short: "\<not> (d < l \<and> d < n) \<Longrightarrow> min (min l d) n = min l (n :: nat)"
  by (metis min.absorb1 min.absorb2 min.commute min.assoc not_less)

lemma dequeue_slice_spec:
  fixes n :: usize
  assumes "rb_inv rb"
  defines "k \<equiv> min (rb_len rb) n"
  shows "\<exists>rb'. dequeue_slice n rb = Some (k, take k (contents rb), rb') \<and> rb_inv rb' \<and>
    capacity rb' = capacity rb \<and> contents rb' = drop k (contents rb)"
proof -
  define m where "m = min (min (rb_len rb) (capacity rb - read_at rb)) n"
  obtain rb1 where r1: "dequeue_many_with (copy_out n) rb = Some (m, take m (contents rb), rb1)" "rb_inv rb1"
    "capacity rb1 = capacity rb" "rb_len rb1 = rb_len rb - m" "contents rb1 = drop m (contents rb)"
    "0 < capacity rb \<longrightarrow> read_at rb1 = (read_at rb + m) mod capacity rb"
    using dequeue_many_copy [OF assms(1), of n, folded m_def] by (elim exE conjE) (rule that)
  define j where "j = min (min (rb_len rb1) (capacity rb1 - read_at rb1)) (n - m)"
  obtain rb2 where r2: "dequeue_many_with (copy_out (n - m)) rb1 = Some (j, take j (contents rb1), rb2)"
    "rb_inv rb2" "capacity rb2 = capacity rb1" "contents rb2 = drop j (contents rb1)"
    using dequeue_many_copy [OF r1(2), of "n - m", folded j_def] by (elim exE conjE) (rule that)
  have mj: "m + j = k"
  proof (cases "capacity rb - read_at rb < rb_len rb \<and> capacity rb - read_at rb < n")
    case True
    then have m: "m = capacity rb - read_at rb" unfolding m_def by simp
    have "0 < capacity rb" "read_at rb \<le> capacity rb" using True assms(1) by (auto simp: rb_inv_def)
    then have "read_at rb1 = 0" using r1(6) m by simp
    moreover have "rb_len rb \<le> capacity rb" by (rule rb_inv_len [OF assms(1)])
    ultimately show ?thesis unfolding j_def r1(3,4) m k_def using True
      by (simp only: diff_zero copy_sizes)
  next
    case False
    from copy_sizes_short [OF this] have m: "m = min (rb_len rb) n" unfolding m_def .
    show ?thesis unfolding j_def r1(4) m k_def by (cases "rb_len rb \<le> n") simp_all
  qed
  have "k \<le> rb_len rb" by (simp add: k_def)
  then have "k < usize_bound" using rb_inv_len [OF assms(1)] rb_inv_cap [OF assms(1)] by linarith
  then have "usize_add m j = k" unfolding usize_add_def mj by simp
  moreover have "take m (contents rb) @ take j (contents rb1) = take k (contents rb)"
    unfolding mj [symmetric] r1(5) by (simp add: take_add)
  moreover have "drop j (contents rb1) = drop k (contents rb)"
    unfolding mj [symmetric] r1(5) by (simp add: add.commute)
  ultimately show ?thesis using r1(1-3) r2 by (simp add: dequeue_slice_def)
qed

lemma list_update_write: "i < length st \<Longrightarrow> st[i := x] = write_slice st i [x]"
  by (simp add: write_slice_def upd_conv_take_nth_drop)

lemma enqueue_one_spec:
  assumes "rb_inv rb"
  shows "rb_len rb = capacity rb \<Longrightarrow> enqueue_one v rb = Inl Full"
    and "rb_len rb < capacity rb \<Longrightarrow> \<exists>rb'. enqueue_one v rb = Inr rb' \<and> rb_inv rb' \<and>
      capacity rb' = capacity rb \<and> rb_len rb' = rb_len rb + 1 \<and> contents rb' = contents rb @ [v]"
proof -
  show "rb_len rb = capacity rb \<Longrightarrow> enqueue_one v rb = Inl Full"
    by (simp add: enqueue_one_def enqueue_one_with_def rb_is_full_def window_eq [OF assms])
next
  assume room: "rb_len rb < capacity rb"
  let ?w = "get_idx rb (rb_len rb)"
  have w: "?w < capacity rb" "get_idx_unchecked rb (rb_len rb) = ?w"
    using get_idx_eq(3) [OF assms rb_inv_len [OF assms]] room by (simp_all add: get_idx_def get_idx_unchecked_def)
  let ?rb' = "rb\<lparr>storage := (storage rb)[?w := v], rb_len := usize_add (rb_len rb) 1\<rparr>"
  have len: "usize_add (rb_len rb) 1 = rb_len rb + 1"
    using room rb_inv_cap [OF assms] by (simp add: usize_add_def)
  have "enqueue_one v rb = Inr ?rb'"
    using room w(2) window_eq [OF assms]
    by (simp add: enqueue_one_def enqueue_one_with_def rb_is_full_def Let_def is_ok_def)
  moreover have "capacity ?rb' = capacity rb" by (simp add: capacity_def)
  moreover have "view ?rb' = take (rb_len rb) (view rb) @ [v] @ drop (rb_len rb + 1) (view rb)"
    using write_slice_view [OF assms, of "rb_len rb" "[v]"] room w
    by (simp add: view_def list_update_write capacity_def)
  then have "contents ?rb' = contents rb @ [v]" using room len by (simp add: contents_def)
  moreover have "rb_inv ?rb'" using assms room len by (simp add: rb_inv_def capacity_def)
  ultimately show "\<exists>rb'. enqueue_one v rb = Inr rb' \<and> rb_inv rb' \<and>
      capacity rb' = capacity rb \<and> rb_len rb' = rb_len rb + 1 \<and> contents rb' = contents rb @ [v]"
    using len by auto
qed

lemma dequeue_one_with_spec:
  assumes "rb_inv rb" "contents rb = x # xs" "f x = (x', res)"
  shows "\<exists>rb'. dequeue_one_with f rb = Inr (res, rb') \<and> rb_inv rb' \<and> capacity rb' = capacity rb \<and>
    contents rb' = (if is_ok res then xs else x' # xs) \<and> (x' = x \<longrightarrow> \<not> is_ok res \<longrightarrow> rb' = rb)"
proof -
  have len: "0 < rb_len rb" "0 < capacity rb"
    using assms(2) length_contents [OF assms(1)] rb_inv_len [OF assms(1)] by auto
  have "x = view rb ! 0" using assms(2) len by (cases "view rb") (auto simp: contents_def take_Cons')
  then have x: "storage rb ! read_at rb = x"
    using nth_view [OF len(2)] assms(1) len by (auto simp: rb_inv_def)
  let ?rb1 = "rb\<lparr>storage := (storage rb)[read_at rb := x']\<rparr>"
  have idx: "get_idx rb 0 = read_at rb" "read_at rb < capacity rb"
    using get_idx_eq(1) [OF assms(1), of 0] assms(1) len by (auto simp: rb_inv_def)
  then have "view ?rb1 = x' # drop 1 (view rb)"
    using write_slice_view [OF assms(1), of 0 "[x']"] len
    by (simp add: list_update_write capacity_def)
  moreover have inv1: "rb_inv ?rb1" "capacity ?rb1 = capacity rb" using assms(1) by (simp_all add: rb_inv_def capacity_def)
  ultimately have c1: "contents ?rb1 = x' # xs"
    using assms(2) len by (cases "view rb") (auto simp: contents_def take_Cons')
  have run: "dequeue_one_with f rb = Inr (res, if is_ok res
      then ?rb1\<lparr>rb_len := usize_sub (rb_len rb) 1, read_at := usize_add (read_at rb) 1 mod capacity rb\<rparr> else ?rb1)"
    using len x assms(3) by (simp add: dequeue_one_with_def rb_is_empty_def get_idx_unchecked_def Let_def)
  show ?thesis
  proof (cases "is_ok res")
    case True
    let ?rb2 = "?rb1\<lparr>read_at := (if capacity ?rb1 > 0 then usize_add (read_at ?rb1) 1 mod capacity ?rb1 else 0),
        rb_len := usize_sub (rb_len ?rb1) 1\<rparr>"
    have "?rb1\<lparr>rb_len := usize_sub (rb_len rb) 1, read_at := usize_add (read_at rb) 1 mod capacity rb\<rparr> = ?rb2"
      using len inv1(2) by simp
    moreover have "rb_inv ?rb2" "capacity ?rb2 = capacity ?rb1" "contents ?rb2 = drop 1 (contents ?rb1)"
      using dequeue_view [OF inv1(1) _ refl, of 1] len by simp_all
    ultimately show ?thesis unfolding run using True inv1(2) c1 by auto
  next
    case False
    have "?rb1 = rb" if "x' = x" using that x by (cases rb) auto
    then show ?thesis unfolding run using False inv1 c1 by auto
  qed
qed

lemma dequeue_one_spec:
  assumes "rb_inv rb"
  shows "contents rb = [] \<Longrightarrow> dequeue_one rb = Inl Empty"
    and "contents rb = x # xs \<Longrightarrow> \<exists>rb'. dequeue_one rb = Inr (x, rb') \<and> rb_inv rb' \<and>
      capacity rb' = capacity rb \<and> contents rb' = xs"
proof -
  show "contents rb = [] \<Longrightarrow> dequeue_one rb = Inl Empty"
    using length_contents [OF assms] by (simp add: dequeue_one_def dequeue_one_with_def rb_is_empty_def)
next
  assume c: "contents rb = x # xs"
  then have len: "0 < rb_len rb" "0 < capacity rb"
    using length_contents [OF assms] rb_inv_len [OF assms] by auto
  have "x = view rb ! 0" using c len by (cases "view rb") (auto simp: contents_def take_Cons')
  then have x: "storage rb ! read_at rb = x"
    using nth_view [OF len(2)] assms len by (auto simp: rb_inv_def)
  let ?rb' = "rb\<lparr>read_at := (if capacity rb > 0 then usize_add (read_at rb) 1 mod capacity rb else 0),
      rb_len := usize_sub (rb_len rb) 1\<rparr>"
  have "rb\<lparr>storage := (storage rb)[read_at rb := x], rb_len := usize_sub (rb_len rb) 1,
      read_at := usize_add (read_at rb) 1 mod capacity rb\<rparr> = ?rb'"
    using x len by (cases rb) auto
  then have "dequeue_one rb = Inr (x, ?rb')"
    using x len by (simp add: dequeue_one_def dequeue_one_with_def rb_is_empty_def Let_def is_ok_def get_idx_unchecked_def)
  moreover have "rb_inv ?rb'" "capacity ?rb' = capacity rb" "contents ?rb' = drop 1 (contents rb)"
    using dequeue_view [OF assms, of 1 ?rb'] len by simp_all
  ultimately show "\<exists>rb'. dequeue_one rb = Inr (x, rb') \<and> rb_inv rb' \<and> capacity rb' = capacity rb \<and> contents rb' = xs"
    using c by auto
qed

lemma write_at_offset_spec:
  fixes data :: "'a list"
  assumes "rb_inv rb" "offset \<le> capacity rb - rb_len rb"
  defines "n \<equiv> min (min (length data) (capacity rb - rb_len rb - offset))
    (capacity rb - get_idx rb (rb_len rb + offset))"
  shows "\<exists>rb'. write_at_offset offset data rb = (n, rb') \<and> rb_inv rb' \<and> capacity rb' = capacity rb \<and>
    rb_len rb' = rb_len rb \<and> read_at rb' = read_at rb \<and>
    view rb' = take (rb_len rb + offset) (view rb) @ take n data @ drop (rb_len rb + offset + n) (view rb)"
proof -
  let ?p = "rb_len rb + offset"
  have p: "?p \<le> capacity rb" using assms(1,2) by (auto simp: rb_inv_def)
  then have add: "usize_add (rb_len rb) offset = ?p" using rb_inv_cap [OF assms(1)] by (simp add: usize_add_def)
  note idx = get_idx_eq(2) [OF assms(1) p]
  have subs: "usize_sub (capacity rb - rb_len rb) offset = capacity rb - rb_len rb - offset"
    "usize_sub (capacity rb) (get_idx rb ?p) = capacity rb - get_idx rb ?p"
    using assms(2) idx rb_inv_cap [OF assms(1)] by (simp_all add: usize_sub_id)
  have n: "n \<le> length data" "?p + n \<le> capacity rb" "get_idx rb ?p + n \<le> capacity rb"
    using p idx unfolding n_def by linarith+
  let ?rb' = "rb\<lparr>storage := write_slice (storage rb) (get_idx rb ?p) (take n data)\<rparr>"
  have "write_at_offset offset data rb = (n, ?rb')"
    unfolding write_at_offset_def get_unallocated_def Let_def add window_eq [OF assms(1)] subs n_def [symmetric]
    using assms(2) by simp
  moreover have "capacity ?rb' = capacity rb" using n by (simp add: capacity_def length_write_slice)
  moreover from this have "rb_inv ?rb'" using assms(1) by (simp add: rb_inv_def)
  moreover have "view ?rb' = take ?p (view rb) @ take n data @ drop (?p + n) (view rb)"
    using write_slice_view [OF assms(1), of ?p "take n data"] n by (simp add: add.assoc)
  ultimately show ?thesis by auto
qed

lemma two_writes:
  fixes l w e :: nat
  assumes "e < min l w \<Longrightarrow> e' = w'" "e' \<le> w'" "w - e \<le> w'"
  defines "m \<equiv> min (min l w) e"
  shows "m + min (min (l - m) (w - m)) e' = min l w"
proof (cases "e < min l w")
  case True
  then have "m = e" "min (w - e) e' = w - e" using assms(1,3) by (simp_all add: m_def)
  moreover have "min (min (l - e) (w - e)) e' = min (l - e) (w - e)" using True assms(1,3) by simp
  moreover have "min (l - e) (w - e) = min l w - e" by (rule min_diff)
  moreover have "e + (min l w - e) = min l w" using True by (rule le_add_diff_inverse [OF less_imp_le])
  ultimately show ?thesis by metis
next
  case False
  then have "min l w \<le> e" by (simp only: not_less)
  then have m: "m = min l w" unfolding m_def by (rule min_absorb1)
  show ?thesis unfolding m by (cases "l \<le> w") simp_all
qed

lemma write_twice:
  fixes data :: "'a list"
  assumes "length v = c" "p + n1 + n2 \<le> c" "n1 + n2 \<le> length data"
    "v1 = take p v @ take n1 data @ drop (p + n1) v"
  shows "take (p + n1) v1 @ take n2 (drop n1 data) @ drop (p + n1 + n2) v1 =
    take p v @ take (n1 + n2) data @ drop (p + n1 + n2) v"
proof -
  have "length (take p v @ take n1 data) = p + n1" using assms by simp
  then have "take (p + n1) v1 = take p v @ take n1 data" "drop (p + n1) v1 = drop (p + n1) v"
    unfolding assms(4) by (simp_all add: append_assoc [symmetric] del: append_assoc)
  then have "take (p + n1) v1 = take p v @ take n1 data" "drop (p + n1 + n2) v1 = drop (p + n1 + n2) v"
    by (simp_all add: add.commute [of _ n2] drop_drop [symmetric] del: drop_drop)
  then show ?thesis by (simp add: take_add)
qed

lemma write_unallocated_spec:
  fixes data :: "'a list" and offset :: usize
  assumes "rb_inv rb" "offset < usize_bound"
  defines "n \<equiv> min (length data) (capacity rb - rb_len rb - offset)"
  shows "\<exists>rb'. write_unallocated offset data rb = (n, rb') \<and> rb_inv rb' \<and> capacity rb' = capacity rb \<and>
    contents rb' = contents rb \<and>
    free_cells rb' = take offset (free_cells rb) @ take n data @ drop (offset + n) (free_cells rb)"
proof (cases "offset \<le> capacity rb - rb_len rb")
  case False
  then have "write_at_offset offset d rb = (0, rb)" for d
    by (simp add: write_at_offset_def get_unallocated_def window_eq [OF assms(1)] Let_def)
  then have "write_unallocated offset data rb = (0, rb)"
    using assms(2) by (simp add: write_unallocated_def usize_add_def)
  moreover have "n = 0" using False by (simp add: n_def)
  ultimately show ?thesis using assms(1) False by simp
next
  case True
  let ?w = "capacity rb - rb_len rb - offset" and ?p = "rb_len rb + offset" and ?c = "capacity rb"
  have p: "?p \<le> ?c" using True rb_inv_len [OF assms(1)] by linarith
  define n1 where "n1 = min (min (length data) ?w) (?c - get_idx rb ?p)"
  obtain rb1 where r1: "write_at_offset offset data rb = (n1, rb1)" "rb_inv rb1" "capacity rb1 = ?c"
    "rb_len rb1 = rb_len rb" "read_at rb1 = read_at rb"
    "view rb1 = take ?p (view rb) @ take n1 data @ drop (?p + n1) (view rb)"
    using write_at_offset_spec [OF assms(1) True, of data, folded n1_def] by (elim exE conjE) (rule that)
  have n1: "n1 \<le> ?w" unfolding n1_def by linarith
  then have off2: "usize_add offset n1 = offset + n1" "offset + n1 \<le> capacity rb1 - rb_len rb1"
    using True r1(3,4) rb_inv_cap [OF assms(1)] by (simp_all add: usize_add_def)
  define n2 where "n2 = min (min (length (drop n1 data)) (capacity rb1 - rb_len rb1 - (offset + n1)))
      (capacity rb1 - get_idx rb1 (rb_len rb1 + (offset + n1)))"
  have n2: "n2 = min (min (length data - n1) (?w - n1)) (?c - get_idx rb1 (?p + n1))"
    unfolding n2_def r1(3,4) by (simp add: add.assoc)
  obtain rb2 where r2: "write_at_offset (offset + n1) (drop n1 data) rb1 = (n2, rb2)" "rb_inv rb2"
    "capacity rb2 = capacity rb1" "rb_len rb2 = rb_len rb1" "read_at rb2 = read_at rb1"
    "view rb2 = take (rb_len rb1 + (offset + n1)) (view rb1) @ take n2 (drop n1 data) @
      drop (rb_len rb1 + (offset + n1) + n2) (view rb1)"
    using write_at_offset_spec [OF r1(2) off2(2), of "drop n1 data", folded n2_def]
    by (elim exE conjE) (rule that)
  have n12: "n1 + n2 = n"
  proof -
    have "?c - get_idx rb1 (?p + n1) = ?c" if "?c - get_idx rb ?p < min (length data) ?w"
    proof -
      have "n1 = ?c - get_idx rb ?p" using that unfolding n1_def by simp
      moreover have "0 < ?c" using that by linarith
      moreover have "get_idx rb1 (?p + n1) = (get_idx rb ?p + n1) mod ?c"
        using get_idx_eq(1) [OF assms(1) p] get_idx_eq(1) [OF r1(2), of "?p + n1"] r1(3,5) n1 p
        by (simp add: mod_add_left_eq add.assoc)
      moreover have "get_idx rb ?p \<le> ?c" by (rule get_idx_eq(2) [OF assms(1) p])
      ultimately have "get_idx rb1 (?p + n1) = 0" by simp
      then show ?thesis by simp
    qed
    moreover have "?w - (?c - get_idx rb ?p) \<le> ?c" by linarith
    ultimately show ?thesis
      using two_writes [of "?c - get_idx rb ?p" "length data" ?w "?c - get_idx rb1 (?p + n1)" ?c]
      unfolding n2 n_def n1_def [symmetric] by simp
  qed
  have v2: "view rb2 = take ?p (view rb) @ take n data @ drop (?p + n) (view rb)"
  proof -
    have "n \<le> length data" "n \<le> ?w" unfolding n_def by linarith+
    then have b: "?p + n1 + n2 \<le> ?c" "n1 + n2 \<le> length data" using n12 p by linarith+
    from write_twice [OF length_view b r1(6)] r2(6) show ?thesis
      by (simp only: r1(4) n12 [symmetric] add.assoc)
  qed
  have "n < usize_bound" using p rb_inv_cap [OF assms(1)] unfolding n_def by linarith
  then have "write_unallocated offset data rb = (n, rb2)"
    using r1(1) r2(1) off2(1) n12 by (simp add: write_unallocated_def usize_add_def)
  moreover have "contents rb2 = contents rb" using v2 r1(4) r2(4) p by (simp add: contents_def)
  moreover have "free_cells rb2 = take offset (free_cells rb) @ take n data @ drop (offset + n) (free_cells rb)"
    using v2 r1(4) r2(4) p by (simp add: free_cells_def take_drop add.commute add.left_commute)
  ultimately show ?thesis using r1(3) r2(2,3) by auto
qed

lemma get_allocated_spec:
  assumes "rb_inv rb" "offset \<le> rb_len rb"
  shows "get_allocated rb offset n =
    take (min (min n (rb_len rb - offset)) (capacity rb - get_idx rb offset)) (drop offset (contents rb))"
proof -
  define m where "m = min (min n (rb_len rb - offset)) (capacity rb - get_idx rb offset)"
  have o: "offset \<le> capacity rb" using assms(2) rb_inv_len [OF assms(1)] by linarith
  note idx = get_idx_eq(2) [OF assms(1) o]
  have "usize_sub (rb_len rb) offset = rb_len rb - offset"
    "usize_sub (capacity rb) (get_idx rb offset) = capacity rb - get_idx rb offset"
    using assms rb_inv_len [OF assms(1)] rb_inv_cap [OF assms(1)] idx by (simp_all add: usize_sub_id)
  then have "get_allocated rb offset n = read_slice (storage rb) (get_idx rb offset) m"
    using assms(2) by (simp add: get_allocated_def Let_def m_def)
  also have "\<dots> = take m (drop offset (view rb))"
    using idx o rb_inv_len [OF assms(1)] assms(2) unfolding m_def
    by (intro read_slice_view [OF assms(1)]) linarith+
  also have "\<dots> = take m (drop offset (contents rb))"
  proof -
    have "m \<le> rb_len rb - offset" unfolding m_def by linarith
    then show ?thesis by (simp add: contents_def drop_take)
  qed
  finally show ?thesis unfolding m_def .
qed

lemma read_allocated_spec:
  fixes n offset :: usize
  assumes "rb_inv rb" "offset < usize_bound"
  defines "k \<equiv> min n (rb_len rb - offset)"
  shows "read_allocated offset n rb = (k, take k (drop offset (contents rb)))"
proof (cases "offset \<le> rb_len rb")
  case False
  then have "get_allocated rb offset m = []" for m by (simp add: get_allocated_def Let_def)
  moreover have "usize_add offset 0 = offset" using assms(2) by (simp add: usize_add_def)
  moreover have "k = 0" using False by (simp add: k_def)
  ultimately show ?thesis by (simp add: read_allocated_def usize_add_def)
next
  case True
  let ?w = "rb_len rb - offset" and ?c = "capacity rb"
  define m where "m = min (min n ?w) (?c - get_idx rb offset)"
  have s1: "get_allocated rb offset n = take m (drop offset (contents rb))"
    using get_allocated_spec [OF assms(1) True] by (simp add: m_def)
  have o: "offset \<le> ?c" using True rb_inv_len [OF assms(1)] by linarith
  have m: "m \<le> ?w" unfolding m_def by linarith
  then have len: "length (take m (drop offset (contents rb))) = m"
    using length_contents [OF assms(1)] by simp
  have add: "usize_add offset m = offset + m" "offset + m \<le> rb_len rb"
    using m True rb_inv_len [OF assms(1)] rb_inv_cap [OF assms(1)] by (simp_all add: usize_add_def)
  define j where "j = min (min (n - m) (?w - m)) (?c - get_idx rb (offset + m))"
  have s2: "get_allocated rb (offset + m) (n - m) = take j (drop (offset + m) (contents rb))"
    using get_allocated_spec [OF assms(1) add(2)] by (simp add: j_def diff_diff_left)
  have mj: "m + j = k"
  proof -
    have "?c - get_idx rb (offset + m) = ?c" if less: "?c - get_idx rb offset < min n ?w"
    proof -
      have "m = ?c - get_idx rb offset" using less unfolding m_def by simp
      moreover have "0 < ?c" using less rb_inv_len [OF assms(1)] by linarith
      moreover have "get_idx rb (offset + m) = (get_idx rb offset + m) mod ?c"
        using get_idx_eq(1) [OF assms(1) o] get_idx_eq(1) [OF assms(1), of "offset + m"] add(2) rb_inv_len [OF assms(1)]
        by (simp add: mod_add_left_eq add.assoc)
      moreover have "get_idx rb offset \<le> ?c" by (rule get_idx_eq(2) [OF assms(1) o])
      ultimately have "get_idx rb (offset + m) = 0" by simp
      then show ?thesis by simp
    qed
    moreover have "?w - (?c - get_idx rb offset) \<le> ?c" using rb_inv_len [OF assms(1)] by linarith
    ultimately show ?thesis
      using two_writes [of "?c - get_idx rb offset" n ?w "?c - get_idx rb (offset + m)" ?c]
      unfolding j_def k_def m_def [symmetric] by simp
  qed
  have j: "j \<le> ?w - m" unfolding j_def by linarith
  have "length (take j (drop (offset + m) (contents rb))) = j"
    using j length_contents [OF assms(1)] by simp
  moreover have "k < usize_bound" using rb_inv_len [OF assms(1)] rb_inv_cap [OF assms(1)] unfolding k_def by linarith
  then have "usize_add m j = k" unfolding usize_add_def mj by simp
  moreover have "take m (drop offset (contents rb)) @ take j (drop (offset + m) (contents rb))
      = take k (drop offset (contents rb))"
    unfolding mj [symmetric] take_add drop_drop add.commute [of offset m] by simp
  ultimately show ?thesis unfolding read_allocated_def Let_def s1 len add(1) s2 by simp
qed

lemma enqueue_unallocated_spec:
  assumes "rb_inv rb" "cnt \<le> capacity rb - rb_len rb"
  shows "\<exists>rb'. enqueue_unallocated cnt rb = Some rb' \<and> rb_inv rb' \<and> capacity rb' = capacity rb \<and>
    contents rb' = contents rb @ take cnt (free_cells rb) \<and> free_cells rb' = drop cnt (free_cells rb)"
proof -
  let ?rb' = "rb\<lparr>rb_len := rb_len rb + cnt\<rparr>"
  have le: "rb_len rb + cnt \<le> capacity rb" using assms rb_inv_len [OF assms(1)] by linarith
  then have "enqueue_unallocated cnt rb = Some ?rb'"
    using assms(2) rb_inv_cap [OF assms(1)]
    by (simp add: enqueue_unallocated_def window_eq [OF assms(1)] usize_add_def)
  moreover have "rb_inv ?rb'" "capacity ?rb' = capacity rb"
    using assms(1) le by (auto simp: rb_inv_def capacity_def)
  moreover have "contents ?rb' = contents rb @ take cnt (free_cells rb)" "free_cells ?rb' = drop cnt (free_cells rb)"
    by (simp_all add: contents_def free_cells_def view_def take_add)
      (simp add: add.commute)
  ultimately show ?thesis by blast
qed

lemma dequeue_allocated_spec:
  assumes "rb_inv rb" "cnt \<le> rb_len rb"
  shows "\<exists>rb'. dequeue_allocated cnt rb = Some rb' \<and> rb_inv rb' \<and> capacity rb' = capacity rb \<and>
    contents rb' = drop cnt (contents rb)"
proof -
  let ?rb' = "rb\<lparr>read_at := (if capacity rb > 0 then usize_add (read_at rb) cnt mod capacity rb else 0),
      rb_len := usize_sub (rb_len rb) cnt\<rparr>"
  have "dequeue_allocated cnt rb = Some ?rb'"
    using assms(2) by (simp add: dequeue_allocated_def get_idx_def)
  then show ?thesis using dequeue_view [OF assms refl] by blast
qed

section \<open>The FIFO contract\<close>

text \<open>A bounded byte stream: writing accepts as much as there is room for, reading returns as much as is
  there, in order.\<close>

datatype 'a fifo_op = Put "'a list" | Get nat

fun fifo_run ::
    "('a list \<Rightarrow> 's \<Rightarrow> (nat \<times> 's) option) \<Rightarrow> (nat \<Rightarrow> 's \<Rightarrow> (nat \<times> 'a list \<times> 's) option) \<Rightarrow>
     'a fifo_op list \<Rightarrow> 's \<Rightarrow> ('a list \<times> 'a list \<times> 's) option" where
  "fifo_run put get [] s = Some ([], [], s)"
| "fifo_run put get (Put data # ops) s =
     Option.bind (put data s) (\<lambda>(n, s'). map_option (\<lambda>(acc, out, s''). (take n data @ acc, out, s''))
       (fifo_run put get ops s'))"
| "fifo_run put get (Get n # ops) s =
     Option.bind (get n s) (\<lambda>(_, xs, s'). map_option (\<lambda>(acc, out, s''). (acc, xs @ out, s''))
       (fifo_run put get ops s'))"

locale bounded_fifo =
  fixes put :: "'a list \<Rightarrow> 's \<Rightarrow> (nat \<times> 's) option"
    and get :: "nat \<Rightarrow> 's \<Rightarrow> (nat \<times> 'a list \<times> 's) option"
    and items :: "'s \<Rightarrow> 'a list" and bound :: "'s \<Rightarrow> nat" and ok :: "'s \<Rightarrow> bool"
  assumes put_law: "ok s \<Longrightarrow> n = min (bound s - length (items s)) (length data) \<Longrightarrow>
      \<exists>s'. put data s = Some (n, s') \<and> ok s' \<and> bound s' = bound s \<and> items s' = items s @ take n data"
    and get_law: "ok s \<Longrightarrow> k = min (length (items s)) n \<Longrightarrow>
      \<exists>s'. get n s = Some (k, take k (items s), s') \<and> ok s' \<and> bound s' = bound s \<and> items s' = drop k (items s)"
    and bounded: "ok s \<Longrightarrow> length (items s) \<le> bound s"
begin

lemma run_stream:
  "ok s \<Longrightarrow> \<exists>acc out s'. fifo_run put get ops s = Some (acc, out, s') \<and> ok s' \<and> bound s' = bound s \<and>
     items s @ acc = out @ items s'"
proof (induction ops arbitrary: s)
  case (Cons op ops)
  show ?case
  proof (cases op)
    case (Put data)
    obtain n s1 where s1: "put data s = Some (n, s1)" "ok s1" "bound s1 = bound s" "items s1 = items s @ take n data"
      using put_law [OF Cons.prems refl] by blast
    from Cons.IH [OF s1(2)] obtain acc out s2 where "fifo_run put get ops s1 = Some (acc, out, s2)" "ok s2"
      "bound s2 = bound s1" "items s1 @ acc = out @ items s2" by blast
    then show ?thesis using s1 Put by simp
  next
    case (Get n)
    define k where "k = min (length (items s)) n"
    obtain s1 where s1: "get n s = Some (k, take k (items s), s1)" "ok s1" "bound s1 = bound s"
      "items s1 = drop k (items s)"
      using get_law [OF Cons.prems k_def] by blast
    from Cons.IH [OF s1(2)] obtain acc out s2 where r: "fifo_run put get ops s1 = Some (acc, out, s2)" "ok s2"
      "bound s2 = bound s1" "items s1 @ acc = out @ items s2" by blast
    have "items s @ acc = take k (items s) @ items s1 @ acc"
      unfolding s1(4) append_assoc [symmetric] append_take_drop_id ..
    then have "items s @ acc = (take k (items s) @ out) @ items s2" using r(4) by simp
    moreover have "fifo_run put get (op # ops) s = Some (acc, take k (items s) @ out, s2)"
      using s1(1) r(1) Get by simp
    ultimately show ?thesis using r(2,3) s1(3) by auto
  qed
qed simp

lemma run_bounded:
  assumes "ok s" "fifo_run put get ops s = Some (acc, out, s')"
  shows "length (items s') \<le> bound s"
proof -
  obtain acc1 out1 s1 where "fifo_run put get ops s = Some (acc1, out1, s1)" "ok s1" "bound s1 = bound s"
    using run_stream [OF assms(1)] by blast
  then have "ok s'" "bound s' = bound s" using assms(2) by simp_all
  then show ?thesis using bounded [of s'] by simp
qed

end

interpretation rb: bounded_fifo enqueue_slice dequeue_slice contents capacity rb_inv
proof (unfold_locales, goal_cases)
  case (1 rb n data)
  then show ?case using enqueue_slice_spec [OF 1(1), of data] length_contents [OF 1(1)] by simp
next
  case (2 rb k n)
  then show ?case using dequeue_slice_spec [OF 2(1), of n] length_contents [OF 2(1)] by simp
next
  case (3 rb)
  then show ?case using length_contents rb_inv_len by metis
qed



text \<open>A buffer of four cells whose three elements wrap around.\<close>

definition demo_ring :: "nat ring_buffer" where
  "demo_ring = \<lparr>storage = [3, 0, 1, 2], read_at = 2, rb_len = 3\<rparr>"

lemma demo_ring_inv: "rb_inv demo_ring" "contents demo_ring = [1, 2, 3]" "free_cells demo_ring = [0]"
  by (simp_all add: demo_ring_def rb_inv_def capacity_def usize_bound_def contents_def free_cells_def view_def
      rotate_drop_take)



end
