(* ===== verification/Packet_Buffer.thy ===== *)
theory Packet_Buffer
  imports Ring_Buffer
begin

text \<open>
  The packet queue of UDP, raw and ICMP sockets (\<open>crates/smoltcp/src/storage/packet_buffer.rs\<close>): one
  ring of packet descriptions and one of payload bytes. A packet's payload is contiguous in the
  storage, so padding is inserted where a packet would wrap around. A call returns the buffer
  afterwards with its result, and \<open>None\<close> where the code panics. The caller writes the payload through
  the slice that \<open>enqueue\<close> returns; here the bytes are an argument.
\<close>

section \<open>Definitions\<close>

record 'h packet_metadata =
  meta_size :: usize
  header :: "'h option"

definition padding :: "usize \<Rightarrow> 'h packet_metadata" where
  "padding n = \<lparr>meta_size = n, header = None\<rparr>"

definition packet :: "usize \<Rightarrow> 'h \<Rightarrow> 'h packet_metadata" where
  "packet n h = \<lparr>meta_size = n, header = Some h\<rparr>"

definition is_padding :: "'h packet_metadata \<Rightarrow> bool" where
  "is_padding m \<longleftrightarrow> header m = None"

record ('h, 'b) packet_buffer =
  metadata_ring :: "'h packet_metadata ring_buffer"
  payload_ring :: "'b ring_buffer"

type_synonym ('h, 'b, 'e, 'r) pb_result = "(('h, 'b) packet_buffer \<times> ('e + 'r)) option"

definition pb_new :: "'h packet_metadata list \<Rightarrow> 'b list \<Rightarrow> ('h, 'b) packet_buffer" where
  "pb_new metadata_storage payload_storage =
     \<lparr>metadata_ring = rb_new metadata_storage, payload_ring = rb_new payload_storage\<rparr>"

definition pb_is_empty :: "('h, 'b) packet_buffer \<Rightarrow> bool" where
  "pb_is_empty pb \<longleftrightarrow> rb_is_empty (metadata_ring pb)"

definition pb_is_full :: "('h, 'b) packet_buffer \<Rightarrow> bool" where
  "pb_is_full pb \<longleftrightarrow> rb_is_full (metadata_ring pb)"

text \<open>Inserting padding up to the end of the storage.\<close>

definition enqueue_padding :: "usize \<Rightarrow> ('h, 'b) packet_buffer \<Rightarrow> ('h, 'b, full, unit) pb_result" where
  "enqueue_padding contig_window pb =
     (case enqueue_one (padding contig_window) (metadata_ring pb) of
        Inl Full \<Rightarrow> Some (pb, Inl Full)
      | Inr meta \<Rightarrow> map_option (\<lambda>(_, pay). (\<lparr>metadata_ring = meta, payload_ring = pay\<rparr>, Inr ()))
          (enqueue_many contig_window (payload_ring pb)))"

text \<open>The slice of \<open>enqueue_many\<close>, written by the caller with \<open>data\<close>.\<close>

definition enqueue_filled :: "usize \<Rightarrow> 'b list \<Rightarrow> 'b ring_buffer \<Rightarrow> (usize \<times> 'b ring_buffer) option" where
  "enqueue_filled sz data rb = map_option (\<lambda>(n, _, rb'). (n, rb'))
     (enqueue_many_with (\<lambda>buf. let n = min sz (length buf) in (take n data @ drop n buf, n, ())) rb)"

definition enqueue ::
    "usize \<Rightarrow> 'h \<Rightarrow> 'b list \<Rightarrow> ('h, 'b) packet_buffer \<Rightarrow> ('h, 'b, full, unit) pb_result" where
  "enqueue sz h data pb =
     (if capacity (payload_ring pb) < sz \<or> rb_is_full (metadata_ring pb) then Some (pb, Inl Full)
      else
        let pb1 = (if rb_is_empty (payload_ring pb) then pb\<lparr>payload_ring := rb_clear (payload_ring pb)\<rparr> else pb);
            win = window (payload_ring pb1);
            contig_window = contiguous_window (payload_ring pb1)
        in if win < sz then Some (pb1, Inl Full)
           else if contig_window < sz \<and> win - contig_window < sz then Some (pb1, Inl Full)
           else Option.bind (if contig_window < sz then enqueue_padding contig_window pb1 else Some (pb1, Inr ()))
             (\<lambda>(pb2, r). case r of
                Inl Full \<Rightarrow> Some (pb2, Inl Full)
              | Inr _ \<Rightarrow>
                  (case enqueue_one (packet sz h) (metadata_ring pb2) of
                     Inl Full \<Rightarrow> Some (pb2, Inl Full)
                   | Inr meta \<Rightarrow> map_option (\<lambda>(_, pay). (\<lparr>metadata_ring = meta, payload_ring = pay\<rparr>, Inr ()))
                       (enqueue_filled sz data (payload_ring pb2)))))"

text \<open>The closure \<open>f\<close> gets the first \<open>max_size\<close> bytes of the slice and returns them updated with the
  size it used. Slicing panics when the slice is shorter.\<close>

definition enqueue_with_infallible ::
    "usize \<Rightarrow> 'h \<Rightarrow> ('b list \<Rightarrow> 'b list \<times> usize) \<Rightarrow> ('h, 'b) packet_buffer \<Rightarrow> ('h, 'b, full, usize) pb_result" where
  "enqueue_with_infallible max_size h f pb =
     (if capacity (payload_ring pb) < max_size \<or> rb_is_full (metadata_ring pb) then Some (pb, Inl Full)
      else
        let win = window (payload_ring pb);
            contig_window = contiguous_window (payload_ring pb)
        in if win < max_size then Some (pb, Inl Full)
           else if contig_window < max_size \<and> win - contig_window < max_size then Some (pb, Inl Full)
           else Option.bind (if contig_window < max_size then enqueue_padding contig_window pb else Some (pb, Inr ()))
             (\<lambda>(pb2, r). case r of
                Inl Full \<Rightarrow> Some (pb2, Inl Full)
              | Inr _ \<Rightarrow>
                  if contiguous_window (norm_read (payload_ring pb2)) < max_size then None
                  else Option.bind (enqueue_many_with
                      (\<lambda>buf. let (bs, n) = f (take max_size buf) in (bs @ drop max_size buf, n, ())) (payload_ring pb2))
                    (\<lambda>(sz, _, pay).
                       let pb3 = pb2\<lparr>payload_ring := pay\<rparr> in
                       case enqueue_one (packet sz h) (metadata_ring pb3) of
                         Inl Full \<Rightarrow> Some (pb3, Inl Full)
                       | Inr meta \<Rightarrow> Some (pb3\<lparr>metadata_ring := meta\<rparr>, Inr sz))))"

text \<open>The closure of \<open>dequeue_padding\<close> dequeues the padding bytes while it has the description.\<close>

definition dequeue_padding :: "('h, 'b) packet_buffer \<Rightarrow> ('h, 'b) packet_buffer option" where
  "dequeue_padding pb =
     (case dequeue_one_with (\<lambda>m. (m, if is_padding m then Inr (meta_size m) else Inl ())) (metadata_ring pb) of
        Inl Empty \<Rightarrow> Some pb
      | Inr (Inl _, meta) \<Rightarrow> Some (pb\<lparr>metadata_ring := meta\<rparr>)
      | Inr (Inr n, meta) \<Rightarrow> map_option (\<lambda>(_, pay). \<lparr>metadata_ring = meta, payload_ring = pay\<rparr>)
          (dequeue_many n (payload_ring pb)))"

text \<open>\<open>dequeue_with\<close>: the closure gets the header and the payload of the first packet. The metadata and the
  payload are removed when it succeeds.\<close>

definition dequeue_with ::
    "('h \<Rightarrow> 'b list \<Rightarrow> 'h \<times> 'b list \<times> ('e + 'r)) \<Rightarrow> ('h, 'b) packet_buffer \<Rightarrow> ('h, 'b, empty, 'e + 'r) pb_result" where
  "dequeue_with f pb = Option.bind (dequeue_padding pb) (\<lambda>pb1.
     let meta = metadata_ring pb1; pay = payload_ring pb1; m = storage meta ! read_at meta in
     if rb_is_empty meta then Some (pb1, Inl Empty)
     else if min (rb_len pay) (capacity pay - read_at pay) < meta_size m then None
     else case header m of
         None \<Rightarrow> None
       | Some h \<Rightarrow>
           Option.bind (dequeue_many_with (\<lambda>buf.
               let (h', bs, r) = f h (take (meta_size m) buf)
               in (bs @ drop (meta_size m) buf, if is_ok r then meta_size m else 0, (h', r))) pay)
             (\<lambda>(_, (h', r), pay').
                case dequeue_one_with (\<lambda>_. (m\<lparr>header := Some h'\<rparr>, r)) meta of
                  Inl Empty \<Rightarrow> Some (pb1, Inl Empty)
                | Inr (r', meta') \<Rightarrow> Some (\<lparr>metadata_ring = meta', payload_ring = pay'\<rparr>, Inr r')))"

text \<open>\<open>dequeue\<close> takes the header out of the dequeued cell; \<open>unwrap\<close> panics on padding.\<close>

definition dequeue :: "('h, 'b) packet_buffer \<Rightarrow> ('h, 'b, empty, 'h \<times> 'b list) pb_result" where
  "dequeue pb = Option.bind (dequeue_padding pb) (\<lambda>pb1.
     case dequeue_one_with (\<lambda>m. (m\<lparr>header := None\<rparr>, Inr m :: unit + _)) (metadata_ring pb1) of
       Inl Empty \<Rightarrow> Some (pb1, Inl Empty)
     | Inr (Inl _, meta) \<Rightarrow> None
     | Inr (Inr m, meta) \<Rightarrow>
         Option.bind (dequeue_many (meta_size m) (payload_ring pb1)) (\<lambda>(bytes, pay).
           case header m of
             None \<Rightarrow> None
           | Some h \<Rightarrow> Some (\<lparr>metadata_ring = meta, payload_ring = pay\<rparr>, Inr (h, bytes))))"

definition peek :: "('h, 'b) packet_buffer \<Rightarrow> ('h, 'b, empty, 'h \<times> 'b list) pb_result" where
  "peek pb = Option.bind (dequeue_padding pb) (\<lambda>pb1.
     case get_allocated (metadata_ring pb1) 0 1 of
       [] \<Rightarrow> Some (pb1, Inl Empty)
     | m # _ \<Rightarrow> (case header m of
           None \<Rightarrow> None
         | Some h \<Rightarrow> Some (pb1, Inr (h, get_allocated (payload_ring pb1) 0 (meta_size m)))))"

definition packet_capacity :: "('h, 'b) packet_buffer \<Rightarrow> usize" where
  "packet_capacity pb = capacity (metadata_ring pb)"

definition payload_capacity :: "('h, 'b) packet_buffer \<Rightarrow> usize" where
  "payload_capacity pb = capacity (payload_ring pb)"

definition payload_bytes_count :: "('h, 'b) packet_buffer \<Rightarrow> usize" where
  "payload_bytes_count pb = rb_len (payload_ring pb)"

definition pb_reset :: "('h, 'b) packet_buffer \<Rightarrow> ('h, 'b) packet_buffer" where
  "pb_reset pb = \<lparr>metadata_ring = rb_clear (metadata_ring pb), payload_ring = rb_clear (payload_ring pb)\<rparr>"

section \<open>The queue of packets\<close>

fun packets :: "'h packet_metadata list \<Rightarrow> 'b list \<Rightarrow> ('h \<times> 'b list) list" where
  "packets [] bs = []"
| "packets (m # ms) bs =
     (case header m of
        None \<Rightarrow> packets ms (drop (meta_size m) bs)
      | Some h \<Rightarrow> (h, take (meta_size m) bs) # packets ms (drop (meta_size m) bs))"

definition queued :: "('h, 'b) packet_buffer \<Rightarrow> ('h \<times> 'b list) list" where
  "queued pb = packets (contents (metadata_ring pb)) (contents (payload_ring pb))"

text \<open>Every packet is contiguous in a storage of \<open>c\<close> bytes when read from position \<open>r\<close>, and padding is
  non-empty, ends at the end of the storage and does not start at its beginning.\<close>

fun layout :: "nat \<Rightarrow> nat \<Rightarrow> 'h packet_metadata list \<Rightarrow> bool" where
  "layout c r [] \<longleftrightarrow> True"
| "layout c r (m # ms) \<longleftrightarrow> r + meta_size m \<le> c \<and>
     (is_padding m \<longrightarrow> 0 < r \<and> 0 < meta_size m \<and> r + meta_size m = c) \<and> layout c ((r + meta_size m) mod c) ms"

definition bytes :: "'h packet_metadata list \<Rightarrow> nat" where
  "bytes ms = sum_list (map meta_size ms)"

definition pb_inv :: "('h, 'b) packet_buffer \<Rightarrow> bool" where
  "pb_inv pb \<longleftrightarrow> rb_inv (metadata_ring pb) \<and> rb_inv (payload_ring pb) \<and>
     bytes (contents (metadata_ring pb)) = rb_len (payload_ring pb) \<and>
     layout (capacity (payload_ring pb)) (read_at (payload_ring pb)) (contents (metadata_ring pb))"

lemma bytes_simps [simp]: "bytes [] = 0" "bytes (m # ms) = meta_size m + bytes ms" "bytes (a @ b) = bytes a + bytes b"
  by (simp_all add: bytes_def)

lemma meta_simps [simp]:
  "meta_size (padding n) = n" "meta_size (packet n h) = n" "header (padding n) = None" "header (packet n h) = Some h"
  "is_padding (padding n)" "\<not> is_padding (packet n h)"
  by (simp_all add: padding_def packet_def is_padding_def)

lemma layout_append:
  "layout c r (ms @ ns) \<longleftrightarrow> layout c r ms \<and> layout c (if ms = [] then r else (r + bytes ms) mod c) ns"
proof (induction ms arbitrary: r)
  case (Cons m ms)
  have "((r + meta_size m) mod c + bytes ms) mod c = (r + bytes (m # ms)) mod c"
    by (simp add: mod_add_left_eq add.assoc)
  then show ?case using Cons by auto
qed simp

text \<open>With no payload there is no padding, so the position does not matter.\<close>

lemma layout_zero: "layout c r ms \<Longrightarrow> bytes ms = 0 \<Longrightarrow> layout c r' ms" if "r' \<le> c - 1"
  using that
proof (induction ms arbitrary: r r')
  case (Cons m ms)
  moreover have "r' mod c \<le> c - 1" using Cons.prems(3) by (cases c) auto
  ultimately show ?case by (auto simp: is_padding_def)
qed simp

lemma packets_append:
  "bytes ms = length bs \<Longrightarrow> packets (ms @ ns) (bs @ cs) = packets ms bs @ packets ns cs"
proof (induction ms arbitrary: bs)
  case (Cons m ms)
  have "packets (ms @ ns) (drop (meta_size m) bs @ cs) = packets ms (drop (meta_size m) bs) @ packets ns cs"
    using Cons.prems by (intro Cons.IH) simp
  moreover have "meta_size m - length bs = 0" using Cons.prems by simp
  ultimately show ?case by (simp split: option.split)
qed simp

lemma pb_inv_D:
  assumes "pb_inv pb"
  shows "rb_inv (metadata_ring pb)" "rb_inv (payload_ring pb)"
    "bytes (contents (metadata_ring pb)) = length (contents (payload_ring pb))"
    "bytes (contents (metadata_ring pb)) = rb_len (payload_ring pb)"
    "layout (capacity (payload_ring pb)) (read_at (payload_ring pb)) (contents (metadata_ring pb))"
  using assms by (auto simp: pb_inv_def length_contents)

text \<open>The position of the next free payload byte.\<close>

definition write_pos :: "'b ring_buffer \<Rightarrow> nat" where
  "write_pos rb = get_idx (norm_read rb) (rb_len rb)"

lemma write_pos_eq:
  assumes "rb_inv rb"
  shows "write_pos rb = (read_at (norm_read rb) + rb_len rb) mod capacity rb"
    and "contiguous_window (norm_read rb) = min (capacity rb - rb_len rb) (capacity rb - write_pos rb)"
    and "write_pos rb \<le> capacity rb - 1"
proof -
  note n = norm_read [OF assms]
  show eq: "write_pos rb = (read_at (norm_read rb) + rb_len rb) mod capacity rb"
    using get_idx_eq(1) [OF n(1)] n(3,4) rb_inv_len [OF assms] by (simp add: write_pos_def)
  show "contiguous_window (norm_read rb) = min (capacity rb - rb_len rb) (capacity rb - write_pos rb)"
    using contiguous_window_eq [OF n(1)] n(3,4) by (simp add: write_pos_def)
  show "write_pos rb \<le> capacity rb - 1"
    unfolding eq using n(1,3) rb_inv_len [OF assms] by (cases "capacity rb") (auto simp: rb_inv_def)
qed

text \<open>Appending one description and its bytes to both rings.\<close>

lemma push_inv:
  assumes inv: "pb_inv pb" and meta: "rb_inv meta" "contents meta = contents (metadata_ring pb) @ [m]"
    and pay: "rb_inv pay" "capacity pay = capacity (payload_ring pb)"
      "rb_len pay = rb_len (payload_ring pb) + meta_size m" "read_at pay = read_at (norm_read (payload_ring pb))"
    and fit: "write_pos (payload_ring pb) + meta_size m \<le> capacity (payload_ring pb)"
    and pad: "is_padding m \<Longrightarrow> 0 < write_pos (payload_ring pb) \<and> 0 < meta_size m \<and>
      write_pos (payload_ring pb) + meta_size m = capacity (payload_ring pb)"
  shows "pb_inv \<lparr>metadata_ring = meta, payload_ring = pay\<rparr>"
proof -
  let ?ms = "contents (metadata_ring pb)" and ?c = "capacity (payload_ring pb)"
  let ?r = "read_at (norm_read (payload_ring pb))"
  note d = pb_inv_D [OF inv] and n = norm_read [OF pb_inv_D(2) [OF inv]]
  have r: "?r \<le> ?c - 1" using n(1,3) by (simp add: rb_inv_def)
  have old: "layout ?c ?r ?ms"
  proof (cases "rb_len (payload_ring pb) = 0")
    case True
    then show ?thesis using layout_zero [OF r d(5)] d(4) by simp
  next
    case False
    then show ?thesis using d(5) by (simp add: norm_read_def)
  qed
  have "(if ?ms = [] then ?r else (?r + bytes ?ms) mod ?c) = write_pos (payload_ring pb)"
  proof (cases "?ms = []")
    case True
    then have "rb_len (payload_ring pb) = 0" using d(4) by simp
    then show ?thesis using True r write_pos_eq(1) [OF d(2)] by (cases ?c) auto
  next
    case False
    then show ?thesis using write_pos_eq(1) [OF d(2)] d(4) by simp
  qed
  then have "layout ?c ?r (?ms @ [m])" using old fit pad by (simp add: layout_append)
  then show ?thesis using meta pay d(4) by (simp add: pb_inv_def)
qed

lemma push_queued:
  assumes "pb_inv pb" "contents meta = contents (metadata_ring pb) @ [m]"
    "contents pay = contents (payload_ring pb) @ cs"
  shows "queued \<lparr>metadata_ring = meta, payload_ring = pay\<rparr> = queued pb @ packets [m] cs"
  using packets_append [OF pb_inv_D(3) [OF assms(1)]] assms(2,3) by (simp add: queued_def)

lemma enqueue_filled_spec:
  assumes "rb_inv rb" "sz \<le> contiguous_window (norm_read rb)" "length data = sz"
  shows "\<exists>rb'. enqueue_filled sz data rb = Some (sz, rb') \<and> rb_inv rb' \<and> capacity rb' = capacity rb \<and>
    rb_len rb' = rb_len rb + sz \<and> contents rb' = contents rb @ data \<and> read_at rb' = read_at (norm_read rb)"
proof -
  let ?cw = "contiguous_window (norm_read rb)"
  let ?buf = "read_slice (storage rb) (get_idx (norm_read rb) (rb_len rb)) ?cw"
  let ?f = "\<lambda>buf. let n = min sz (length buf) in (take n data @ drop n buf, n, ())"
  have buf: "length ?buf = ?cw" by (rule length_free_slice [OF assms(1) refl])
  have f: "?f ?buf = (data @ drop sz ?buf, sz, ())" using assms(2,3) by (simp add: buf Let_def)
  have "length (data @ drop sz ?buf) = ?cw" using buf assms(2,3) by simp
  from enqueue_many_gen [where f = ?f, OF assms(1) refl f this assms(2)] show ?thesis
    using assms(3) by (auto simp: enqueue_filled_def)
qed

lemma enqueue_many_spec:
  assumes "rb_inv rb" "sz \<le> contiguous_window (norm_read rb)"
  shows "\<exists>rb' cs. enqueue_many sz rb = Some (sz, rb') \<and> rb_inv rb' \<and> capacity rb' = capacity rb \<and>
    rb_len rb' = rb_len rb + sz \<and> contents rb' = contents rb @ cs \<and> length cs = sz \<and>
    read_at rb' = read_at (norm_read rb)"
proof -
  let ?cw = "contiguous_window (norm_read rb)"
  let ?buf = "read_slice (storage rb) (get_idx (norm_read rb) (rb_len rb)) ?cw"
  let ?f = "\<lambda>buf. (buf, min sz (length buf), ())"
  have buf: "length ?buf = ?cw" by (rule length_free_slice [OF assms(1) refl])
  have f: "?f ?buf = (?buf, sz, ())" using assms(2) by (simp add: buf)
  from enqueue_many_gen [where f = ?f, OF assms(1) refl f buf assms(2)] show ?thesis
    using buf assms(2) by (fastforce simp: enqueue_many_def)
qed

text \<open>The buffer after the payload ring was cleared if empty.\<close>

definition fresh :: "('h, 'b) packet_buffer \<Rightarrow> ('h, 'b) packet_buffer" where
  "fresh pb = (if rb_is_empty (payload_ring pb) then pb\<lparr>payload_ring := rb_clear (payload_ring pb)\<rparr> else pb)"

lemma fresh:
  assumes "pb_inv pb"
  shows "pb_inv (fresh pb)" "queued (fresh pb) = queued pb" "norm_read (payload_ring (fresh pb)) = payload_ring (fresh pb)"
    "metadata_ring (fresh pb) = metadata_ring pb" "capacity (payload_ring (fresh pb)) = capacity (payload_ring pb)"
    "rb_len (payload_ring (fresh pb)) = rb_len (payload_ring pb)"
proof -
  note d = pb_inv_D [OF assms]
  have "layout (capacity (payload_ring pb)) 0 (contents (metadata_ring pb))" if "rb_len (payload_ring pb) = 0"
    using layout_zero [OF _ d(5), of 0] d(4) that by simp
  then show "pb_inv (fresh pb)"
    using assms by (auto simp: fresh_def pb_inv_def rb_is_empty_def rb_clear_def rb_inv_def capacity_def)
  show "queued (fresh pb) = queued pb"
    by (simp add: fresh_def queued_def rb_is_empty_def rb_clear_def contents_def)
qed (auto simp: fresh_def norm_read_def rb_is_empty_def rb_clear_def capacity_def)

lemma enqueue_padding_spec:
  assumes inv: "pb_inv pb" and room: "rb_len (metadata_ring pb) < capacity (metadata_ring pb)"
    and norm: "norm_read (payload_ring pb) = payload_ring pb" and contig: "contig = contiguous_window (payload_ring pb)"
    and short: "contig < window (payload_ring pb)"
  shows "\<exists>pb'. enqueue_padding contig pb = Some (pb', Inr ()) \<and> pb_inv pb' \<and> queued pb' = queued pb \<and>
    write_pos (payload_ring pb') = 0 \<and> rb_len (payload_ring pb') = rb_len (payload_ring pb) + contig \<and>
    capacity (payload_ring pb') = capacity (payload_ring pb)"
proof -
  let ?pay = "payload_ring pb" and ?c = "capacity (payload_ring pb)"
  note d = pb_inv_D [OF inv] and wp = write_pos_eq [OF pb_inv_D(2) [OF inv], unfolded norm]
  obtain meta where meta: "enqueue_one (padding contig) (metadata_ring pb) = Inr meta" "rb_inv meta"
    "contents meta = contents (metadata_ring pb) @ [padding contig]"
    using enqueue_one_spec(2) [OF d(1) room] by blast
  obtain pay cs where pay: "enqueue_many contig ?pay = Some (contig, pay)" "rb_inv pay" "capacity pay = ?c"
    "rb_len pay = rb_len ?pay + contig" "contents pay = contents ?pay @ cs" "read_at pay = read_at ?pay"
    using enqueue_many_spec [OF d(2), of contig] contig norm by auto
  have len: "rb_len ?pay \<le> ?c" by (rule rb_inv_len [OF d(2)])
  have ends: "contig = ?c - write_pos ?pay" "0 < write_pos ?pay" "0 < contig" "0 < ?c"
    using short wp(2,3) contig window_eq [OF d(2)] by linarith+
  let ?pb = "\<lparr>metadata_ring = meta, payload_ring = pay\<rparr>"
  have "pb_inv ?pb"
    using meta pay norm ends wp(3) by (intro push_inv [OF inv]) auto
  moreover have "queued ?pb = queued pb" using push_queued [OF inv meta(3) pay(5)] by simp
  moreover have "write_pos pay = 0"
  proof -
    have "norm_read pay = pay" using ends(3) pay(4) by (simp add: norm_read_def)
    then have "write_pos pay = ((read_at ?pay + rb_len ?pay) mod ?c + contig) mod ?c"
      using write_pos_eq(1) [OF pay(2)] pay(3,4,6) by (simp add: mod_add_left_eq add.assoc)
    then show ?thesis using wp(1,3) ends by simp
  qed
  ultimately show ?thesis using meta pay by (auto simp: enqueue_padding_def)
qed

lemma enqueue_packet_spec:
  assumes inv: "pb_inv pb" and len: "length data = sz"
    and fit: "sz \<le> contiguous_window (norm_read (payload_ring pb))"
  shows "\<exists>pb' r. (case enqueue_one (packet sz h) (metadata_ring pb) of
      Inl Full \<Rightarrow> Some (pb, Inl Full)
    | Inr meta \<Rightarrow> map_option (\<lambda>(_, pay). (\<lparr>metadata_ring = meta, payload_ring = pay\<rparr>, Inr ()))
        (enqueue_filled sz data (payload_ring pb))) = Some (pb', r) \<and> pb_inv pb' \<and>
    (if rb_is_full (metadata_ring pb) then r = Inl Full \<and> queued pb' = queued pb
     else r = Inr () \<and> queued pb' = queued pb @ [(h, data)])"
proof (cases "rb_len (metadata_ring pb) = capacity (metadata_ring pb)")
  case True
  then show ?thesis
    using enqueue_one_spec(1) [OF pb_inv_D(1) [OF inv]] inv window_eq [OF pb_inv_D(1) [OF inv]]
    by (simp add: rb_is_full_def)
next
  case False
  note d = pb_inv_D [OF inv] and wp = write_pos_eq [OF pb_inv_D(2) [OF inv]]
  have "rb_len (metadata_ring pb) < capacity (metadata_ring pb)" using False rb_inv_len [OF d(1)] by simp
  then obtain meta where meta: "enqueue_one (packet sz h) (metadata_ring pb) = Inr meta" "rb_inv meta"
    "contents meta = contents (metadata_ring pb) @ [packet sz h]"
    using enqueue_one_spec(2) [OF d(1)] by blast
  obtain pay where pay: "enqueue_filled sz data (payload_ring pb) = Some (sz, pay)" "rb_inv pay"
    "capacity pay = capacity (payload_ring pb)" "rb_len pay = rb_len (payload_ring pb) + sz"
    "contents pay = contents (payload_ring pb) @ data" "read_at pay = read_at (norm_read (payload_ring pb))"
    using enqueue_filled_spec [OF d(2) fit len] by blast
  have w: "write_pos (payload_ring pb) + sz \<le> capacity (payload_ring pb)" using fit wp(2,3) by linarith
  have "pb_inv \<lparr>metadata_ring = meta, payload_ring = pay\<rparr>"
    using meta pay w by (intro push_inv [OF inv]) auto
  moreover have "queued \<lparr>metadata_ring = meta, payload_ring = pay\<rparr> = queued pb @ [(h, data)]"
    using push_queued [OF inv meta(3) pay(5)] len by simp
  moreover have "\<not> rb_is_full (metadata_ring pb)"
    using False rb_inv_len [OF d(1)] by (simp add: rb_is_full_def window_eq [OF d(1)])
  ultimately show ?thesis using meta(1) pay(1) by simp
qed

lemma enqueue_spec:
  assumes inv: "pb_inv pb" and len: "length data = sz"
  shows "\<exists>pb' r. enqueue sz h data pb = Some (pb', r) \<and> pb_inv pb' \<and>
    (r = Inr () \<and> queued pb' = queued pb @ [(h, data)] \<or> r = Inl Full \<and> queued pb' = queued pb) \<and>
    (sz \<le> contiguous_window (payload_ring (fresh pb)) \<longrightarrow> \<not> pb_is_full pb \<longrightarrow> r = Inr ())"
proof -
  let ?pb = "fresh pb" and ?pay = "payload_ring (fresh pb)"
  note f = fresh [OF inv] and d = pb_inv_D [OF fresh(1) [OF inv]]
  have cw: "contiguous_window ?pay \<le> window ?pay"
    using write_pos_eq(2) [OF d(2)] f(3) window_eq [OF d(2)] by simp
  have wc: "window ?pay \<le> capacity ?pay" using window_eq [OF d(2)] by simp
  have def: "enqueue sz h data pb =
     (if capacity (payload_ring pb) < sz \<or> rb_is_full (metadata_ring pb) then Some (pb, Inl Full)
      else if window ?pay < sz then Some (?pb, Inl Full)
      else if contiguous_window ?pay < sz \<and> window ?pay - contiguous_window ?pay < sz then Some (?pb, Inl Full)
      else Option.bind (if contiguous_window ?pay < sz then enqueue_padding (contiguous_window ?pay) ?pb else Some (?pb, Inr ()))
        (\<lambda>(pb2, r). case r of
           Inl Full \<Rightarrow> Some (pb2, Inl Full)
         | Inr _ \<Rightarrow>
             (case enqueue_one (packet sz h) (metadata_ring pb2) of
                Inl Full \<Rightarrow> Some (pb2, Inl Full)
              | Inr meta \<Rightarrow> map_option (\<lambda>(_, pay). (\<lparr>metadata_ring = meta, payload_ring = pay\<rparr>, Inr ()))
                  (enqueue_filled sz data (payload_ring pb2)))))"
    unfolding enqueue_def fresh_def Let_def ..
  consider (full) "capacity (payload_ring pb) < sz \<or> rb_is_full (metadata_ring pb)"
    | (refused) "\<not> (capacity (payload_ring pb) < sz \<or> rb_is_full (metadata_ring pb))"
        "window ?pay < sz \<or> contiguous_window ?pay < sz \<and> window ?pay - contiguous_window ?pay < sz"
    | (direct) "\<not> (capacity (payload_ring pb) < sz \<or> rb_is_full (metadata_ring pb))" "\<not> contiguous_window ?pay < sz"
    | (padded) "\<not> (capacity (payload_ring pb) < sz \<or> rb_is_full (metadata_ring pb))" "contiguous_window ?pay < sz"
        "\<not> window ?pay < sz" "\<not> window ?pay - contiguous_window ?pay < sz"
    by blast
  then show ?thesis
  proof cases
    case full
    have "pb_is_full pb \<or> \<not> sz \<le> contiguous_window ?pay"
      using full cw wc f(5) by (auto simp: pb_is_full_def)
    then show ?thesis unfolding def using full inv by auto
  next
    case refused
    then show ?thesis unfolding def using f(1,2) cw by auto
  next
    case direct
    have "sz \<le> contiguous_window (norm_read ?pay)" using direct(2) f(3) by simp
    from enqueue_packet_spec [OF f(1) len this, of h] obtain pb' r where
      "(case enqueue_one (packet sz h) (metadata_ring ?pb) of
      Inl Full \<Rightarrow> Some (?pb, Inl Full)
    | Inr meta \<Rightarrow> map_option (\<lambda>(_, pay). (\<lparr>metadata_ring = meta, payload_ring = pay\<rparr>, Inr ()))
        (enqueue_filled sz data (payload_ring ?pb))) = Some (pb', r)" "pb_inv pb'"
      "r = Inr ()" "queued pb' = queued ?pb @ [(h, data)]"
      using direct(1) f(4) by auto
    moreover have "\<not> window ?pay < sz" using direct(2) cw by linarith
    ultimately show ?thesis unfolding def using direct f(2) by simp
  next
    case padded
    have room: "rb_len (metadata_ring ?pb) < capacity (metadata_ring ?pb)"
      using padded(1) window_eq [OF d(1)] rb_inv_len [OF d(1)] f(4) by (simp add: rb_is_full_def)
    have "contiguous_window ?pay < window ?pay" using padded by linarith
    from enqueue_padding_spec [OF f(1) room f(3) refl this] obtain pb2 where
      pb2: "enqueue_padding (contiguous_window ?pay) ?pb = Some (pb2, Inr ())" "pb_inv pb2" "queued pb2 = queued ?pb"
      "write_pos (payload_ring pb2) = 0" "rb_len (payload_ring pb2) = rb_len ?pay + contiguous_window ?pay"
      "capacity (payload_ring pb2) = capacity ?pay" by blast
    have "sz \<le> contiguous_window (norm_read (payload_ring pb2))"
      using write_pos_eq(2) [OF pb_inv_D(2) [OF pb2(2)]] pb2(4-6) padded(1,4) window_eq [OF d(2)] by linarith
    from enqueue_packet_spec [OF pb2(2) len this, of h] obtain pb' r where
      "(case enqueue_one (packet sz h) (metadata_ring pb2) of
      Inl Full \<Rightarrow> Some (pb2, Inl Full)
    | Inr meta \<Rightarrow> map_option (\<lambda>(_, pay). (\<lparr>metadata_ring = meta, payload_ring = pay\<rparr>, Inr ()))
        (enqueue_filled sz data (payload_ring pb2))) = Some (pb', r)" "pb_inv pb'"
      "r = Inl Full \<and> queued pb' = queued pb2 \<or> r = Inr () \<and> queued pb' = queued pb2 @ [(h, data)]"
      by (auto split: if_splits)
    then show ?thesis unfolding def using padded pb2(1,3) f(2) by auto
  qed
qed

lemma dequeue_many_spec:
  assumes "rb_inv rb" "n \<le> rb_len rb" "read_at rb + n \<le> capacity rb"
  shows "\<exists>rb'. dequeue_many n rb = Some (take n (contents rb), rb') \<and> rb_inv rb' \<and> capacity rb' = capacity rb \<and>
    rb_len rb' = rb_len rb - n \<and> contents rb' = drop n (contents rb) \<and>
    (0 < capacity rb \<longrightarrow> read_at rb' = (read_at rb + n) mod capacity rb)"
proof -
  have f: "(\<lambda>buf. (buf, min n (length buf), take (min n (length buf)) buf)) = copy_out n"
    by (simp add: fun_eq_iff copy_out_def Let_def min.commute)
  have m: "min (min (rb_len rb) (capacity rb - read_at rb)) n = n" using assms by simp
  show ?thesis using dequeue_many_copy [OF assms(1), of n] unfolding m dequeue_many_def f by auto
qed

text \<open>Removing the first description and its bytes from both rings.\<close>

lemma pop_inv:
  assumes inv: "pb_inv pb" and ms: "contents (metadata_ring pb) = m # ms" and meta: "rb_inv meta" "contents meta = ms"
  shows "\<exists>pay. dequeue_many (meta_size m) (payload_ring pb) =
      Some (take (meta_size m) (contents (payload_ring pb)), pay) \<and>
    pb_inv \<lparr>metadata_ring = meta, payload_ring = pay\<rparr> \<and>
    queued \<lparr>metadata_ring = meta, payload_ring = pay\<rparr> = packets ms (drop (meta_size m) (contents (payload_ring pb))) \<and>
    (is_padding m \<longrightarrow> layout (capacity pay) 0 ms)"
proof -
  let ?pay = "payload_ring pb" and ?c = "capacity (payload_ring pb)"
  note d = pb_inv_D [OF inv]
  have n: "meta_size m \<le> rb_len ?pay" "read_at ?pay + meta_size m \<le> ?c" using d(4,5) unfolding ms bytes_simps layout.simps by linarith+
  obtain pay where pay: "dequeue_many (meta_size m) ?pay = Some (take (meta_size m) (contents ?pay), pay)" "rb_inv pay"
    "capacity pay = ?c" "rb_len pay = rb_len ?pay - meta_size m" "contents pay = drop (meta_size m) (contents ?pay)"
    "0 < ?c \<longrightarrow> read_at pay = (read_at ?pay + meta_size m) mod ?c"
    using dequeue_many_spec [OF d(2) n] by (elim exE conjE) (rule that)
  have "read_at pay = (read_at ?pay + meta_size m) mod ?c"
    using pay(2,3,6) n by (cases ?c) (auto simp: rb_inv_def)
  then have "pb_inv \<lparr>metadata_ring = meta, payload_ring = pay\<rparr>"
    using pay meta d(4,5) ms by (simp add: pb_inv_def)
  moreover have "is_padding m \<longrightarrow> layout (capacity pay) 0 ms" using d(5) ms pay(3) by auto
  ultimately show ?thesis using pay(1,5) meta(2) by (auto simp: queued_def)
qed

lemma dequeue_padding_spec:
  assumes inv: "pb_inv pb"
  shows "\<exists>pb'. dequeue_padding pb = Some pb' \<and> pb_inv pb' \<and> queued pb' = queued pb \<and>
    (\<forall>m ms. contents (metadata_ring pb') = m # ms \<longrightarrow> \<not> is_padding m)"
proof (cases "contents (metadata_ring pb)")
  case Nil
  then have "rb_len (metadata_ring pb) = 0" using length_contents [OF pb_inv_D(1) [OF inv]] by simp
  then show ?thesis using inv Nil by (simp add: dequeue_padding_def dequeue_one_with_def rb_is_empty_def)
next
  case (Cons m ms)
  note d = pb_inv_D [OF inv]
  let ?f = "\<lambda>m. (m, if is_padding m then Inr (meta_size m) else Inl ())"
  obtain meta where meta: "dequeue_one_with ?f (metadata_ring pb) = Inr (if is_padding m then Inr (meta_size m) else Inl (), meta)"
    "rb_inv meta" "contents meta = (if is_padding m then ms else m # ms)" "\<not> is_padding m \<longrightarrow> meta = metadata_ring pb"
    using dequeue_one_with_spec [where f = ?f, OF d(1) Cons refl]
    by (cases "is_padding m") (auto simp: is_ok_def)
  show ?thesis
  proof (cases "is_padding m")
    case False
    then show ?thesis using meta inv Cons by (simp add: dequeue_padding_def)
  next
    case True
    from pop_inv [OF inv Cons meta(2)] meta(3) True obtain pay where
      pay: "dequeue_many (meta_size m) (payload_ring pb) = Some (take (meta_size m) (contents (payload_ring pb)), pay)"
      "pb_inv \<lparr>metadata_ring = meta, payload_ring = pay\<rparr>"
      "queued \<lparr>metadata_ring = meta, payload_ring = pay\<rparr> = packets ms (drop (meta_size m) (contents (payload_ring pb)))"
      "layout (capacity pay) 0 ms" by auto
    have "queued pb = packets ms (drop (meta_size m) (contents (payload_ring pb)))"
      using True Cons by (simp add: queued_def is_padding_def)
    moreover have "\<forall>x xs. ms = x # xs \<longrightarrow> \<not> is_padding x" using pay(4) by auto
    ultimately show ?thesis using meta(1,3) True pay(1-3) by (simp add: dequeue_padding_def)
  qed
qed

lemma dequeue_spec:
  assumes inv: "pb_inv pb"
  shows "\<exists>pb' r. dequeue pb = Some (pb', r) \<and> pb_inv pb' \<and>
    (case queued pb of [] \<Rightarrow> r = Inl Empty \<and> queued pb' = [] | p # ps \<Rightarrow> r = Inr p \<and> queued pb' = ps)"
proof -
  obtain pb1 where pb1: "dequeue_padding pb = Some pb1" "pb_inv pb1" "queued pb1 = queued pb"
    "\<forall>m ms. contents (metadata_ring pb1) = m # ms \<longrightarrow> \<not> is_padding m"
    using dequeue_padding_spec [OF inv] by blast
  note d = pb_inv_D [OF pb1(2)]
  show ?thesis
  proof (cases "contents (metadata_ring pb1)")
    case Nil
    then have "rb_len (metadata_ring pb1) = 0" "queued pb = []"
      using length_contents [OF d(1)] pb1(3) by (simp_all add: queued_def)
    then show ?thesis using pb1 by (simp add: dequeue_def dequeue_one_with_def rb_is_empty_def)
  next
    case (Cons m ms)
    let ?f = "\<lambda>m. (m\<lparr>header := None\<rparr>, Inr m :: unit + _)"
    obtain meta where meta: "dequeue_one_with ?f (metadata_ring pb1) = Inr (Inr m, meta)" "rb_inv meta" "contents meta = ms"
      using dequeue_one_with_spec [where f = ?f, OF d(1) Cons refl] by (auto simp: is_ok_def)
    obtain h where h: "header m = Some h" using pb1(4) Cons by (auto simp: is_padding_def)
    from pop_inv [OF pb1(2) Cons meta(2,3)] obtain pay where
      "dequeue_many (meta_size m) (payload_ring pb1) = Some (take (meta_size m) (contents (payload_ring pb1)), pay)"
      "pb_inv \<lparr>metadata_ring = meta, payload_ring = pay\<rparr>"
      "queued \<lparr>metadata_ring = meta, payload_ring = pay\<rparr> = packets ms (drop (meta_size m) (contents (payload_ring pb1)))"
      by blast
    moreover have "queued pb = (h, take (meta_size m) (contents (payload_ring pb1))) #
        packets ms (drop (meta_size m) (contents (payload_ring pb1)))"
      using pb1(3) Cons h by (simp add: queued_def)
    ultimately show ?thesis using pb1(1) meta(1) h by (simp add: dequeue_def)
  qed
qed


text \<open>C36: \<open>enqueue_with_infallible\<close> loses track of payload bytes. When the packet needs padding and the padding
  takes the last free description, the call reports \<open>Full\<close> but the bytes it wrote stay in the payload
  ring with no description, so the payload of every later packet is read from the wrong place.\<close>

theorem enqueue_with_infallible_orphans:
  assumes "pb_inv pb" and "rb_len (metadata_ring pb) + 1 = capacity (metadata_ring pb)"
    and "0 < rb_len (payload_ring pb)" and "contiguous_window (payload_ring pb) < max_size"
    and "max_size \<le> window (payload_ring pb) - contiguous_window (payload_ring pb)"
    and "\<And>bs. length bs = max_size \<Longrightarrow> f bs = (g bs, n) \<and> length (g bs) = max_size" and "n \<le> max_size"
  shows "\<exists>pb'. enqueue_with_infallible max_size h f pb = Some (pb', Inl Full) \<and>
    rb_len (payload_ring pb') = bytes (contents (metadata_ring pb')) + n \<and> (0 < n \<longrightarrow> \<not> pb_inv pb')"
proof -
  let ?pay = "payload_ring pb" and ?cw = "contiguous_window (payload_ring pb)"
  note d = pb_inv_D [OF assms(1)]
  have norm: "norm_read ?pay = ?pay" using assms(3) by (simp add: norm_read_def)
  have "?cw < window ?pay" using assms(4,5) by linarith
  from enqueue_padding_spec [OF assms(1) _ norm refl this] assms(2) obtain pb2 where
    pb2: "enqueue_padding ?cw pb = Some (pb2, Inr ())" "pb_inv pb2" "write_pos (payload_ring pb2) = 0"
    "rb_len (payload_ring pb2) = rb_len ?pay + ?cw" "capacity (payload_ring pb2) = capacity ?pay" by auto
  obtain meta where meta: "enqueue_one (padding ?cw) (metadata_ring pb) = Inr meta" "rb_inv meta"
    "rb_len meta = capacity meta"
    using enqueue_one_spec(2) [OF d(1), of "padding ?cw"] assms(2) by auto
  have m2: "metadata_ring pb2 = meta" using pb2(1) meta(1) by (auto simp: enqueue_padding_def)
  note d2 = pb_inv_D [OF pb2(2)]
  let ?cw2 = "contiguous_window (norm_read (payload_ring pb2))"
  have fit: "max_size \<le> ?cw2"
    using write_pos_eq(2) [OF d2(2)] pb2(3-5) assms(5) window_eq [OF d(2)] rb_inv_len [OF d(2)] by linarith
  let ?buf = "read_slice (storage (payload_ring pb2)) (get_idx (norm_read (payload_ring pb2)) (rb_len (payload_ring pb2))) ?cw2"
  let ?f = "\<lambda>buf. let (bs, n) = f (take max_size buf) in (bs @ drop max_size buf, n, ())"
  have buf: "length ?buf = ?cw2" by (rule length_free_slice [OF d2(2) refl])
  then have tk: "length (take max_size ?buf) = max_size" using fit by simp
  have f: "?f ?buf = (g (take max_size ?buf) @ drop max_size ?buf, n, ())" using assms(6) [OF tk] by simp
  have len: "length (g (take max_size ?buf) @ drop max_size ?buf) = ?cw2" using assms(6) [OF tk] buf fit by simp
  have "n \<le> ?cw2" using assms(7) fit by simp
  from enqueue_many_gen [where f = ?f, OF d2(2) refl f len this] obtain pay where
    pay: "enqueue_many_with ?f (payload_ring pb2) = Some (n, (), pay)" "rb_len pay = rb_len (payload_ring pb2) + n" by blast
  let ?pb = "pb2\<lparr>payload_ring := pay\<rparr>"
  have "enqueue_one (packet n h) (metadata_ring ?pb) = Inl Full"
    using enqueue_one_spec(1) [OF meta(2,3)] m2 by simp
  moreover have "\<not> (capacity ?pay < max_size \<or> rb_is_full (metadata_ring pb))"
    using assms(2,5) window_eq [OF d(2)] by (auto simp: rb_is_full_def window_eq [OF d(1)])
  moreover have "\<not> window ?pay < max_size" "\<not> window ?pay - ?cw < max_size" using assms(5) by linarith+
  ultimately have "enqueue_with_infallible max_size h f pb = Some (?pb, Inl Full)"
    using assms(4) pb2(1) fit pay(1) by (simp add: enqueue_with_infallible_def)
  moreover have bytes: "rb_len (payload_ring ?pb) = bytes (contents (metadata_ring ?pb)) + n" using d2(4) pay(2) by simp
  moreover have "\<not> pb_inv ?pb" if "0 < n" using bytes that by (auto dest: pb_inv_D(4))
  ultimately show ?thesis by blast
qed

section \<open>Concrete instances\<close>

text \<open>Two descriptions, ten payload bytes, one packet of two bytes that ends two bytes before the end of
  the storage.\<close>

definition demo_pb :: "(char, nat) packet_buffer" where
  "demo_pb = \<lparr>metadata_ring = \<lparr>storage = [padding 0, packet 2 CHR ''b''], read_at = 1, rb_len = 1\<rparr>,
     payload_ring = \<lparr>storage = [0, 1, 2, 3, 4, 5, 6, 7, 8, 9], read_at = 6, rb_len = 2\<rparr>\<rparr>"

lemma demo_pb_inv: "pb_inv demo_pb" "queued demo_pb = [(CHR ''b'', [6, 7])]"
  by (simp_all add: demo_pb_def pb_inv_def rb_inv_def capacity_def usize_bound_def contents_def view_def
      rotate_drop_take queued_def)


theorem enqueue_with_infallible_orphans_witness:
  "\<exists>pb'. enqueue_with_infallible 5 CHR ''c'' (\<lambda>bs. (bs, 5)) demo_pb = Some (pb', Inl Full) \<and> \<not> pb_inv pb'"
proof -
  have m: "rb_len (metadata_ring demo_pb) + 1 = capacity (metadata_ring demo_pb)" "0 < rb_len (payload_ring demo_pb)"
    by (simp_all add: demo_pb_def capacity_def)
  have w: "contiguous_window (payload_ring demo_pb) = 2" "window (payload_ring demo_pb) = 8"
    by (simp_all add: demo_pb_def contiguous_window_def window_def capacity_def get_idx_def
        usize_add_def usize_sub_def usize_bound_def)
  from enqueue_with_infallible_orphans [OF demo_pb_inv(1) m, of 5 "\<lambda>bs. (bs, 5)" "\<lambda>bs. bs" 5 "CHR ''c''"] w
  show ?thesis by auto
qed

end
