(* ===== verification/Page_Entry.thy ===== *)
theory Page_Entry
  imports Prelude "HOL-Library.Word"
begin

unbundle bit_operations_syntax

text \<open>
  Page-table entries (\<open>crates/page_table_multiarch/page_table_entry\<close>): the generic mapping flags, the
  trait \<open>GenericPTE\<close> as a record of operations, and its implementations for the two architectures the
  kernel is built for, RISC-V and LoongArch. \<open>MappingFlags\<close> is a \<open>bitflags\<close> type whose only values are
  unions of the named bits; it is a set of named flags here. A raw entry is its 64-bit word. An
  assertion that fails is \<open>None\<close>.
\<close>

section \<open>Mapping flags\<close>

datatype mapping_flag = READ | WRITE | EXECUTE | USER | DEVICE | UNCACHED | ALLOC_FRAME | PROT_NONE

type_synonym mapping_flags = "mapping_flag set"

section \<open>The trait \<open>GenericPTE\<close>\<close>

text \<open>\<open>pte_zero\<close> is the entry whose bytes are all zero, as a freshly zeroed table holds it.\<close>

record 'p pte_ops =
  new_page :: "usize \<Rightarrow> mapping_flags \<Rightarrow> bool \<Rightarrow> 'p option"
  new_table :: "usize \<Rightarrow> 'p"
  pte_paddr :: "'p \<Rightarrow> usize"
  pte_flags_of :: "'p \<Rightarrow> mapping_flags"
  set_paddr :: "'p \<Rightarrow> usize \<Rightarrow> 'p"
  set_flags :: "'p \<Rightarrow> mapping_flags \<Rightarrow> bool \<Rightarrow> 'p option"
  is_unused :: "'p \<Rightarrow> bool"
  is_present :: "'p \<Rightarrow> bool"
  is_huge :: "'p \<Rightarrow> bool"
  pte_clear :: "'p \<Rightarrow> 'p"
  pte_zero :: 'p

section \<open>Flag words\<close>

definition flag_bit :: "nat \<Rightarrow> 64 word" where
  "flag_bit n = push_bit n 1"

definition contains_bits :: "64 word \<Rightarrow> 64 word \<Rightarrow> bool" where
  "contains_bits f g \<longleftrightarrow> f AND g = g"

definition intersects_bits :: "64 word \<Rightarrow> 64 word \<Rightarrow> bool" where
  "intersects_bits f g \<longleftrightarrow> f AND g \<noteq> 0"

section \<open>RISC-V\<close>

abbreviation (input) rv_V :: "64 word" where "rv_V \<equiv> flag_bit 0"
abbreviation (input) rv_R :: "64 word" where "rv_R \<equiv> flag_bit 1"
abbreviation (input) rv_W :: "64 word" where "rv_W \<equiv> flag_bit 2"
abbreviation (input) rv_X :: "64 word" where "rv_X \<equiv> flag_bit 3"
abbreviation (input) rv_U :: "64 word" where "rv_U \<equiv> flag_bit 4"
abbreviation (input) rv_A :: "64 word" where "rv_A \<equiv> flag_bit 6"
abbreviation (input) rv_D :: "64 word" where "rv_D \<equiv> flag_bit 7"
abbreviation (input) rv_ALLOC_FRAME :: "64 word" where "rv_ALLOC_FRAME \<equiv> flag_bit 8"
abbreviation (input) rv_PROT_NONE :: "64 word" where "rv_PROT_NONE \<equiv> flag_bit 9"

definition rv_all_flags :: "64 word" where
  "rv_all_flags = mask 10"

definition rv_to_mapping :: "64 word \<Rightarrow> mapping_flags" where
  "rv_to_mapping f =
     (if contains_bits f rv_PROT_NONE then
        {PROT_NONE} \<union> (if contains_bits f rv_ALLOC_FRAME then {ALLOC_FRAME} else {})
      else if \<not> contains_bits f rv_V then {}
      else (if contains_bits f rv_R then {READ} else {}) \<union>
        (if contains_bits f rv_W then {WRITE} else {}) \<union>
        (if contains_bits f rv_X then {EXECUTE} else {}) \<union>
        (if contains_bits f rv_U then {USER} else {}) \<union>
        (if contains_bits f rv_ALLOC_FRAME then {ALLOC_FRAME} else {}))"

definition rv_from_mapping :: "mapping_flags \<Rightarrow> 64 word" where
  "rv_from_mapping f =
     (if PROT_NONE \<in> f then
        rv_PROT_NONE OR (if ALLOC_FRAME \<in> f then rv_ALLOC_FRAME else 0)
      else if f = {} then 0
      else rv_V OR (if READ \<in> f then rv_R else 0) OR (if WRITE \<in> f then rv_W else 0) OR
        (if EXECUTE \<in> f then rv_X else 0) OR (if USER \<in> f then rv_U else 0) OR
        (if ALLOC_FRAME \<in> f then rv_ALLOC_FRAME else 0))"

definition rv_phys_addr_mask :: "64 word" where
  "rv_phys_addr_mask = push_bit 54 1 - push_bit 10 1"

text \<open>The flag bits of a leaf: accessed and dirty are preset, and a leaf needs \<open>R\<close> or \<open>X\<close>.\<close>

definition rv_leaf_bits :: "mapping_flags \<Rightarrow> 64 word option" where
  "rv_leaf_bits flags =
     (let f = rv_from_mapping flags in
      if contains_bits f rv_PROT_NONE then Some f
      else if intersects_bits f (rv_R OR rv_X) then Some (f OR (rv_A OR rv_D))
      else None)"

definition rv_new_page :: "usize \<Rightarrow> mapping_flags \<Rightarrow> bool \<Rightarrow> 64 word option" where
  "rv_new_page paddr flags _ =
     map_option (\<lambda>f. f OR (drop_bit 2 (of_nat paddr) AND rv_phys_addr_mask)) (rv_leaf_bits flags)"

definition rv_new_table :: "usize \<Rightarrow> 64 word" where
  "rv_new_table paddr = rv_V OR (drop_bit 2 (of_nat paddr) AND rv_phys_addr_mask)"

definition rv_paddr :: "64 word \<Rightarrow> usize" where
  "rv_paddr e = unat (push_bit 2 (e AND rv_phys_addr_mask))"

definition rv_flags :: "64 word \<Rightarrow> mapping_flags" where
  "rv_flags e = rv_to_mapping (e AND rv_all_flags)"

definition rv_set_paddr :: "64 word \<Rightarrow> usize \<Rightarrow> 64 word" where
  "rv_set_paddr e paddr =
     (e AND NOT rv_phys_addr_mask) OR (drop_bit 2 (of_nat paddr) AND rv_phys_addr_mask)"

definition rv_set_flags :: "64 word \<Rightarrow> mapping_flags \<Rightarrow> bool \<Rightarrow> 64 word option" where
  "rv_set_flags e flags _ = map_option (\<lambda>f. (e AND rv_phys_addr_mask) OR f) (rv_leaf_bits flags)"

definition rv_is_unused :: "64 word \<Rightarrow> bool" where
  "rv_is_unused e \<longleftrightarrow> e = 0"

definition rv_is_present :: "64 word \<Rightarrow> bool" where
  "rv_is_present e \<longleftrightarrow> intersects_bits (e AND rv_all_flags) (rv_V OR rv_PROT_NONE)"

definition rv_is_huge :: "64 word \<Rightarrow> bool" where
  "rv_is_huge e \<longleftrightarrow> intersects_bits (e AND rv_all_flags) (rv_R OR rv_X OR rv_PROT_NONE)"

definition rv_clear :: "64 word \<Rightarrow> 64 word" where
  "rv_clear e = 0"

definition rv64_pte :: "64 word pte_ops" where
  "rv64_pte =
     \<lparr>new_page = rv_new_page, new_table = rv_new_table, pte_paddr = rv_paddr, pte_flags_of = rv_flags,
      set_paddr = rv_set_paddr, set_flags = rv_set_flags, is_unused = rv_is_unused,
      is_present = rv_is_present, is_huge = rv_is_huge, pte_clear = rv_clear, pte_zero = 0\<rparr>"

section \<open>LoongArch\<close>

abbreviation (input) la_V :: "64 word" where "la_V \<equiv> flag_bit 0"
abbreviation (input) la_D :: "64 word" where "la_D \<equiv> flag_bit 1"
abbreviation (input) la_PLVL :: "64 word" where "la_PLVL \<equiv> flag_bit 2"
abbreviation (input) la_PLVH :: "64 word" where "la_PLVH \<equiv> flag_bit 3"
abbreviation (input) la_MATL :: "64 word" where "la_MATL \<equiv> flag_bit 4"
abbreviation (input) la_MATH :: "64 word" where "la_MATH \<equiv> flag_bit 5"
abbreviation (input) la_GH :: "64 word" where "la_GH \<equiv> flag_bit 6"
abbreviation (input) la_P :: "64 word" where "la_P \<equiv> flag_bit 7"
abbreviation (input) la_W :: "64 word" where "la_W \<equiv> flag_bit 8"
abbreviation (input) la_ALLOC_FRAME :: "64 word" where "la_ALLOC_FRAME \<equiv> flag_bit 9"
abbreviation (input) la_PROT_NONE :: "64 word" where "la_PROT_NONE \<equiv> flag_bit 10"
abbreviation (input) la_G :: "64 word" where "la_G \<equiv> flag_bit 12"
abbreviation (input) la_NR :: "64 word" where "la_NR \<equiv> flag_bit 61"
abbreviation (input) la_NX :: "64 word" where "la_NX \<equiv> flag_bit 62"
abbreviation (input) la_RPLV :: "64 word" where "la_RPLV \<equiv> flag_bit 63"

definition la_all_flags :: "64 word" where
  "la_all_flags = mask 11 OR la_G OR la_NR OR la_NX OR la_RPLV"

definition la_to_mapping :: "64 word \<Rightarrow> mapping_flags" where
  "la_to_mapping f =
     (if contains_bits f la_PROT_NONE then
        {PROT_NONE} \<union> (if contains_bits f la_ALLOC_FRAME then {ALLOC_FRAME} else {})
      else if \<not> contains_bits f la_V then {}
      else (if \<not> contains_bits f la_NR then {READ} else {}) \<union>
        (if contains_bits f la_W then {WRITE} else {}) \<union>
        (if \<not> contains_bits f la_NX then {EXECUTE} else {}) \<union>
        (if contains_bits f (la_PLVL OR la_PLVH) then {USER} else {}) \<union>
        (if \<not> contains_bits f la_MATL then
           (if contains_bits f la_MATH then {UNCACHED} else {DEVICE}) else {}) \<union>
        (if contains_bits f la_ALLOC_FRAME then {ALLOC_FRAME} else {}))"

definition la_from_mapping :: "mapping_flags \<Rightarrow> 64 word" where
  "la_from_mapping f =
     (if PROT_NONE \<in> f then
        la_PROT_NONE OR (if ALLOC_FRAME \<in> f then la_ALLOC_FRAME else 0)
      else if f = {} then 0
      else (la_V OR la_P) OR (if READ \<notin> f then la_NR else 0) OR
        (if WRITE \<in> f then la_W OR la_D else 0) OR (if EXECUTE \<notin> f then la_NX else 0) OR
        (if USER \<in> f then la_PLVH OR la_PLVL else 0) OR
        (if DEVICE \<notin> f then (if UNCACHED \<in> f then la_MATH else la_MATL) else 0) OR
        (if ALLOC_FRAME \<in> f then la_ALLOC_FRAME else 0))"

definition la_phys_addr_mask :: "64 word" where
  "la_phys_addr_mask = 0x0000fffffffff000"

definition la_leaf_bits :: "mapping_flags \<Rightarrow> bool \<Rightarrow> 64 word" where
  "la_leaf_bits flags huge = (let f = la_from_mapping flags in if huge then f OR la_GH else f)"

definition la_new_page :: "usize \<Rightarrow> mapping_flags \<Rightarrow> bool \<Rightarrow> 64 word option" where
  "la_new_page paddr flags huge = Some (la_leaf_bits flags huge OR (of_nat paddr AND la_phys_addr_mask))"

definition la_new_table :: "usize \<Rightarrow> 64 word" where
  "la_new_table paddr = of_nat paddr AND la_phys_addr_mask"

definition la_paddr :: "64 word \<Rightarrow> usize" where
  "la_paddr e = unat (e AND la_phys_addr_mask)"

definition la_flags :: "64 word \<Rightarrow> mapping_flags" where
  "la_flags e = la_to_mapping (e AND la_all_flags)"

definition la_set_paddr :: "64 word \<Rightarrow> usize \<Rightarrow> 64 word" where
  "la_set_paddr e paddr = (e AND NOT la_phys_addr_mask) OR (of_nat paddr AND la_phys_addr_mask)"

definition la_set_flags :: "64 word \<Rightarrow> mapping_flags \<Rightarrow> bool \<Rightarrow> 64 word option" where
  "la_set_flags e flags huge = Some ((e AND la_phys_addr_mask) OR la_leaf_bits flags huge)"

definition la_is_unused :: "64 word \<Rightarrow> bool" where
  "la_is_unused e \<longleftrightarrow> e = 0"

definition la_is_present :: "64 word \<Rightarrow> bool" where
  "la_is_present e \<longleftrightarrow> \<not> la_is_unused e"

definition la_is_huge :: "64 word \<Rightarrow> bool" where
  "la_is_huge e \<longleftrightarrow> contains_bits (e AND la_all_flags) la_GH"

definition la_clear :: "64 word \<Rightarrow> 64 word" where
  "la_clear e = 0"

definition la64_pte :: "64 word pte_ops" where
  "la64_pte =
     \<lparr>new_page = la_new_page, new_table = la_new_table, pte_paddr = la_paddr, pte_flags_of = la_flags,
      set_paddr = la_set_paddr, set_flags = la_set_flags, is_unused = la_is_unused,
      is_present = la_is_present, is_huge = la_is_huge, pte_clear = la_clear, pte_zero = 0\<rparr>"

section \<open>The contract of an entry\<close>

text \<open>
  What the page table relies on. \<open>pa_bits\<close> bounds the physical addresses an entry can hold, \<open>leaf_ok\<close> are
  the flags a leaf may carry and \<open>stored\<close> is what the hardware format keeps of them. A huge entry must
  be recognisable, since in an upper table it is what tells a leaf from a table pointer.
\<close>

definition frame_addr :: "nat \<Rightarrow> usize \<Rightarrow> bool" where
  "frame_addr pa_bits pa \<longleftrightarrow> pa mod 4096 = 0 \<and> pa < 2 ^ pa_bits"

locale generic_pte =
  fixes P :: "'p pte_ops"
    and pa_bits :: nat
    and leaf_ok :: "mapping_flags \<Rightarrow> bool"
    and stored :: "mapping_flags \<Rightarrow> mapping_flags"
  assumes zero: "is_unused P e \<longleftrightarrow> e = pte_zero P" "\<not> is_present P (pte_zero P)"
      "\<not> is_huge P (pte_zero P)" "pte_paddr P (pte_zero P) = 0" "pte_clear P e = pte_zero P"
    and page: "frame_addr pa_bits pa \<Longrightarrow> leaf_ok fl \<Longrightarrow>
      \<exists>e. new_page P pa fl h = Some e \<and> pte_paddr P e = pa \<and> pte_flags_of P e = stored fl \<and>
        is_present P e \<and> (h \<longrightarrow> is_huge P e)"
    and table: "frame_addr pa_bits pa \<Longrightarrow> pa \<noteq> 0 \<Longrightarrow>
      pte_paddr P (new_table P pa) = pa \<and> is_present P (new_table P pa) \<and> \<not> is_huge P (new_table P pa)"
    and update: "leaf_ok fl \<Longrightarrow>
      \<exists>e'. set_flags P e fl h = Some e' \<and> pte_paddr P e' = pte_paddr P e \<and> pte_flags_of P e' = stored fl \<and>
        is_present P e' \<and> (h \<longrightarrow> is_huge P e')"
    and move: "frame_addr pa_bits pa \<Longrightarrow> pte_paddr P (set_paddr P e pa) = pa"


subsection \<open>Bits of words\<close>

lemma bit_flag_bit: "bit (flag_bit m) n \<longleftrightarrow> n = m \<and> n < 64"
  by (auto simp: flag_bit_def bit_simps)

lemma contains_flag: "m < 64 \<Longrightarrow> contains_bits f (flag_bit m) \<longleftrightarrow> bit f m"
  unfolding contains_bits_def bit_eq_iff by (auto simp: bit_and_iff bit_flag_bit)

lemma contains_or: "contains_bits f (g OR h) \<longleftrightarrow> contains_bits f g \<and> contains_bits f h"
  unfolding contains_bits_def bit_eq_iff by (auto simp: bit_and_iff bit_or_iff)

lemma intersects_flag: "m < 64 \<Longrightarrow> intersects_bits f (flag_bit m) \<longleftrightarrow> bit f m"
  unfolding intersects_bits_def bit_eq_iff by (auto simp: bit_and_iff bit_flag_bit)

lemma intersects_or: "intersects_bits f (g OR h) \<longleftrightarrow> intersects_bits f g \<or> intersects_bits f h"
  unfolding intersects_bits_def bit_eq_iff by (auto simp: bit_and_iff bit_or_iff)

lemmas flag_tests = contains_flag contains_or intersects_flag intersects_or

lemma bit_rv_mask: "bit rv_phys_addr_mask n \<longleftrightarrow> 10 \<le> n \<and> n < 54"
proof -
  have eq: "rv_phys_addr_mask = push_bit 10 (mask 44)" by (simp add: rv_phys_addr_mask_def mask_eq_exp_minus_1 push_bit_eq_mult)
  show ?thesis unfolding eq by (auto simp: bit_push_bit_iff bit_mask_iff)
qed

lemma bit_la_mask: "bit la_phys_addr_mask n \<longleftrightarrow> 12 \<le> n \<and> n < 48"
proof -
  have eq: "la_phys_addr_mask = push_bit 12 (mask 36)" by (simp add: la_phys_addr_mask_def mask_eq_exp_minus_1 push_bit_eq_mult)
  show ?thesis unfolding eq by (auto simp: bit_push_bit_iff bit_mask_iff)
qed

lemma bit_frame_addr:
  assumes "frame_addr k pa" "bit pa n"
  shows "12 \<le> n" "n < k"
proof -
  have "take_bit 12 pa = 0" using assms(1) by (simp add: frame_addr_def take_bit_eq_mod)
  then show "12 \<le> n" using assms(2) by (metis bit_take_bit_iff bit_0_eq bot_apply bot_boolE not_le)
  have "take_bit k pa = pa" using assms(1) by (simp add: frame_addr_def take_bit_nat_eq_self)
  then show "n < k" using assms(2) by (metis bit_take_bit_iff)
qed

lemma frame_addr_word:
  assumes "frame_addr k pa" "k \<le> 64"
  shows "bit (of_nat pa :: 64 word) n \<longleftrightarrow> bit pa n"
  using bit_frame_addr(2) [OF assms(1), of n] assms(2) by (auto simp: bit_of_nat_iff)

lemma frame_addr_unat:
  assumes "frame_addr k pa" "k \<le> 64"
  shows "unat (of_nat pa :: 64 word) = pa"
proof -
  have "(2::nat) ^ k \<le> 2 ^ 64" using assms(2) by (rule power_increasing) simp
  then have "pa < 2 ^ 64" using assms(1) by (auto simp: frame_addr_def)
  then show ?thesis by (simp add: unat_of_nat take_bit_nat_eq_self)
qed

subsection \<open>RISC-V entries\<close>

definition rv_leaf_ok :: "mapping_flags \<Rightarrow> bool" where
  "rv_leaf_ok fl \<longleftrightarrow> PROT_NONE \<in> fl \<or> READ \<in> fl \<or> EXECUTE \<in> fl"

definition rv_stored :: "mapping_flags \<Rightarrow> mapping_flags" where
  "rv_stored fl = (if PROT_NONE \<in> fl then fl \<inter> {PROT_NONE, ALLOC_FRAME} else fl - {DEVICE, UNCACHED})"

lemma bit_if: "bit (if c then v else w) n \<longleftrightarrow> (if c then bit v n else bit w n)"
  by simp

lemma bit_part:
  "bit (if c then flag_bit m else 0) n \<longleftrightarrow> n = m \<and> n < 64 \<and> c"
  "bit (if c then 0 else flag_bit m) n \<longleftrightarrow> n = m \<and> n < 64 \<and> \<not> c"
  "bit (if c then flag_bit m OR flag_bit k else 0) n \<longleftrightarrow> (n = m \<or> n = k) \<and> n < 64 \<and> c"
  "bit (if c then 0 else if d then flag_bit m else flag_bit k) n \<longleftrightarrow>
     n = m \<and> n < 64 \<and> \<not> c \<and> d \<or> n = k \<and> n < 64 \<and> \<not> c \<and> \<not> d"
  "bit (if c then v OR flag_bit m else v) n \<longleftrightarrow> bit v n \<or> n = m \<and> n < 64 \<and> c"
  by (auto simp: bit_or_iff bit_flag_bit)

lemma rv_paddr_or:
  assumes "frame_addr 56 pa" "\<And>n. bit f n \<Longrightarrow> n < 10 \<or> 54 \<le> n"
  shows "rv_paddr (f OR (drop_bit 2 (of_nat pa) AND rv_phys_addr_mask)) = pa"
proof -
  let ?w = "of_nat pa :: 64 word"
  have "bit (push_bit 2 ((f OR (drop_bit 2 ?w AND rv_phys_addr_mask)) AND rv_phys_addr_mask)) n \<longleftrightarrow> bit ?w n" for n
  proof (cases "2 \<le> n")
    case True
    then obtain m where m: "n = m + 2" by (metis le_add_diff_inverse2)
    have "10 \<le> m \<and> m < 54" if "bit pa n" using bit_frame_addr [OF assms(1) that] m by simp
    then show ?thesis
      using assms(2) [of m] m by (auto simp: bit_push_bit_iff bit_and_iff bit_or_iff bit_drop_bit_eq bit_rv_mask
          frame_addr_word [OF assms(1)])
  next
    case False
    then have "\<not> bit pa n" using bit_frame_addr(1) [OF assms(1), of n] by auto
    then show ?thesis using False by (simp add: bit_push_bit_iff bit_and_iff bit_or_iff frame_addr_word [OF assms(1)])
  qed
  then have "push_bit 2 ((f OR (drop_bit 2 ?w AND rv_phys_addr_mask)) AND rv_phys_addr_mask) = ?w"
    unfolding bit_eq_iff by blast
  then show ?thesis unfolding rv_paddr_def by (simp only: frame_addr_unat [OF assms(1)])
qed

lemma rv_bits:
  assumes "PROT_NONE \<notin> fl" "fl \<noteq> {}"
  shows "bit (rv_from_mapping fl) n \<longleftrightarrow> n < 64 \<and>
    (n = 0 \<or> n = 1 \<and> READ \<in> fl \<or> n = 2 \<and> WRITE \<in> fl \<or> n = 3 \<and> EXECUTE \<in> fl \<or> n = 4 \<and> USER \<in> fl \<or>
     n = 8 \<and> ALLOC_FRAME \<in> fl)"
proof -
  have eq: "rv_from_mapping fl = flag_bit 0 OR (if READ \<in> fl then flag_bit 1 else 0) OR
     (if WRITE \<in> fl then flag_bit 2 else 0) OR (if EXECUTE \<in> fl then flag_bit 3 else 0) OR
     (if USER \<in> fl then flag_bit 4 else 0) OR (if ALLOC_FRAME \<in> fl then flag_bit 8 else 0)"
    using assms by (simp add: rv_from_mapping_def)
  show ?thesis unfolding eq by (simp only: bit_part bit_or_iff bit_flag_bit) blast
qed

lemma rv_bits_none:
  assumes "PROT_NONE \<in> fl"
  shows "bit (rv_from_mapping fl) n \<longleftrightarrow> n < 64 \<and> (n = 9 \<or> n = 8 \<and> ALLOC_FRAME \<in> fl)"
proof -
  have eq: "rv_from_mapping fl = flag_bit 9 OR (if ALLOC_FRAME \<in> fl then flag_bit 8 else 0)"
    using assms by (simp add: rv_from_mapping_def)
  show ?thesis unfolding eq by (simp only: bit_part bit_or_iff bit_flag_bit) blast
qed

text \<open>A refused leaf, and the bits of an accepted one.\<close>

lemma rv_leaf_bits_None: "rv_leaf_bits fl = None \<longleftrightarrow> \<not> rv_leaf_ok fl"
proof (cases "fl = {}")
  case True
  then show ?thesis by (simp add: rv_leaf_bits_def rv_from_mapping_def rv_leaf_ok_def flag_tests)
next
  case False
  then show ?thesis
    by (cases "PROT_NONE \<in> fl") (simp_all add: rv_leaf_bits_def Let_def flag_tests rv_bits rv_bits_none rv_leaf_ok_def)
qed

lemma rv_leaf_bits_bit:
  assumes "rv_leaf_bits fl = Some f"
  shows "bit f n \<longleftrightarrow> n < 64 \<and> (if PROT_NONE \<in> fl then n = 9 \<or> n = 8 \<and> ALLOC_FRAME \<in> fl
    else n = 0 \<or> n = 1 \<and> READ \<in> fl \<or> n = 2 \<and> WRITE \<in> fl \<or> n = 3 \<and> EXECUTE \<in> fl \<or> n = 4 \<and> USER \<in> fl \<or>
     n = 8 \<and> ALLOC_FRAME \<in> fl \<or> n = 6 \<or> n = 7)"
proof (cases "PROT_NONE \<in> fl")
  case True
  then have "f = rv_from_mapping fl" using assms by (simp add: rv_leaf_bits_def Let_def flag_tests rv_bits_none)
  then show ?thesis using True by (simp add: rv_bits_none)
next
  case False
  have ne: "fl \<noteq> {}" using assms False rv_leaf_bits_None [of fl] by (auto simp: rv_leaf_ok_def)
  have "f = rv_from_mapping fl OR (flag_bit 6 OR flag_bit 7)"
    using assms False ne by (simp add: rv_leaf_bits_def Let_def flag_tests rv_bits split: if_splits)
  then show ?thesis using False by (simp only: bit_or_iff bit_flag_bit rv_bits [OF False ne] if_False) blast
qed

lemma rv_leaf_bits_range:
  assumes "rv_leaf_bits fl = Some f" "bit f n"
  shows "n < 10"
  using assms(2) unfolding rv_leaf_bits_bit [OF assms(1)] by (auto split: if_splits)

lemma rv_leaf_bits_ok:
  assumes "rv_leaf_ok fl"
  obtains f where "rv_leaf_bits fl = Some f"
  using assms rv_leaf_bits_None [of fl] by blast

lemma rv_low_bits: "n < 10 \<Longrightarrow> bit (f OR (w AND rv_phys_addr_mask)) n \<longleftrightarrow> bit f n"
  by (auto simp: bit_or_iff bit_and_iff bit_rv_mask)

lemma rv_leaf:
  assumes f: "rv_leaf_bits fl = Some f"
  shows "rv_flags (f OR (w AND rv_phys_addr_mask)) = rv_stored fl"
    "rv_is_present (f OR (w AND rv_phys_addr_mask))" "rv_is_huge (f OR (w AND rv_phys_addr_mask))"
proof -
  let ?e = "f OR (w AND rv_phys_addr_mask)"
  have bits: "bit (?e AND rv_all_flags) n \<longleftrightarrow> bit f n" if "n < 10" for n
    using rv_low_bits [OF that, of f w] that by (simp add: bit_and_iff rv_all_flags_def bit_mask_iff)
  note b = rv_leaf_bits_bit [OF f]
  have ok: "rv_leaf_ok fl" using f rv_leaf_bits_None [of fl] by simp
  have "x \<in> rv_flags ?e \<longleftrightarrow> x \<in> rv_stored fl" for x
    by (cases x; cases "PROT_NONE \<in> fl") (simp_all add: rv_flags_def rv_to_mapping_def flag_tests bits b rv_stored_def)
  then show "rv_flags ?e = rv_stored fl" by blast
  show "rv_is_present ?e" "rv_is_huge ?e"
    using ok by (auto simp: rv_is_present_def rv_is_huge_def flag_tests bits b rv_leaf_ok_def)
qed

lemma rv_set_paddr_addr: "frame_addr 56 pa \<Longrightarrow> rv_paddr (rv_set_paddr e pa) = pa"
  unfolding rv_set_paddr_def by (rule rv_paddr_or) (auto simp: bit_and_iff bit_not_iff bit_rv_mask)

lemma rv_keep_paddr:
  assumes "\<And>n. bit f n \<Longrightarrow> n < 10"
  shows "rv_paddr (f OR (e AND rv_phys_addr_mask)) = rv_paddr e"
proof -
  have "(f OR (e AND rv_phys_addr_mask)) AND rv_phys_addr_mask = e AND rv_phys_addr_mask"
    unfolding bit_eq_iff using assms by (fastforce simp: bit_and_iff bit_or_iff bit_rv_mask)
  then show ?thesis by (simp add: rv_paddr_def)
qed

interpretation rv: generic_pte rv64_pte 56 rv_leaf_ok rv_stored
proof (unfold_locales, goal_cases)
  case (6 pa fl h)
  from rv_leaf_bits_ok [OF 6(2)] obtain f where f: "rv_leaf_bits fl = Some f" .
  have "rv_paddr (f OR (drop_bit 2 (of_nat pa) AND rv_phys_addr_mask)) = pa"
    using rv_leaf_bits_range [OF f] by (intro rv_paddr_or [OF 6(1)]) auto
  then show ?case using rv_leaf [OF f] f by (simp add: rv64_pte_def rv_new_page_def)
next
  case (7 pa)
  have "rv_paddr (flag_bit 0 OR (drop_bit 2 (of_nat pa) AND rv_phys_addr_mask)) = pa"
    by (rule rv_paddr_or [OF 7(1)]) (simp add: bit_flag_bit)
  then show ?case
    by (auto simp: rv64_pte_def rv_new_table_def rv_is_present_def rv_is_huge_def flag_tests bit_and_iff bit_or_iff
        rv_all_flags_def bit_mask_iff bit_flag_bit bit_rv_mask)
next
  case (8 fl e h)
  from rv_leaf_bits_ok [OF 8] obtain f where f: "rv_leaf_bits fl = Some f" .
  show ?case using rv_leaf [OF f, of e] rv_keep_paddr [of f e] rv_leaf_bits_range [OF f] f
    by (simp add: rv64_pte_def rv_set_flags_def or.commute)
next
  case (9 pa e)
  then show ?case by (simp add: rv64_pte_def rv_set_paddr_addr)
qed (simp_all add: rv64_pte_def rv_is_unused_def rv_is_present_def rv_is_huge_def rv_paddr_def rv_clear_def
    intersects_bits_def)

subsection \<open>LoongArch entries\<close>

definition la_leaf_ok :: "mapping_flags \<Rightarrow> bool" where
  "la_leaf_ok fl \<longleftrightarrow> fl \<noteq> {}"

definition la_stored :: "mapping_flags \<Rightarrow> mapping_flags" where
  "la_stored fl =
     (if PROT_NONE \<in> fl then fl \<inter> {PROT_NONE, ALLOC_FRAME}
      else if DEVICE \<in> fl then fl - {UNCACHED} else fl)"

lemma la_bits:
  assumes "PROT_NONE \<notin> fl" "fl \<noteq> {}"
  shows "bit (la_leaf_bits fl h) n \<longleftrightarrow> n < 64 \<and>
    (n = 0 \<or> n = 7 \<or> n = 61 \<and> READ \<notin> fl \<or> (n = 8 \<or> n = 1) \<and> WRITE \<in> fl \<or>
     n = 62 \<and> EXECUTE \<notin> fl \<or> (n = 2 \<or> n = 3) \<and> USER \<in> fl \<or> n = 5 \<and> DEVICE \<notin> fl \<and> UNCACHED \<in> fl \<or>
     n = 4 \<and> DEVICE \<notin> fl \<and> UNCACHED \<notin> fl \<or> n = 9 \<and> ALLOC_FRAME \<in> fl \<or> n = 6 \<and> h)"
proof -
  have eq: "la_from_mapping fl = (flag_bit 0 OR flag_bit 7) OR (if READ \<in> fl then 0 else flag_bit 61) OR
     (if WRITE \<in> fl then flag_bit 8 OR flag_bit 1 else 0) OR (if EXECUTE \<in> fl then 0 else flag_bit 62) OR
     (if USER \<in> fl then flag_bit 3 OR flag_bit 2 else 0) OR
     (if DEVICE \<in> fl then 0 else if UNCACHED \<in> fl then flag_bit 5 else flag_bit 4) OR
     (if ALLOC_FRAME \<in> fl then flag_bit 9 else 0)"
    using assms by (simp add: la_from_mapping_def)
  show ?thesis unfolding la_leaf_bits_def Let_def eq
    by (cases "n < 64") (simp_all only: bit_part bit_or_iff bit_flag_bit simp_thms disj_ac)
qed

lemma la_bits_none:
  assumes "PROT_NONE \<in> fl"
  shows "bit (la_leaf_bits fl h) n \<longleftrightarrow> n < 64 \<and> (n = 10 \<or> n = 9 \<and> ALLOC_FRAME \<in> fl \<or> n = 6 \<and> h)"
proof -
  have eq: "la_from_mapping fl = flag_bit 10 OR (if ALLOC_FRAME \<in> fl then flag_bit 9 else 0)"
    using assms by (simp add: la_from_mapping_def)
  show ?thesis unfolding la_leaf_bits_def Let_def eq
    by (simp only: bit_part bit_or_iff bit_flag_bit) blast
qed

lemma la_leaf_bits_range:
  assumes "bit (la_leaf_bits fl h) n"
  shows "n < 12 \<or> 48 \<le> n"
proof (cases "PROT_NONE \<in> fl \<or> fl \<noteq> {}")
  case True
  then show ?thesis using assms la_bits [of fl h n] la_bits_none [of fl h n] by (cases "PROT_NONE \<in> fl") auto
next
  case False
  then show ?thesis using assms by (simp add: la_leaf_bits_def la_from_mapping_def bit_if bit_or_iff bit_flag_bit split: if_splits)
qed

lemma la_paddr_or:
  assumes "\<And>n. bit f n \<Longrightarrow> n < 12 \<or> 48 \<le> n"
  shows "la_paddr (f OR (e AND la_phys_addr_mask)) = la_paddr e"
proof -
  have "(f OR (e AND la_phys_addr_mask)) AND la_phys_addr_mask = e AND la_phys_addr_mask"
    unfolding bit_eq_iff using assms by (fastforce simp: bit_and_iff bit_or_iff bit_la_mask)
  then show ?thesis by (simp add: la_paddr_def)
qed

lemma la_leaf_paddr: "la_paddr (la_leaf_bits fl h OR (e AND la_phys_addr_mask)) = la_paddr e"
  by (rule la_paddr_or) (rule la_leaf_bits_range)

lemma la_paddr_of_nat:
  assumes "frame_addr 48 pa"
  shows "la_paddr (of_nat pa) = pa"
proof -
  have "of_nat pa AND la_phys_addr_mask = (of_nat pa :: 64 word)"
    unfolding bit_eq_iff using bit_frame_addr [OF assms] by (auto simp: bit_and_iff bit_la_mask frame_addr_word [OF assms])
  then show ?thesis by (simp add: la_paddr_def frame_addr_unat [OF assms])
qed

lemma la_flag_bits:
  assumes "n < 11 \<or> n = 61 \<or> n = 62"
  shows "bit ((f OR (w AND la_phys_addr_mask)) AND la_all_flags) n \<longleftrightarrow> bit f n"
  using assms by (auto simp: bit_or_iff bit_and_iff bit_la_mask la_all_flags_def bit_mask_iff bit_flag_bit)

lemma la_leaf_flags:
  assumes "la_leaf_ok fl"
  shows "la_flags (la_leaf_bits fl h OR (w AND la_phys_addr_mask)) = la_stored fl"
proof -
  note bits = la_flag_bits [of _ "la_leaf_bits fl h" w]
  have "la_flags (la_leaf_bits fl h OR (w AND la_phys_addr_mask)) = la_to_mapping (la_leaf_bits fl h)"
    unfolding la_flags_def la_to_mapping_def by (simp add: flag_tests bits)
  also have "\<dots> = la_stored fl"
  proof (cases "PROT_NONE \<in> fl")
    case True
    then show ?thesis by (auto simp: la_to_mapping_def flag_tests la_bits_none la_stored_def)
  next
    case False
    have "fl \<noteq> {}" using assms by (simp add: la_leaf_ok_def)
    note b = la_bits [OF False this]
    have "x \<in> la_to_mapping (la_leaf_bits fl h) \<longleftrightarrow> x \<in> la_stored fl" for x
      by (cases x) (use False in \<open>simp_all add: la_to_mapping_def flag_tests b la_stored_def\<close>)
    then show ?thesis by blast
  qed
  finally show ?thesis .
qed

lemma la_leaf:
  fixes w :: "64 word"
  assumes "la_leaf_ok fl"
  shows "la_is_present (la_leaf_bits fl h OR (w AND la_phys_addr_mask))"
    "la_is_huge (la_leaf_bits fl h OR (w AND la_phys_addr_mask)) \<longleftrightarrow> h"
proof -
  let ?e = "la_leaf_bits fl h OR (w AND la_phys_addr_mask)"
  have ne: "fl \<noteq> {}" using assms by (simp add: la_leaf_ok_def)
  have "bit (la_leaf_bits fl h) (if PROT_NONE \<in> fl then 10 else 0)" using ne by (simp add: la_bits la_bits_none)
  then have "bit ?e (if PROT_NONE \<in> fl then 10 else 0)" by (simp add: bit_or_iff)
  then have "?e \<noteq> 0" by (metis bit_0_eq bot_apply bot_boolE)
  then show "la_is_present ?e" by (simp add: la_is_present_def la_is_unused_def)
  have "bit (la_leaf_bits fl h) 6 \<longleftrightarrow> h" using ne by (cases "PROT_NONE \<in> fl") (simp_all add: la_bits la_bits_none)
  then show "la_is_huge ?e \<longleftrightarrow> h"
    by (simp add: la_is_huge_def flag_tests la_flag_bits)
qed

interpretation la: generic_pte la64_pte 48 la_leaf_ok la_stored
proof (unfold_locales, goal_cases)
  case (6 pa fl h)
  show ?case
    using la_leaf [OF 6(2), of h "of_nat pa"] la_leaf_flags [OF 6(2), of h "of_nat pa"] la_paddr_of_nat [OF 6(1)]
    by (auto simp: la64_pte_def la_new_page_def la_leaf_paddr)
next
  case (7 pa)
  have eq: "la_new_table pa = of_nat pa"
    unfolding la_new_table_def bit_eq_iff using bit_frame_addr [OF 7(1)]
    by (auto simp: bit_and_iff bit_la_mask frame_addr_word [OF 7(1)])
  have "of_nat pa \<noteq> (0 :: 64 word)" using frame_addr_unat [OF 7(1)] 7(2) by auto
  moreover have "\<not> bit (of_nat pa :: 64 word) 6"
    using bit_frame_addr(1) [OF 7(1), of 6] by (auto simp: frame_addr_word [OF 7(1)])
  ultimately show ?case
    by (auto simp: la64_pte_def eq la_paddr_of_nat [OF 7(1)] la_is_present_def la_is_unused_def la_is_huge_def flag_tests
        bit_and_iff)
next
  case (8 fl e h)
  show ?case using la_leaf [OF 8, of h e] la_leaf_flags [OF 8, of h e] la_leaf_paddr [of fl h e]
    by (auto simp: la64_pte_def la_set_flags_def or.commute)
next
  case (9 pa e)
  have "la_paddr (la_set_paddr e pa) = la_paddr (of_nat pa)"
    unfolding la_set_paddr_def by (rule la_paddr_or) (auto simp: bit_and_iff bit_not_iff bit_la_mask)
  then show ?case by (simp add: la64_pte_def la_paddr_of_nat [OF 9])
qed (simp_all add: la64_pte_def la_is_unused_def la_is_present_def la_is_huge_def la_paddr_def la_clear_def
    contains_bits_def flag_bit_def)

section \<open>Properties\<close>

text \<open>C31: the RISC-V entry format. A leaf made from a frame address and flags gives back the address and the
  flags, except that the device and cache attributes have no bit and that an inaccessible leaf keeps
  only its ownership mark; it is present and, unlike a table pointer, recognised as a leaf. Changing
  the flags of any entry keeps its address, and a leaf that is neither readable nor executable is refused.\<close>

theorem rv64_pte_roundtrip:
  assumes "frame_addr 56 pa"
  shows "(case rv_new_page pa fl h of
      None \<Rightarrow> PROT_NONE \<notin> fl \<and> READ \<notin> fl \<and> EXECUTE \<notin> fl
    | Some e \<Rightarrow> rv_paddr e = pa \<and> rv_flags e = rv_stored fl \<and> rv_is_present e \<and> rv_is_huge e \<and> \<not> rv_is_unused e) \<and>
    (case rv_set_flags e0 fl h of
      None \<Rightarrow> PROT_NONE \<notin> fl \<and> READ \<notin> fl \<and> EXECUTE \<notin> fl
    | Some e \<Rightarrow> rv_paddr e = rv_paddr e0 \<and> rv_flags e = rv_stored fl) \<and>
    (pa \<noteq> 0 \<longrightarrow> rv_paddr (rv_new_table pa) = pa \<and> rv_is_present (rv_new_table pa) \<and> \<not> rv_is_huge (rv_new_table pa))"
proof -
  have unused: "\<not> rv_is_unused e" if "rv_is_present e" for e
    using that rv.zero(2) by (auto simp: rv_is_unused_def rv64_pte_def)
  show ?thesis
  proof (cases "rv_leaf_ok fl")
    case True
    then obtain f where f: "rv_leaf_bits fl = Some f" by (rule rv_leaf_bits_ok)
    show ?thesis
      using rv.page [OF assms True, of h] rv.update [OF True, of e0 h] rv.table [OF assms] unused rv_leaf(3) [OF f] f
      by (auto simp: rv64_pte_def rv_new_page_def)
  next
    case False
    then show ?thesis using rv_leaf_bits_None [of fl] rv.table [OF assms]
      by (simp add: rv_new_page_def rv_set_flags_def rv_leaf_ok_def rv64_pte_def)
  qed
qed

theorem rv64_pte_roundtrip_witness:
  "rv_new_page 0x80200000 {READ, WRITE, USER, ALLOC_FRAME} False = Some 0x200801D7 \<and>
   rv_paddr 0x200801D7 = 0x80200000 \<and> rv_flags 0x200801D7 = {READ, WRITE, USER, ALLOC_FRAME}"
proof -
  have fr: "frame_addr 56 0x80200000" by (simp add: frame_addr_def)
  have "rv_new_page 0x80200000 {READ, WRITE, USER, ALLOC_FRAME} False = Some 0x200801D7"
    by (simp add: rv_new_page_def rv_leaf_bits_def rv_from_mapping_def contains_bits_def intersects_bits_def flag_bit_def
        rv_phys_addr_mask_def Let_def)
  then show ?thesis using rv64_pte_roundtrip [OF fr, of "{READ, WRITE, USER, ALLOC_FRAME}" False] by (auto simp: rv_stored_def)
qed

end
