(* ===== verification/Page_Alloc.thy ===== *)
theory Page_Alloc
  imports Mem_Addr Page_Entry
begin

text \<open>
  The page allocator: \<open>BitmapPageAllocator\<close> (\<open>crates/allocator/src/bitmap.rs\<close>) and the frame interface
  the page tables and the frame database use it through (\<open>PagingHandlerImpl\<close>,
  \<open>xcore/xhal/src/paging.rs\<close>). The bitmap itself is the third-party crate \<open>bitmap_allocator\<close>: its operations
  are an argument, and the locale \<open>bit_allocator\<close> states its documented behaviour. \<open>None\<close> is a failed
  assertion.
\<close>

section \<open>The bitmap interface\<close>

record 'b bit_ops =
  bit_alloc :: "'b \<Rightarrow> nat option \<times> 'b"
  bit_alloc_contiguous :: "nat option \<Rightarrow> nat \<Rightarrow> nat \<Rightarrow> 'b \<Rightarrow> nat option \<times> 'b"
  bit_dealloc :: "nat \<Rightarrow> 'b \<Rightarrow> bool \<times> 'b"
  bit_dealloc_contiguous :: "nat \<Rightarrow> nat \<Rightarrow> 'b \<Rightarrow> bool \<times> 'b"
  bit_insert :: "nat \<Rightarrow> nat \<Rightarrow> 'b \<Rightarrow> 'b"

locale bit_allocator =
  fixes B :: "'b bit_ops" and free :: "'b \<Rightarrow> nat set"
  assumes alloc_one: "bit_alloc B b = (r, b') \<Longrightarrow>
      (case r of None \<Rightarrow> free b = {} \<and> free b' = free b | Some i \<Rightarrow> i \<in> free b \<and> free b' = free b - {i})"
    and alloc_many: "bit_alloc_contiguous B base n al b = (r, b') \<Longrightarrow>
      (case r of None \<Rightarrow> free b' = free b
       | Some i \<Rightarrow> {i..<i + n} \<subseteq> free b \<and> free b' = free b - {i..<i + n} \<and> i mod 2 ^ al = 0 \<and>
           (\<forall>c. base = Some c \<longrightarrow> i = c))"
    and free_one: "bit_dealloc B i b = (ok, b') \<Longrightarrow> ok = (i \<notin> free b) \<and> free b' = insert i (free b)"
    and free_many: "bit_dealloc_contiguous B i n b = (ok, b') \<Longrightarrow>
      ok = ({i..<i + n} \<inter> free b = {}) \<and> (ok \<longrightarrow> free b' = free b \<union> {i..<i + n}) \<and> (\<not> ok \<longrightarrow> free b' = free b)"
    and insert_range: "free (bit_insert B i j b) = free b \<union> {i..<j}"

section \<open>The bitmap page allocator\<close>

datatype alloc_error = InvalidParam | MemoryOverlap | OutOfPages | NotAllocated

definition al_align_down :: "usize \<Rightarrow> usize \<Rightarrow> usize" where
  "al_align_down pos align = pos AND (usize_bound - align)"

definition al_align_up :: "usize \<Rightarrow> usize \<Rightarrow> usize" where
  "al_align_up pos align = usize_sub (usize_add pos align) 1 AND (usize_bound - align)"

definition al_is_aligned :: "usize \<Rightarrow> usize \<Rightarrow> bool" where
  "al_is_aligned addr align \<longleftrightarrow> addr AND usize_sub align 1 = 0"

definition MAX_ALIGN_1GB :: usize where
  "MAX_ALIGN_1GB = 0x40000000"

fun trailing_zeros :: "nat \<Rightarrow> nat" where
  "trailing_zeros n = (if n = 0 \<or> odd n then 0 else Suc (trailing_zeros (n div 2)))"

declare trailing_zeros.simps [simp del]

definition is_power_of_two :: "nat \<Rightarrow> bool" where
  "is_power_of_two n \<longleftrightarrow> n \<noteq> 0 \<and> n = 2 ^ trailing_zeros n"

record 'b page_allocator =
  pa_base :: usize
  pa_total_pages :: usize
  pa_used_pages :: usize
  pa_inner :: 'b

definition pa_new :: "'b \<Rightarrow> 'b page_allocator" where
  "pa_new b = \<lparr>pa_base = 0, pa_total_pages = 0, pa_used_pages = 0, pa_inner = b\<rparr>"

definition pa_init :: "'b bit_ops \<Rightarrow> usize \<Rightarrow> usize \<Rightarrow> 'b page_allocator \<Rightarrow> 'b page_allocator" where
  "pa_init B start len a =
     (let finish = al_align_down (usize_add start len) PAGE_SIZE_4K;
          start = al_align_up start PAGE_SIZE_4K;
          total = usize_sub finish start div PAGE_SIZE_4K;
          base = al_align_down start MAX_ALIGN_1GB;
          start_idx = usize_sub start base div PAGE_SIZE_4K
      in a\<lparr>pa_total_pages := total, pa_base := base,
           pa_inner := bit_insert B start_idx (usize_add start_idx total) (pa_inner a)\<rparr>)"

definition pa_add_memory :: "usize \<Rightarrow> usize \<Rightarrow> 'b page_allocator \<Rightarrow> alloc_error + unit" where
  "pa_add_memory start len a = Inl OutOfPages"

definition index_address :: "'b page_allocator \<Rightarrow> nat \<Rightarrow> usize" where
  "index_address a i = i * PAGE_SIZE_4K + pa_base a"

definition alloc_pages ::
    "'b bit_ops \<Rightarrow> usize \<Rightarrow> usize \<Rightarrow> 'b page_allocator \<Rightarrow> 'b page_allocator \<times> (alloc_error + usize)" where
  "alloc_pages B num_pages align_pow2 a =
     (if align_pow2 > MAX_ALIGN_1GB \<or> \<not> al_is_aligned align_pow2 PAGE_SIZE_4K then (a, Inl InvalidParam)
      else let align_pow2 = align_pow2 div PAGE_SIZE_4K in
      if \<not> is_power_of_two align_pow2 then (a, Inl InvalidParam)
      else let align_log2 = trailing_zeros align_pow2 in
      if num_pages = 0 then (a, Inl InvalidParam)
      else case (if num_pages = 1 then bit_alloc B (pa_inner a)
                 else bit_alloc_contiguous B None num_pages align_log2 (pa_inner a)) of
        (None, b) \<Rightarrow> (a\<lparr>pa_inner := b\<rparr>, Inl OutOfPages)
      | (Some idx, b) \<Rightarrow>
          (a\<lparr>pa_inner := b, pa_used_pages := usize_add (pa_used_pages a) num_pages\<rparr>, Inr (index_address a idx)))"

definition alloc_pages_at ::
    "'b bit_ops \<Rightarrow> usize \<Rightarrow> usize \<Rightarrow> usize \<Rightarrow> 'b page_allocator \<Rightarrow>
      'b page_allocator \<times> (alloc_error + usize)" where
  "alloc_pages_at B base num_pages align_pow2 a =
     (if align_pow2 > MAX_ALIGN_1GB \<or> \<not> al_is_aligned align_pow2 PAGE_SIZE_4K \<or> \<not> al_is_aligned base align_pow2
      then (a, Inl InvalidParam)
      else let align_pow2 = align_pow2 div PAGE_SIZE_4K in
      if \<not> is_power_of_two align_pow2 then (a, Inl InvalidParam)
      else let align_log2 = trailing_zeros align_pow2;
               idx = usize_sub base (pa_base a) div PAGE_SIZE_4K
      in case bit_alloc_contiguous B (Some idx) num_pages align_log2 (pa_inner a) of
        (None, b) \<Rightarrow> (a\<lparr>pa_inner := b\<rparr>, Inl OutOfPages)
      | (Some idx, b) \<Rightarrow>
          (a\<lparr>pa_inner := b, pa_used_pages := usize_add (pa_used_pages a) num_pages\<rparr>, Inr (index_address a idx)))"

definition dealloc_pages :: "'b bit_ops \<Rightarrow> usize \<Rightarrow> usize \<Rightarrow> 'b page_allocator \<Rightarrow> 'b page_allocator option" where
  "dealloc_pages B pos num_pages a =
     (if \<not> al_is_aligned pos PAGE_SIZE_4K then None
      else let idx = usize_sub pos (pa_base a) div PAGE_SIZE_4K;
               (freed, b) = (if num_pages = 1 then bit_dealloc B idx (pa_inner a)
                             else if num_pages > 1 then bit_dealloc_contiguous B idx num_pages (pa_inner a)
                             else (False, pa_inner a))
      in Some (if freed then a\<lparr>pa_inner := b, pa_used_pages := usize_sub (pa_used_pages a) num_pages\<rparr>
               else a\<lparr>pa_inner := b\<rparr>))"

definition pa_available_pages :: "'b page_allocator \<Rightarrow> usize" where
  "pa_available_pages a = usize_sub (pa_total_pages a) (pa_used_pages a)"

section \<open>Frames\<close>

text \<open>The kernel maps physical memory linearly: \<open>off\<close> is \<open>PHYS_VIRT_OFFSET\<close>.\<close>

definition virt_to_phys :: "usize \<Rightarrow> usize \<Rightarrow> usize" where
  "virt_to_phys off vaddr = usize_sub vaddr off"

definition phys_to_virt :: "usize \<Rightarrow> usize \<Rightarrow> usize" where
  "phys_to_virt off paddr = usize_add paddr off"

definition handler_alloc_frame :: "'b bit_ops \<Rightarrow> usize \<Rightarrow> 'b page_allocator \<Rightarrow> usize option \<times> 'b page_allocator" where
  "handler_alloc_frame B off a =
     (case alloc_pages B 1 PAGE_SIZE_4K a of
        (a', Inr vaddr) \<Rightarrow> (Some (virt_to_phys off vaddr), a')
      | (a', Inl _) \<Rightarrow> (None, a'))"

definition handler_dealloc_frame :: "'b bit_ops \<Rightarrow> usize \<Rightarrow> usize \<Rightarrow> 'b page_allocator \<Rightarrow> 'b page_allocator option" where
  "handler_dealloc_frame B off paddr a = dealloc_pages B (phys_to_virt off paddr) 1 a"

text \<open>What the users of single frames rely on: \<open>live\<close> are the frames handed out and not yet given back.\<close>

locale frame_source =
  fixes alloc :: "'h \<Rightarrow> usize option \<times> 'h"
    and dealloc :: "usize \<Rightarrow> 'h \<Rightarrow> 'h option"
    and heap_inv :: "'h \<Rightarrow> bool"
    and live :: "'h \<Rightarrow> usize set"
    and pa_bits :: nat
  assumes alloc_Some: "heap_inv h \<Longrightarrow> alloc h = (Some p, h') \<Longrightarrow>
      heap_inv h' \<and> p \<notin> live h \<and> live h' = insert p (live h) \<and> frame_addr pa_bits p \<and> p \<noteq> 0"
    and alloc_None: "heap_inv h \<Longrightarrow> alloc h = (None, h') \<Longrightarrow> heap_inv h' \<and> live h' = live h"
    and dealloc: "heap_inv h \<Longrightarrow> p \<in> live h \<Longrightarrow>
      \<exists>h'. dealloc p h = Some h' \<and> heap_inv h' \<and> live h' = live h - {p}"

section \<open>Alignment\<close>

lemma and_high_bits:
  fixes n :: nat
  assumes n: "n < 2 ^ 64" and k: "k \<le> 64"
  shows "n AND (2 ^ 64 - 2 ^ k) = n - n mod 2 ^ k"
proof -
  have "(2::nat) ^ 64 - 2 ^ k = push_bit k (mask (64 - k))"
    using k by (simp add: push_bit_eq_mult mask_eq_exp_minus_1 algebra_simps flip: power_add)
  moreover have "n AND push_bit k (mask (64 - k)) = push_bit k (drop_bit k n)"
  proof -
    have "take_bit 64 n = n" using n by (simp add: take_bit_nat_eq_self)
    then have lt: "j < 64" if "bit n j" for j using that by (metis bit_take_bit_iff)
    show ?thesis
    proof (rule bit_eqI)
      fix j show "bit (n AND push_bit k (mask (64 - k))) j \<longleftrightarrow> bit (push_bit k (drop_bit k n)) j"
        using lt [of j] k by (auto simp: bit_and_iff bit_push_bit_iff bit_mask_iff bit_drop_bit_eq)
    qed
  qed
  moreover have "push_bit k (drop_bit k n) = n - n mod 2 ^ k"
    by (simp add: push_bit_eq_mult drop_bit_eq_div minus_mod_eq_div_mult)
  ultimately show ?thesis by simp
qed

lemma al_align_down_eq: "pos < usize_bound \<Longrightarrow> k \<le> 64 \<Longrightarrow> al_align_down pos (2 ^ k) = pos - pos mod 2 ^ k"
  unfolding al_align_down_def usize_bound_def by (rule and_high_bits)

lemma al_is_aligned_eq:
  assumes "k < 64"
  shows "al_is_aligned addr (2 ^ k) \<longleftrightarrow> addr mod 2 ^ k = 0"
proof -
  have "(2::nat) ^ k < usize_bound" unfolding usize_bound_def using assms by (intro power_strict_increasing) simp_all
  moreover have "(1::nat) \<le> 2 ^ k" by simp
  ultimately have "usize_sub (2 ^ k) 1 = mask k" by (simp add: usize_sub_id mask_eq_exp_minus_1)
  then show ?thesis by (simp add: al_is_aligned_def take_bit_eq_mask [symmetric] take_bit_eq_mod)
qed

lemma page_alignment: "al_is_aligned a 4096 \<longleftrightarrow> a mod 4096 = 0"
  using al_is_aligned_eq [of 12] by simp

lemma is_power_of_two_power [simp]: "is_power_of_two (2 ^ k)" "trailing_zeros (2 ^ k) = k"
proof -
  show "trailing_zeros (2 ^ k) = k" by (induction k) (simp_all add: trailing_zeros.simps)
  then show "is_power_of_two (2 ^ k)" by (simp add: is_power_of_two_def)
qed

section \<open>Accounting\<close>

text \<open>
  The pages of the region given to \<open>init\<close> have the indices \<open>lo..<hi\<close>. The free bits stay inside it and
  \<open>used_pages\<close> counts the rest.
\<close>

definition pages_inv :: "('b \<Rightarrow> nat set) \<Rightarrow> usize \<Rightarrow> nat \<Rightarrow> nat \<Rightarrow> 'b page_allocator \<Rightarrow> bool" where
  "pages_inv free base lo hi a \<longleftrightarrow> pa_base a = base \<and> pa_total_pages a = hi - lo \<and> free (pa_inner a) \<subseteq> {lo..<hi} \<and>
     pa_used_pages a = card ({lo..<hi} - free (pa_inner a))"

definition free_pages :: "('b \<Rightarrow> nat set) \<Rightarrow> 'b page_allocator \<Rightarrow> usize set" where
  "free_pages free a = index_address a ` free (pa_inner a)"

definition page_block :: "usize \<Rightarrow> usize \<Rightarrow> usize set" where
  "page_block v n = (\<lambda>i. v + i * PAGE_SIZE_4K) ` {..<n}"

locale managed_pages = bit_allocator B free for B :: "'b bit_ops" and free +
  fixes base lo hi :: nat
  assumes base_aligned: "base mod 4096 = 0" and lo_hi: "lo \<le> hi"
    and range: "base + hi * 4096 < usize_bound"
begin

lemma index_bound: "i \<le> hi \<Longrightarrow> i * 4096 + base < usize_bound"
  using range mult_right_mono [of i hi 4096] by linarith

lemma index_eq: "i < hi \<Longrightarrow> usize_sub (i * 4096 + base) base div 4096 = i"
  using index_bound [of i] by (simp add: usize_sub_id)

lemma take_free:
  assumes "F \<subseteq> free b" "free b \<subseteq> {lo..<hi}"
  shows "card ({lo..<hi} - (free b - F)) = card ({lo..<hi} - free b) + card F"
proof -
  have "{lo..<hi} - (free b - F) = ({lo..<hi} - free b) \<union> F" using assms by auto
  moreover have "({lo..<hi} - free b) \<inter> F = {}" using assms by auto
  moreover have "finite F" using assms finite_subset [of F "{lo..<hi}"] by auto
  ultimately show ?thesis by (simp add: card_Un_disjoint)
qed

lemma give_free:
  assumes "F \<subseteq> {lo..<hi}" "F \<inter> free b = {}"
  shows "card ({lo..<hi} - (free b \<union> F)) + card F = card ({lo..<hi} - free b)"
proof -
  have "{lo..<hi} - free b = ({lo..<hi} - (free b \<union> F)) \<union> F" using assms by auto
  moreover have "finite F" using assms(1) by (rule finite_subset) simp
  moreover have "({lo..<hi} - (free b \<union> F)) \<inter> F = {}" by auto
  ultimately show ?thesis by (simp add: card_Un_disjoint)
qed

lemma used_bound: "pages_inv free base lo hi a \<Longrightarrow> pa_used_pages a \<le> hi"
  using card_mono [of "{lo..<hi}" "{lo..<hi} - free (pa_inner a)"] by (auto simp: pages_inv_def)

lemma take_inv:
  assumes inv: "pages_inv free base lo hi a" and F: "F \<subseteq> free (pa_inner a)" and b: "free b = free (pa_inner a) - F"
    and n: "card F = n"
  shows "pages_inv free base lo hi (a\<lparr>pa_inner := b, pa_used_pages := usize_add (pa_used_pages a) n\<rparr>)"
proof -
  have sub: "free (pa_inner a) \<subseteq> {lo..<hi}" using inv by (simp add: pages_inv_def)
  have card: "card ({lo..<hi} - free b) = pa_used_pages a + n"
    using take_free [OF F sub] b n inv by (simp add: pages_inv_def)
  have "card ({lo..<hi} - free b) \<le> hi - lo" using card_mono [of "{lo..<hi}" "{lo..<hi} - free b"] by simp
  then have "pa_used_pages a + n < usize_bound" using card range by linarith
  then show ?thesis using inv b card by (auto simp: pages_inv_def usize_add_id)
qed

lemma alloc_pages_spec:
  assumes inv: "pages_inv free base lo hi a" and n: "1 \<le> n" and al: "12 \<le> al" "al \<le> 30"
    and res: "alloc_pages B n (2 ^ al) a = (a', r)"
  shows "pages_inv free base lo hi a'"
    and "case r of Inl e \<Rightarrow> e = OutOfPages \<and> free (pa_inner a') = free (pa_inner a)
      | Inr v \<Rightarrow> \<exists>i. v = index_address a i \<and> {i..<i + n} \<subseteq> free (pa_inner a) \<and>
          free (pa_inner a') = free (pa_inner a) - {i..<i + n} \<and> (1 < n \<longrightarrow> i mod 2 ^ (al - 12) = 0)"
proof -
  have pow: "(2::nat) ^ al = 2 ^ (al - 12) * 4096" using al(1) power_add [of "2::nat" "al - 12" 12] by simp
  have guard: "\<not> MAX_ALIGN_1GB < 2 ^ al" using power_increasing [OF al(2), of "2::nat"] by (simp add: MAX_ALIGN_1GB_def)
  have ok: "al_is_aligned (2 ^ al) PAGE_SIZE_4K" using pow by (simp add: page_alignment PAGE_SIZE_4K_def)
  have quot: "2 ^ al div PAGE_SIZE_4K = 2 ^ (al - 12)" using pow by (simp add: PAGE_SIZE_4K_def)
  let ?call = "if n = 1 then bit_alloc B (pa_inner a) else bit_alloc_contiguous B None n (al - 12) (pa_inner a)"
  obtain x b where call: "?call = (x, b)" by (cases ?call)
  have eq: "alloc_pages B n (2 ^ al) a = (case x of None \<Rightarrow> (a\<lparr>pa_inner := b\<rparr>, Inl OutOfPages)
      | Some idx \<Rightarrow> (a\<lparr>pa_inner := b, pa_used_pages := usize_add (pa_used_pages a) n\<rparr>, Inr (index_address a idx)))"
    using guard ok quot n call by (simp add: alloc_pages_def Let_def split: option.split)
  have spec: "case x of None \<Rightarrow> free b = free (pa_inner a)
      | Some i \<Rightarrow> {i..<i + n} \<subseteq> free (pa_inner a) \<and> free b = free (pa_inner a) - {i..<i + n} \<and>
          (1 < n \<longrightarrow> i mod 2 ^ (al - 12) = 0)"
  proof (cases "n = 1")
    case True
    then show ?thesis using alloc_one [of "pa_inner a" x b] call by (auto split: option.splits)
  next
    case False
    then show ?thesis using alloc_many [of None n "al - 12" "pa_inner a" x b] call by (auto split: option.splits)
  qed
  show "pages_inv free base lo hi a'"
  proof (cases x)
    case None
    then show ?thesis using eq res spec inv by (auto simp: pages_inv_def)
  next
    case (Some i)
    then show ?thesis using eq res spec take_inv [OF inv, of "{i..<i + n}" b n] by auto
  qed
  show "case r of Inl e \<Rightarrow> e = OutOfPages \<and> free (pa_inner a') = free (pa_inner a)
      | Inr v \<Rightarrow> \<exists>i. v = index_address a i \<and> {i..<i + n} \<subseteq> free (pa_inner a) \<and>
          free (pa_inner a') = free (pa_inner a) - {i..<i + n} \<and> (1 < n \<longrightarrow> i mod 2 ^ (al - 12) = 0)"
    using eq res spec by (cases x) auto
qed

lemma dealloc_pages_spec:
  assumes inv: "pages_inv free base lo hi a" and n: "1 \<le> n"
    and block: "{i..<i + n} \<subseteq> {lo..<hi}" "{i..<i + n} \<inter> free (pa_inner a) = {}"
  shows "\<exists>b. dealloc_pages B (index_address a i) n a =
      Some (a\<lparr>pa_inner := b, pa_used_pages := pa_used_pages a - n\<rparr>) \<and>
    free b = free (pa_inner a) \<union> {i..<i + n} \<and>
    pages_inv free base lo hi (a\<lparr>pa_inner := b, pa_used_pages := pa_used_pages a - n\<rparr>)"
proof -
  have base: "pa_base a = base" using inv by (simp add: pages_inv_def)
  have "i \<in> {i..<i + n}" using n by simp
  then have "i < hi" using block(1) by fastforce
  then have idx: "usize_sub (index_address a i) (pa_base a) div PAGE_SIZE_4K = i"
    using index_eq [of i] base by (simp add: index_address_def PAGE_SIZE_4K_def)
  have al: "al_is_aligned (index_address a i) PAGE_SIZE_4K"
    using base_aligned base by (simp add: page_alignment index_address_def PAGE_SIZE_4K_def mod_add_eq)
  let ?call = "if n = 1 then bit_dealloc B i (pa_inner a) else bit_dealloc_contiguous B i n (pa_inner a)"
  obtain x b where call: "?call = (x, b)" by (cases ?call)
  have spec: "x \<and> free b = free (pa_inner a) \<union> {i..<i + n}"
  proof (cases "n = 1")
    case True
    then show ?thesis using free_one [of i "pa_inner a" x b] call block(2) by auto
  next
    case False
    then show ?thesis using free_many [of i n "pa_inner a" x b] call block(2) by auto
  qed
  have card: "card ({lo..<hi} - free b) + n = pa_used_pages a"
    using give_free [OF block] spec inv by (simp add: pages_inv_def)
  then have sub: "usize_sub (pa_used_pages a) n = pa_used_pages a - n"
    using used_bound [OF inv] range by (intro usize_sub_id) linarith+
  have "dealloc_pages B (index_address a i) n a = Some (a\<lparr>pa_inner := b, pa_used_pages := pa_used_pages a - n\<rparr>)"
    using call spec al idx n sub by (simp add: dealloc_pages_def Let_def split: if_splits)
  moreover have "pages_inv free base lo hi (a\<lparr>pa_inner := b, pa_used_pages := pa_used_pages a - n\<rparr>)"
    using inv spec block(1) card by (auto simp: pages_inv_def)
  ultimately show ?thesis using spec by blast
qed

end

text \<open>
  With the linear map in place, single pages of a managed region are a frame source. The physical
  addresses must be page aligned, positive and within the reach of a page-table entry.
\<close>

definition page_frame :: "usize \<Rightarrow> usize \<Rightarrow> nat \<Rightarrow> usize" where
  "page_frame base off i = i * PAGE_SIZE_4K + base - off"

definition live_frames :: "('b \<Rightarrow> nat set) \<Rightarrow> usize \<Rightarrow> usize \<Rightarrow> nat \<Rightarrow> nat \<Rightarrow> 'b page_allocator \<Rightarrow> usize set" where
  "live_frames free base off lo hi a = page_frame base off ` ({lo..<hi} - free (pa_inner a))"

locale linear_frames = managed_pages B free base lo hi
  for B :: "'b bit_ops" and free and base lo hi :: nat +
  fixes off pa_bits :: nat
  assumes off: "off mod 4096 = 0" "off < lo * 4096 + base"
    and reach: "hi * 4096 + base - off \<le> 2 ^ pa_bits"
begin

lemma page_frame_inj:
  assumes "lo \<le> i" "lo \<le> j" "page_frame base off i = page_frame base off j"
  shows "i = j"
proof -
  have "off < i * 4096 + base" "off < j * 4096 + base"
    using off(2) mult_right_mono [OF assms(1), of 4096] mult_right_mono [OF assms(2), of 4096] by linarith+
  then show ?thesis using assms(3) by (auto simp: page_frame_def PAGE_SIZE_4K_def)
qed

lemma page_frame_ok:
  assumes "lo \<le> i" "i < hi"
  shows "virt_to_phys off (i * 4096 + base) = page_frame base off i"
    "phys_to_virt off (page_frame base off i) = i * 4096 + base"
    "frame_addr pa_bits (page_frame base off i)" "page_frame base off i \<noteq> 0"
proof -
  have b: "i * 4096 + base < usize_bound" using index_bound [of i] assms(2) by simp
  have o: "off < i * 4096 + base" using off(2) mult_right_mono [OF assms(1), of 4096] by linarith
  then show "virt_to_phys off (i * 4096 + base) = page_frame base off i" "page_frame base off i \<noteq> 0"
    using b by (auto simp: virt_to_phys_def page_frame_def PAGE_SIZE_4K_def usize_sub_id)
  show "phys_to_virt off (page_frame base off i) = i * 4096 + base"
    using o b by (simp add: phys_to_virt_def page_frame_def PAGE_SIZE_4K_def usize_add_id)
  have "page_frame base off i mod 4096 = 0"
    using off(1) base_aligned o by (auto simp: page_frame_def PAGE_SIZE_4K_def mod_eq_0_iff_dvd intro!: dvd_diff_nat dvd_add)
  moreover have "page_frame base off i < 2 ^ pa_bits"
    using reach assms(2) o mult_strict_right_mono [OF assms(2), of 4096] by (simp add: page_frame_def PAGE_SIZE_4K_def)
  ultimately show "frame_addr pa_bits (page_frame base off i)" by (simp add: frame_addr_def)
qed

sublocale frame_source "handler_alloc_frame B off" "handler_dealloc_frame B off" "pages_inv free base lo hi"
  "live_frames free base off lo hi" pa_bits
proof (unfold_locales, goal_cases)
  case (1 h p h')
  obtain a r where al: "alloc_pages B 1 (2 ^ 12) h = (a, r)" by (cases "alloc_pages B 1 (2 ^ 12) h")
  then obtain v where r: "r = Inr v" "h' = a" "p = virt_to_phys off v"
    using 1(2) by (auto simp: handler_alloc_frame_def PAGE_SIZE_4K_def split: sum.splits)
  note spec = alloc_pages_spec [OF 1(1) _ _ _ al]
  obtain i where i: "v = index_address h i" "i \<in> free (pa_inner h)" "free (pa_inner a) = free (pa_inner h) - {i}"
    using spec(2) r by auto
  have ih: "lo \<le> i" "i < hi" "pa_base h = base" using 1(1) i(2) by (auto simp: pages_inv_def)
  have p: "p = page_frame base off i" using r(3) i(1) ih page_frame_ok(1) [OF ih(1,2)] by (simp add: index_address_def PAGE_SIZE_4K_def)
  have "p \<notin> live_frames free base off lo hi h"
    using i(2) by (auto simp: p live_frames_def dest!: page_frame_inj [OF ih(1), rotated])
  moreover have "{lo..<hi} - free (pa_inner a) = insert i ({lo..<hi} - free (pa_inner h))"
    unfolding i(3) using ih(1,2) by auto
  ultimately show ?case using spec(1) r(2) page_frame_ok [OF ih(1,2)] by (simp add: p live_frames_def)
next
  case (2 h h')
  obtain a r where al: "alloc_pages B 1 (2 ^ 12) h = (a, r)" by (cases "alloc_pages B 1 (2 ^ 12) h")
  then obtain e where r: "r = Inl e" "h' = a"
    using 2(2) by (auto simp: handler_alloc_frame_def PAGE_SIZE_4K_def split: sum.splits)
  show ?case using alloc_pages_spec [OF 2(1) _ _ _ al] r by (simp add: live_frames_def)
next
  case (3 h p)
  then obtain i where i: "p = page_frame base off i" "lo \<le> i" "i < hi" "i \<notin> free (pa_inner h)"
    by (auto simp: live_frames_def)
  have base: "pa_base h = base" using 3(1) by (simp add: pages_inv_def)
  from dealloc_pages_spec [OF 3(1), of 1 i] i obtain b where
    b: "dealloc_pages B (index_address h i) 1 h = Some (h\<lparr>pa_inner := b, pa_used_pages := pa_used_pages h - 1\<rparr>)"
    "free b = free (pa_inner h) \<union> {i}" "pages_inv free base lo hi (h\<lparr>pa_inner := b, pa_used_pages := pa_used_pages h - 1\<rparr>)"
    by auto
  have "{lo..<hi} - free b = ({lo..<hi} - free (pa_inner h)) - {i}" using b(2) by auto
  moreover have "page_frame base off ` (({lo..<hi} - free (pa_inner h)) - {i}) = live_frames free base off lo hi h - {p}"
    by (auto simp: live_frames_def i(1) dest!: page_frame_inj [OF _ i(2), rotated])
  ultimately show ?case using b page_frame_ok(2) [OF i(2,3)] base
    by (simp add: handler_dealloc_frame_def i(1) live_frames_def index_address_def PAGE_SIZE_4K_def)
qed

end

text \<open>One implementation of the bitmap interface: the list of free bits.\<close>

definition std_bits :: "nat list bit_ops" where
  "std_bits =
     \<lparr>bit_alloc = (\<lambda>b. case b of [] \<Rightarrow> (None, []) | i # r \<Rightarrow> (Some i, removeAll i r)),
      bit_alloc_contiguous = (\<lambda>base n al b.
        case find (\<lambda>i. {i..<i + n} \<subseteq> set b \<and> i mod 2 ^ al = 0 \<and> (base = None \<or> base = Some i)) b of
          None \<Rightarrow> (None, b) | Some i \<Rightarrow> (Some i, filter (\<lambda>j. j \<notin> {i..<i + n}) b)),
      bit_dealloc = (\<lambda>i b. (i \<notin> set b, List.insert i b)),
      bit_dealloc_contiguous = (\<lambda>i n b. if {i..<i + n} \<inter> set b = {} then (True, b @ [i..<i + n]) else (False, b)),
      bit_insert = (\<lambda>i j b. List.union [i..<j] b)\<rparr>"

interpretation std_bits: bit_allocator std_bits set
proof (unfold_locales, goal_cases)
  case (1 b r b')
  then show ?case by (auto simp: std_bits_def split: list.splits)
next
  case (2 base n al b r b')
  then show ?case by (auto simp: std_bits_def find_Some_iff split: option.splits)
qed (auto simp: std_bits_def split: if_splits)

section \<open>Properties\<close>

text \<open>C29: the page allocator hands out pages exclusively and accounts for them. An allocation returns a block of
  pages that were all free, page aligned and, for more than one page, aligned as requested, and takes
  exactly these pages out of the free set; a failed one changes nothing. The page count stays the number of pages in use, and
  giving the block back restores both the free pages and the count.\<close>

theorem page_allocator_correct:
  assumes "managed_pages B free base lo hi" and "pages_inv free base lo hi a" and "base mod 2 ^ al = 0"
    and "1 \<le> n" and "12 \<le> al" and "al \<le> 30"
  shows "case alloc_pages B n (2 ^ al) a of
      (a', Inl e) \<Rightarrow> e = OutOfPages \<and> pages_inv free base lo hi a' \<and> free_pages free a' = free_pages free a
    | (a', Inr v) \<Rightarrow> pages_inv free base lo hi a' \<and> page_block v n \<subseteq> free_pages free a \<and> v mod 4096 = 0 \<and>
        (1 < n \<longrightarrow> v mod 2 ^ al = 0) \<and> free_pages free a' = free_pages free a - page_block v n \<and>
        (\<exists>a''. dealloc_pages B v n a' = Some a'' \<and> pages_inv free base lo hi a'' \<and>
           free_pages free a'' = free_pages free a \<and> pa_used_pages a'' = pa_used_pages a)"
proof -
  note m = assms(1)
  obtain a' r where res: "alloc_pages B n (2 ^ al) a = (a', r)" by (cases "alloc_pages B n (2 ^ al) a")
  note spec = managed_pages.alloc_pages_spec [OF m assms(2,4,5,6) res]
  have base: "pa_base a = base" "pa_base a' = base" using assms(2) spec(1) by (simp_all add: pages_inv_def)
  have addr: "index_address a = (\<lambda>i. i * 4096 + base)" "index_address a' = index_address a"
    using base by (simp_all add: index_address_def fun_eq_iff PAGE_SIZE_4K_def)
  show ?thesis
  proof (cases r)
    case (Inl e)
    then show ?thesis using spec res addr by (simp add: free_pages_def)
  next
    case (Inr v)
    with spec(2) obtain i where i: "v = i * 4096 + base" "{i..<i + n} \<subseteq> free (pa_inner a)"
      "free (pa_inner a') = free (pa_inner a) - {i..<i + n}" "1 < n \<longrightarrow> i mod 2 ^ (al - 12) = 0"
      by (auto simp: addr)
    have block: "page_block v n = index_address a ` {i..<i + n}"
    proof -
      have "{i..<i + n} = (+) i ` {..<n}" by (simp add: lessThan_atLeast0 add.commute)
      then show ?thesis by (simp add: page_block_def i(1) addr image_image PAGE_SIZE_4K_def algebra_simps)
    qed
    have inj: "inj (index_address a)" by (auto simp: addr inj_def)
    have "(2::nat) ^ al = 2 ^ (al - 12) * 4096" using assms(5) power_add [of "2::nat" "al - 12" 12] by simp
    then have "v mod 2 ^ al = 0" if "1 < n"
      using i(1,4) that assms(3) by (auto simp: mod_eq_0_iff_dvd intro!: dvd_add mult_dvd_mono)
    moreover have "v mod 4096 = 0" using i(1) managed_pages.base_aligned [OF m] by (simp add: mod_add_eq)
    moreover have "\<exists>a''. dealloc_pages B v n a' = Some a'' \<and> pages_inv free base lo hi a'' \<and>
        free_pages free a'' = free_pages free a \<and> pa_used_pages a'' = pa_used_pages a"
    proof -
      have sub: "{i..<i + n} \<subseteq> {lo..<hi}" using i(2) assms(2) unfolding pages_inv_def by blast
      moreover have "{i..<i + n} \<inter> free (pa_inner a') = {}" using i(3) by auto
      ultimately obtain b where b: "dealloc_pages B v n a' = Some (a'\<lparr>pa_inner := b, pa_used_pages := pa_used_pages a' - n\<rparr>)"
        "free b = free (pa_inner a') \<union> {i..<i + n}"
        "pages_inv free base lo hi (a'\<lparr>pa_inner := b, pa_used_pages := pa_used_pages a' - n\<rparr>)"
        using managed_pages.dealloc_pages_spec [OF m spec(1) assms(4), of i] by (auto simp: i(1) addr)
      have "free b = free (pa_inner a)" using b(2) i(2,3) by auto
      then show ?thesis using b(1,3) assms(2) addr base by (auto simp: free_pages_def pages_inv_def index_address_def PAGE_SIZE_4K_def)
    qed
    moreover have "free_pages free a' = free_pages free a - page_block v n"
      using i(3) inj block by (simp add: free_pages_def addr(2) image_set_diff)
    ultimately show ?thesis using spec(1) res Inr i(2) block by (auto simp: free_pages_def)
  qed
qed

text \<open>C30: a one-page allocation ignores the requested alignment: it is the same call as one with page alignment,
  although the contract promises that the returned address is aligned as asked.\<close>

theorem alloc_one_page_ignores_alignment:
  assumes "12 \<le> al" and "al \<le> 30"
  shows "alloc_pages B 1 (2 ^ al) a = alloc_pages B 1 PAGE_SIZE_4K a"
proof -
  have pow: "(2::nat) ^ al = 2 ^ (al - 12) * 4096" using assms(1) power_add [of "2::nat" "al - 12" 12] by simp
  have "\<not> MAX_ALIGN_1GB < 2 ^ al" using power_increasing [OF assms(2), of "2::nat"] by (simp add: MAX_ALIGN_1GB_def)
  moreover have "is_power_of_two 1" using is_power_of_two_power(1) [of 0] by simp
  ultimately show ?thesis using pow
    by (simp add: alloc_pages_def page_alignment PAGE_SIZE_4K_def MAX_ALIGN_1GB_def)
qed

section \<open>Concrete instances\<close>

text \<open>Eight pages at 2 GiB, the first of them in use.\<close>

definition demo_pages :: "nat list page_allocator" where
  "demo_pages = \<lparr>pa_base = 0x80000000, pa_total_pages = 8, pa_used_pages = 1, pa_inner = [1, 2, 3, 4, 5, 6, 7]\<rparr>"

interpretation demo_pages: managed_pages std_bits set "0x80000000" 0 8
  by unfold_locales (simp_all add: usize_bound_def)

lemma demo_pages_inv: "pages_inv set 0x80000000 0 8 demo_pages"
proof -
  have "{0..<8} - set (pa_inner demo_pages) = {0}" by (auto simp: demo_pages_def)
  then show ?thesis by (auto simp: pages_inv_def demo_pages_def)
qed

theorem page_allocator_correct_witness:
  "\<exists>a' a''. alloc_pages std_bits 2 (2 ^ 13) demo_pages = (a', Inr 0x80002000) \<and>
     dealloc_pages std_bits 0x80002000 2 a' = Some a'' \<and> pa_used_pages a'' = 1"
proof -
  have "snd (alloc_pages std_bits 2 (2 ^ 13) demo_pages) = Inr 0x80002000"
    by (simp add: alloc_pages_def demo_pages_def std_bits_def index_address_def MAX_ALIGN_1GB_def page_alignment PAGE_SIZE_4K_def
        is_power_of_two_power [of 1, simplified] subset_eq) auto
  then obtain a' where a: "alloc_pages std_bits 2 (2 ^ 13) demo_pages = (a', Inr 0x80002000)" by (metis prod.collapse)
  show ?thesis
    using page_allocator_correct [OF demo_pages.managed_pages_axioms demo_pages_inv, of 13 2] a by (auto simp: demo_pages_def)
qed

theorem alloc_one_page_ignores_alignment_witness:
  "snd (alloc_pages std_bits 1 (2 ^ 21) demo_pages) = Inr 0x80001000 \<and> (0x80001000 :: usize) mod 2 ^ 21 \<noteq> 0"
proof -
  have "alloc_pages std_bits 1 (2 ^ 21) demo_pages = alloc_pages std_bits 1 PAGE_SIZE_4K demo_pages"
    by (rule alloc_one_page_ignores_alignment) simp_all
  moreover have "snd (alloc_pages std_bits 1 PAGE_SIZE_4K demo_pages) = Inr 0x80001000"
    by (simp add: alloc_pages_def demo_pages_def std_bits_def index_address_def MAX_ALIGN_1GB_def page_alignment PAGE_SIZE_4K_def
        is_power_of_two_power [of 0, simplified])
  ultimately show ?thesis by simp
qed

end
