(* ===== verification/Page_Table.thy ===== *)
theory Page_Table
  imports Page_Alloc
begin

text \<open>
  The multi-level page table (\<open>crates/page_table_multiarch/page_table_multiarch/src/bits64.rs\<close>). Tables live
  in a store from physical addresses to their 512 entries, so that two page tables can share
  sub-tables (\<open>copy_from\<close>). The type parameters of \<open>PageTable64<M, PTE, H>\<close> are the record \<open>paging\<close>: the entry
  format, the number of levels and the frame handler with its state, the heap. A reference to an
  entry is the address of its table and an index. The TLB is hardware and is not modelled; the tokens
  that stand for pending flushes are dropped. \<open>None\<close> is a failed assertion.
\<close>

named_theorems pt_simps \<open>reading back an updated table store\<close>

section \<open>Types\<close>

datatype paging_error = PtNoMemory | NotAligned | NotMapped | AlreadyMapped | MappedToHugePage

datatype page_size = Size4K | Size2M | Size1G

definition page_bytes :: "page_size \<Rightarrow> usize" where
  "page_bytes ps = (case ps of Size4K \<Rightarrow> 0x1000 | Size2M \<Rightarrow> 0x200000 | Size1G \<Rightarrow> 0x40000000)"

definition page_is_huge :: "page_size \<Rightarrow> bool" where
  "page_is_huge ps = (case ps of Size4K \<Rightarrow> False | Size2M \<Rightarrow> True | Size1G \<Rightarrow> True)"

record ('p, 'h) paging =
  pg_pte :: "'p pte_ops"
  pg_levels :: nat
  pg_va_bits :: nat
  pg_addr :: addr_ops
  pg_alloc :: "'h \<Rightarrow> usize option \<times> 'h"
  pg_dealloc :: "usize \<Rightarrow> 'h \<Rightarrow> 'h option"

record ('p, 'h) pt_state =
  pt_tables :: "usize \<Rightarrow> 'p list"
  pt_heap :: 'h

record page_table =
  root_paddr :: usize
  borrowed :: "nat set"

type_synonym entry_ref = "usize \<times> nat"

definition ENTRY_COUNT :: nat where
  "ENTRY_COUNT = 512"

definition p4_index :: "usize \<Rightarrow> nat" where
  "p4_index vaddr = drop_bit (12 + 27) vaddr AND (ENTRY_COUNT - 1)"

definition p3_index :: "usize \<Rightarrow> nat" where
  "p3_index vaddr = drop_bit (12 + 18) vaddr AND (ENTRY_COUNT - 1)"

definition p2_index :: "usize \<Rightarrow> nat" where
  "p2_index vaddr = drop_bit (12 + 9) vaddr AND (ENTRY_COUNT - 1)"

definition p1_index :: "usize \<Rightarrow> nat" where
  "p1_index vaddr = drop_bit 12 vaddr AND (ENTRY_COUNT - 1)"

section \<open>Tables\<close>

definition entry :: "('p, 'h, 'z) pt_state_scheme \<Rightarrow> entry_ref \<Rightarrow> 'p" where
  "entry s r = pt_tables s (fst r) ! snd r"

definition set_entry :: "entry_ref \<Rightarrow> 'p \<Rightarrow> ('p, 'h, 'z) pt_state_scheme \<Rightarrow> ('p, 'h, 'z) pt_state_scheme" where
  "set_entry r e s = s\<lparr>pt_tables := (pt_tables s)(fst r := (pt_tables s (fst r))[snd r := e])\<rparr>"

lemma set_entry_same: "entry s r = e \<Longrightarrow> set_entry r e s = s"
  by (cases s) (auto simp: set_entry_def entry_def)

definition alloc_table ::
    "('p, 'h) paging \<Rightarrow> ('p, 'h, 'z) pt_state_scheme \<Rightarrow> ('p, 'h, 'z) pt_state_scheme \<times> (paging_error + usize)" where
  "alloc_table G s =
     (case pg_alloc G (pt_heap s) of
        (Some paddr, h) \<Rightarrow>
          (s\<lparr>pt_heap := h, pt_tables := (pt_tables s)(paddr := replicate ENTRY_COUNT (pte_zero (pg_pte G)))\<rparr>, Inr paddr)
      | (None, h) \<Rightarrow> (s\<lparr>pt_heap := h\<rparr>, Inl PtNoMemory))"

definition next_table :: "('p, 'h) paging \<Rightarrow> 'p \<Rightarrow> paging_error + usize" where
  "next_table G e =
     (if pte_paddr (pg_pte G) e = 0 then Inl NotMapped
      else if is_huge (pg_pte G) e then Inl MappedToHugePage
      else Inr (pte_paddr (pg_pte G) e))"

definition next_table_mut_or_create ::
    "('p, 'h) paging \<Rightarrow> ('p, 'h, 'z) pt_state_scheme \<Rightarrow> entry_ref \<Rightarrow>
      ('p, 'h, 'z) pt_state_scheme \<times> (paging_error + usize)" where
  "next_table_mut_or_create G s r =
     (if is_unused (pg_pte G) (entry s r) then
        case alloc_table G s of
          (s', Inl err) \<Rightarrow> (s', Inl err)
        | (s', Inr paddr) \<Rightarrow> (set_entry r (new_table (pg_pte G) paddr) s', Inr paddr)
      else (s, next_table G (entry s r)))"

definition get_entry ::
    "('p, 'h) paging \<Rightarrow> ('p, 'h, 'z) pt_state_scheme \<Rightarrow> page_table \<Rightarrow> usize \<Rightarrow> paging_error + (entry_ref \<times> page_size)" where
  "get_entry G s pt vaddr =
     rbind (if pg_levels G = 3 then Inr (root_paddr pt)
            else next_table G (entry s (root_paddr pt, p4_index vaddr))) (\<lambda>p3.
     let p3e = (p3, p3_index vaddr) in
     if is_huge (pg_pte G) (entry s p3e) then Inr (p3e, Size1G)
     else rbind (next_table G (entry s p3e)) (\<lambda>p2.
     let p2e = (p2, p2_index vaddr) in
     if is_huge (pg_pte G) (entry s p2e) then Inr (p2e, Size2M)
     else rbind (next_table G (entry s p2e)) (\<lambda>p1. Inr ((p1, p1_index vaddr), Size4K))))"

definition get_entry_mut_or_create ::
    "('p, 'h) paging \<Rightarrow> ('p, 'h, 'z) pt_state_scheme \<Rightarrow> page_table \<Rightarrow> usize \<Rightarrow> page_size \<Rightarrow>
      ('p, 'h, 'z) pt_state_scheme \<times> (paging_error + entry_ref)" where
  "get_entry_mut_or_create G s pt vaddr ps =
     (case (if pg_levels G = 3 then (s, Inr (root_paddr pt))
            else next_table_mut_or_create G s (root_paddr pt, p4_index vaddr)) of
        (s, Inl err) \<Rightarrow> (s, Inl err)
      | (s, Inr p3) \<Rightarrow>
        let p3e = (p3, p3_index vaddr) in
        if ps = Size1G then (s, Inr p3e)
        else case next_table_mut_or_create G s p3e of
          (s, Inl err) \<Rightarrow> (s, Inl err)
        | (s, Inr p2) \<Rightarrow>
          let p2e = (p2, p2_index vaddr) in
          if ps = Size2M then (s, Inr p2e)
          else case next_table_mut_or_create G s p2e of
            (s, Inl err) \<Rightarrow> (s, Inl err)
          | (s, Inr p1) \<Rightarrow> (s, Inr (p1, p1_index vaddr)))"

section \<open>Operations\<close>

definition pt_try_new ::
    "('p, 'h) paging \<Rightarrow> ('p, 'h, 'z) pt_state_scheme \<Rightarrow> ('p, 'h, 'z) pt_state_scheme \<times> (paging_error + page_table)" where
  "pt_try_new G s =
     (case alloc_table G s of
        (s', Inl err) \<Rightarrow> (s', Inl err)
      | (s', Inr paddr) \<Rightarrow> (s', Inr \<lparr>root_paddr = paddr, borrowed = {}\<rparr>))"

definition pt_map ::
    "('p, 'h) paging \<Rightarrow> ('p, 'h, 'z) pt_state_scheme \<Rightarrow> page_table \<Rightarrow> usize \<Rightarrow> usize \<Rightarrow> page_size \<Rightarrow> mapping_flags \<Rightarrow>
      (('p, 'h, 'z) pt_state_scheme \<times> (paging_error + unit)) option" where
  "pt_map G s pt vaddr target ps flags =
     (case get_entry_mut_or_create G s pt vaddr ps of
        (s', Inl err) \<Rightarrow> Some (s', Inl err)
      | (s', Inr r) \<Rightarrow>
          if \<not> is_unused (pg_pte G) (entry s' r) then Some (s', Inl AlreadyMapped)
          else map_option (\<lambda>e. (set_entry r e s', Inr ()))
            (new_page (pg_pte G) (align_down (pg_addr G) target (page_bytes ps)) flags (page_is_huge ps)))"

definition pt_remap ::
    "('p, 'h) paging \<Rightarrow> ('p, 'h, 'z) pt_state_scheme \<Rightarrow> page_table \<Rightarrow> usize \<Rightarrow> usize \<Rightarrow> mapping_flags \<Rightarrow>
      (('p, 'h, 'z) pt_state_scheme \<times> (paging_error + page_size)) option" where
  "pt_remap G s pt vaddr paddr flags =
     (case get_entry G s pt vaddr of
        Inl err \<Rightarrow> Some (s, Inl err)
      | Inr (r, ps) \<Rightarrow>
          map_option (\<lambda>e. (set_entry r e s, Inr ps))
            (set_flags (pg_pte G) (set_paddr (pg_pte G) (entry s r) paddr) flags (page_is_huge ps)))"

definition pt_protect ::
    "('p, 'h) paging \<Rightarrow> ('p, 'h, 'z) pt_state_scheme \<Rightarrow> page_table \<Rightarrow> usize \<Rightarrow> mapping_flags \<Rightarrow>
      (('p, 'h, 'z) pt_state_scheme \<times> (paging_error + page_size)) option" where
  "pt_protect G s pt vaddr flags =
     (case get_entry G s pt vaddr of
        Inl err \<Rightarrow> Some (s, Inl err)
      | Inr (r, ps) \<Rightarrow>
          if \<not> is_present (pg_pte G) (entry s r) then Some (s, Inl NotMapped)
          else map_option (\<lambda>e. (set_entry r e s, Inr ps))
            (set_flags (pg_pte G) (entry s r) flags (page_is_huge ps)))"

definition pt_unmap ::
    "('p, 'h) paging \<Rightarrow> ('p, 'h, 'z) pt_state_scheme \<Rightarrow> page_table \<Rightarrow> usize \<Rightarrow>
      ('p, 'h, 'z) pt_state_scheme \<times> (paging_error + usize \<times> page_size)" where
  "pt_unmap G s pt vaddr =
     (case get_entry G s pt vaddr of
        Inl err \<Rightarrow> (s, Inl err)
      | Inr (r, ps) \<Rightarrow>
          let e = entry s r; s' = set_entry r (pte_clear (pg_pte G) e) s in
          if \<not> is_present (pg_pte G) e then (s', Inl NotMapped)
          else (s', Inr (pte_paddr (pg_pte G) e, ps)))"

definition pt_query ::
    "('p, 'h) paging \<Rightarrow> ('p, 'h, 'z) pt_state_scheme \<Rightarrow> page_table \<Rightarrow> usize \<Rightarrow>
      paging_error + usize \<times> mapping_flags \<times> page_size" where
  "pt_query G s pt vaddr =
     rbind (get_entry G s pt vaddr) (\<lambda>(r, ps).
     if \<not> is_present (pg_pte G) (entry s r) then Inl NotMapped
     else let off = align_offset (pg_addr G) vaddr (page_bytes ps) in
       Inr (usize_add (pte_paddr (pg_pte G) (entry s r)) off, pte_flags_of (pg_pte G) (entry s r), ps))"

subsection \<open>Walking the leaves of a range\<close>

text \<open>The visitor of \<open>walk_leaf_range\<close> cannot stop the walk, so the walk is the list of the calls it makes,
  with the error that ended it, if any. \<open>k\<close> is the number of levels below the table.\<close>

type_synonym leaf_visit = "usize \<times> usize \<times> mapping_flags \<times> page_size"

definition canonicalize_vaddr :: "('p, 'h) paging \<Rightarrow> usize \<Rightarrow> usize" where
  "canonicalize_vaddr G raw =
     (if raw AND 2 ^ (pg_va_bits G - 1) = 0 then raw else raw OR (usize_bound - 2 ^ pg_va_bits G))"

definition saturating_add :: "usize \<Rightarrow> usize \<Rightarrow> usize" where
  "saturating_add a b = min (a + b) (usize_bound - 1)"

fun leaf_size :: "nat \<Rightarrow> page_size option" where
  "leaf_size 0 = Some Size4K"
| "leaf_size (Suc 0) = Some Size2M"
| "leaf_size (Suc (Suc 0)) = Some Size1G"
| "leaf_size _ = None"

definition then_visit ::
    "leaf_visit list \<times> (paging_error + unit) \<Rightarrow> (unit \<Rightarrow> leaf_visit list \<times> (paging_error + unit)) \<Rightarrow>
      leaf_visit list \<times> (paging_error + unit)" where
  "then_visit x f = (case x of (vs, Inl err) \<Rightarrow> (vs, Inl err) | (vs, Inr _) \<Rightarrow> (let (ws, r) = f () in (vs @ ws, r)))"

primrec walk_entries ::
    "(nat \<Rightarrow> 'p \<Rightarrow> leaf_visit list \<times> (paging_error + unit)) \<Rightarrow> nat \<Rightarrow> 'p list \<Rightarrow>
      leaf_visit list \<times> (paging_error + unit)" where
  "walk_entries f i [] = ([], Inr ())"
| "walk_entries f i (e # es) = then_visit (f i e) (\<lambda>_. walk_entries f (Suc i) es)"

definition walk_entry ::
    "('p, 'h) paging \<Rightarrow> usize \<Rightarrow> usize \<Rightarrow> nat \<Rightarrow> usize \<Rightarrow> (usize \<Rightarrow> usize \<Rightarrow> leaf_visit list \<times> (paging_error + unit)) \<Rightarrow>
      nat \<Rightarrow> 'p \<Rightarrow> leaf_visit list \<times> (paging_error + unit)" where
  "walk_entry G range_start range_end k prefix below i e =
     (if \<not> is_present (pg_pte G) e then ([], Inr ())
      else let shift = 12 + k * 9; span = 2 ^ shift;
               raw_start = prefix OR push_bit shift i;
               entry_start = canonicalize_vaddr G raw_start;
               entry_end = saturating_add entry_start span in
      if entry_end \<le> range_start \<or> entry_start \<ge> range_end then ([], Inr ())
      else if k = 0 \<or> is_huge (pg_pte G) e then
        case leaf_size k of
          None \<Rightarrow> ([], Inl MappedToHugePage)
        | Some ps \<Rightarrow> ([(entry_start, pte_paddr (pg_pte G) e, pte_flags_of (pg_pte G) e, ps)], Inr ())
      else case next_table G e of Inl err \<Rightarrow> ([], Inl err) | Inr t \<Rightarrow> below t raw_start)"

primrec walk_leaf_range_recursive ::
    "('p, 'h) paging \<Rightarrow> ('p, 'h, 'z) pt_state_scheme \<Rightarrow> usize \<Rightarrow> usize \<Rightarrow> nat \<Rightarrow> usize \<Rightarrow> usize \<Rightarrow>
      leaf_visit list \<times> (paging_error + unit)" where
  "walk_leaf_range_recursive G s range_start range_end 0 t prefix =
     walk_entries (walk_entry G range_start range_end 0 prefix (\<lambda>_ _. ([], Inr ()))) 0 (pt_tables s t)"
| "walk_leaf_range_recursive G s range_start range_end (Suc k) t prefix =
     walk_entries (walk_entry G range_start range_end (Suc k) prefix
       (walk_leaf_range_recursive G s range_start range_end k)) 0 (pt_tables s t)"

definition walk_leaf_range ::
    "('p, 'h) paging \<Rightarrow> ('p, 'h, 'z) pt_state_scheme \<Rightarrow> page_table \<Rightarrow> usize \<Rightarrow> usize \<Rightarrow>
      leaf_visit list \<times> (paging_error + unit)" where
  "walk_leaf_range G s pt start len =
     (if len = 0 then ([], Inr ())
      else case checked_add start len of
        None \<Rightarrow> ([], Inl NotAligned)
      | Some finish \<Rightarrow> walk_leaf_range_recursive G s start finish (pg_levels G - 1) (root_paddr pt) 0)"

subsection \<open>Copying and dropping\<close>

primrec dealloc_tables :: "('p, 'h) paging \<Rightarrow> (usize \<Rightarrow> 'h \<Rightarrow> 'h option) \<Rightarrow> 'p list \<Rightarrow> 'h \<Rightarrow> 'h option" where
  "dealloc_tables G f [] h = Some h"
| "dealloc_tables G f (e # es) h =
     Option.bind (case next_table G e of Inr _ \<Rightarrow> f (pte_paddr (pg_pte G) e) h | Inl _ \<Rightarrow> Some h) (dealloc_tables G f es)"

text \<open>\<open>k\<close> is the number of levels below the table.\<close>

primrec dealloc_tree ::
    "('p, 'h) paging \<Rightarrow> ('p, 'h, 'z) pt_state_scheme \<Rightarrow> nat \<Rightarrow> usize \<Rightarrow> 'h \<Rightarrow> 'h option" where
  "dealloc_tree G s 0 t h = pg_dealloc G t h"
| "dealloc_tree G s (Suc k) t h =
     Option.bind (dealloc_tables G (dealloc_tree G s k) (pt_tables s t) h) (pg_dealloc G t)"

definition pt_drop ::
    "('p, 'h) paging \<Rightarrow> ('p, 'h, 'z) pt_state_scheme \<Rightarrow> page_table \<Rightarrow> 'h option" where
  "pt_drop G s pt =
     Option.bind (dealloc_tables G (dealloc_tree G s (pg_levels G - 2))
       (map snd (filter (\<lambda>(i, e). i \<notin> borrowed pt) (enumerate 0 (pt_tables s (root_paddr pt))))) (pt_heap s))
       (pg_dealloc G (root_paddr pt))"

definition copy_entry ::
    "('p, 'h) paging \<Rightarrow> usize \<Rightarrow> nat \<Rightarrow> ('p, 'h, 'z) pt_state_scheme \<times> page_table \<Rightarrow>
      (('p, 'h, 'z) pt_state_scheme \<times> page_table) option" where
  "copy_entry G src i sp =
     (let (s, pt) = sp; e = entry s (root_paddr pt, i) in
      map_option (\<lambda>h. (set_entry (root_paddr pt, i) (entry s (src, i)) (s\<lparr>pt_heap := h\<rparr>),
                        pt\<lparr>borrowed := insert i (borrowed pt)\<rparr>))
        (if i \<notin> borrowed pt then
           case next_table G e of
             Inr _ \<Rightarrow> dealloc_tree G s (pg_levels G - 2) (pte_paddr (pg_pte G) e) (pt_heap s)
           | Inl _ \<Rightarrow> Some (pt_heap s)
         else Some (pt_heap s)))"

primrec copy_entries ::
    "('p, 'h) paging \<Rightarrow> usize \<Rightarrow> nat list \<Rightarrow> ('p, 'h, 'z) pt_state_scheme \<times> page_table \<Rightarrow>
      (('p, 'h, 'z) pt_state_scheme \<times> page_table) option" where
  "copy_entries G src [] sp = Some sp"
| "copy_entries G src (i # is) sp = Option.bind (copy_entry G src i sp) (copy_entries G src is)"

definition pt_copy_from ::
    "('p, 'h) paging \<Rightarrow> ('p, 'h, 'z) pt_state_scheme \<Rightarrow> page_table \<Rightarrow> page_table \<Rightarrow> usize \<Rightarrow> usize \<Rightarrow>
      (('p, 'h, 'z) pt_state_scheme \<times> page_table) option" where
  "pt_copy_from G s pt other start len =
     (if len = 0 then Some (s, pt)
      else let index_fn = (if pg_levels G = 3 then p3_index else p4_index);
               start_idx = index_fn start;
               end_idx = index_fn (usize_sub (usize_add start len) 1) + 1
      in if start_idx < ENTRY_COUNT \<and> end_idx \<le> ENTRY_COUNT
         then copy_entries G (root_paddr other) [start_idx..<end_idx] (s, pt) else None)"

section \<open>The tree of tables\<close>

text \<open>
  \<open>tabs\<close> are the tables of the sub-tree with root \<open>t\<close> and \<open>k\<close> levels below it, entered through the indices \<open>I\<close> of
  the root (the entries a page table owns; sub-tables always use all of them). \<open>pt_wf\<close>: every entry
  is unused, a leaf the level admits, or the only pointer to a well-formed sub-table. \<open>leaf_at\<close> is the leaf found along a path of
  indices, with the number of levels below it.
\<close>

abbreviation all_idx :: "nat set" where
  "all_idx \<equiv> {..<512}"

definition child :: "('p, 'h) paging \<Rightarrow> ('p, 'h, 'z) pt_state_scheme \<Rightarrow> usize \<Rightarrow> nat \<Rightarrow> usize option" where
  "child G s t i = (case next_table G (entry s (t, i)) of Inr t' \<Rightarrow> Some t' | Inl _ \<Rightarrow> None)"

primrec tabs :: "('p, 'h) paging \<Rightarrow> ('p, 'h, 'z) pt_state_scheme \<Rightarrow> nat \<Rightarrow> nat set \<Rightarrow> usize \<Rightarrow> usize set" where
  "tabs G s 0 I t = {t}"
| "tabs G s (Suc k) I t = insert t (\<Union>i\<in>I. case child G s t i of None \<Rightarrow> {} | Some t' \<Rightarrow> tabs G s k all_idx t')"

definition slot_ok :: "('p, 'h) paging \<Rightarrow> nat \<Rightarrow> 'p \<Rightarrow> bool" where
  "slot_ok G k e \<longleftrightarrow> e = pte_zero (pg_pte G) \<or>
     is_present (pg_pte G) e \<and> k \<le> 2 \<and> (0 < k \<longrightarrow> is_huge (pg_pte G) e)"

primrec pt_wf :: "('p, 'h) paging \<Rightarrow> ('p, 'h, 'z) pt_state_scheme \<Rightarrow> nat \<Rightarrow> nat set \<Rightarrow> usize \<Rightarrow> bool" where
  "pt_wf G s 0 I t \<longleftrightarrow> length (pt_tables s t) = 512 \<and> (\<forall>i\<in>I. slot_ok G 0 (entry s (t, i)))"
| "pt_wf G s (Suc k) I t \<longleftrightarrow> length (pt_tables s t) = 512 \<and>
     (\<forall>i\<in>I. slot_ok G (Suc k) (entry s (t, i)) \<or> is_present (pg_pte G) (entry s (t, i)) \<and>
        (\<exists>t'. child G s t i = Some t' \<and> pt_wf G s k all_idx t' \<and> t \<notin> tabs G s k all_idx t')) \<and>
     (\<forall>i\<in>I. \<forall>j\<in>I. \<forall>a b. i \<noteq> j \<longrightarrow> child G s t i = Some a \<longrightarrow> child G s t j = Some b \<longrightarrow>
        tabs G s k all_idx a \<inter> tabs G s k all_idx b = {})"

fun leaf_at :: "('p, 'h) paging \<Rightarrow> ('p, 'h, 'z) pt_state_scheme \<Rightarrow> usize \<Rightarrow> nat list \<Rightarrow> ('p \<times> nat) option" where
  "leaf_at G s t [] = None"
| "leaf_at G s t (i # is) =
     (if is = [] \<or> is_huge (pg_pte G) (entry s (t, i)) \<and> length is \<le> 2 then
        if is_present (pg_pte G) (entry s (t, i)) then Some (entry s (t, i), length is) else None
      else case child G s t i of None \<Rightarrow> None | Some t' \<Rightarrow> leaf_at G s t' is)"

definition leaf_slot :: "('p, 'h) paging \<Rightarrow> ('p, 'h, 'z) pt_state_scheme \<Rightarrow> 'p \<Rightarrow> nat list \<Rightarrow> ('p \<times> nat) option" where
  "leaf_slot G s e is =
     (if is = [] \<or> is_huge (pg_pte G) e \<and> length is \<le> 2 then
        if is_present (pg_pte G) e then Some (e, length is) else None
      else case next_table G e of Inl _ \<Rightarrow> None | Inr t' \<Rightarrow> leaf_at G s t' is)"

primrec go :: "('p, 'h) paging \<Rightarrow> ('p, 'h, 'z) pt_state_scheme \<Rightarrow> usize \<Rightarrow> nat list \<Rightarrow> usize option" where
  "go G s t [] = Some t"
| "go G s t (i # is) = (case child G s t i of None \<Rightarrow> None | Some t' \<Rightarrow> go G s t' is)"

definition idx_path :: "nat set \<Rightarrow> nat list \<Rightarrow> bool" where
  "idx_path I q \<longleftrightarrow> (case q of [] \<Rightarrow> True | i # is \<Rightarrow> i \<in> I \<and> set is \<subseteq> all_idx)"

lemma idx_path_Cons [simp]: "idx_path I (i # is) \<longleftrightarrow> i \<in> I \<and> set is \<subseteq> all_idx"
  by (simp add: idx_path_def)

lemma idx_path_Nil [simp]: "idx_path I []"
  by (simp add: idx_path_def)

lemma idx_path_all: "set is \<subseteq> all_idx \<Longrightarrow> idx_path all_idx is"
  by (cases "is") auto

lemma idx_path_all_iff: "idx_path all_idx is \<longleftrightarrow> set is \<subseteq> all_idx"
  by (cases "is") auto

lemma idx_path_append:
  "idx_path I (p @ q) \<Longrightarrow> idx_path I p"
  "idx_path I (p @ [i]) \<Longrightarrow> i \<in> (if p = [] then I else all_idx)"
  by (cases p; auto)+

lemma root_tab: "t \<in> tabs G s k I t"
  by (cases k) auto

lemma tabs_child:
  assumes "child G s t i = Some t'" "i \<in> I"
  shows "tabs G s k all_idx t' \<subseteq> tabs G s (Suc k) I t"
  using assms by (auto simp: intro!: bexI [of _ i])

lemma leaf_at_slot: "leaf_at G s t (i # is) = leaf_slot G s (entry s (t, i)) is"
  by (auto simp: leaf_slot_def child_def split: sum.splits)

declare leaf_at.simps(2) [simp del]

lemma entry_cong: "pt_tables s' t = pt_tables s t \<Longrightarrow> entry s' (t, i) = entry s (t, i)"
  by (simp add: entry_def)

lemma child_cong: "pt_tables s' t = pt_tables s t \<Longrightarrow> child G s' t i = child G s t i"
  by (simp add: child_def entry_def)

lemma tabs_cong:
  "(\<And>u. u \<in> tabs G s k I t \<Longrightarrow> pt_tables s' u = pt_tables s u) \<Longrightarrow> tabs G s' k I t = tabs G s k I t"
proof (induction k arbitrary: I t)
  case (Suc k)
  have c: "child G s' t i = child G s t i" for i using Suc.prems [OF root_tab] by (rule child_cong)
  have "tabs G s' k all_idx t' = tabs G s k all_idx t'" if "child G s t i = Some t'" "i \<in> I" for i t'
    using tabs_child [OF that] Suc.prems by (intro Suc.IH) blast
  then have "(\<Union>i\<in>I. case child G s' t i of None \<Rightarrow> {} | Some t' \<Rightarrow> tabs G s' k all_idx t') =
      (\<Union>i\<in>I. case child G s t i of None \<Rightarrow> {} | Some t' \<Rightarrow> tabs G s k all_idx t')"
    by (intro SUP_cong refl) (simp add: c split: option.split)
  then show ?case by simp
qed simp

lemma pt_wf_cong:
  "(\<And>u. u \<in> tabs G s k I t \<Longrightarrow> pt_tables s' u = pt_tables s u) \<Longrightarrow> pt_wf G s k I t \<Longrightarrow> pt_wf G s' k I t"
proof (induction k arbitrary: I t)
  case 0
  then show ?case using entry_cong [OF 0(1) [OF root_tab]] by simp
next
  case (Suc k)
  have t: "pt_tables s' t = pt_tables s t" using Suc.prems(1) [OF root_tab] .
  have c: "child G s' t i = child G s t i" for i using t by (rule child_cong)
  have sub: "\<And>u. u \<in> tabs G s k all_idx t' \<Longrightarrow> pt_tables s' u = pt_tables s u" if "child G s t i = Some t'" "i \<in> I" for i t'
    using tabs_child [OF that] Suc.prems by blast
  have tb: "tabs G s' k all_idx t' = tabs G s k all_idx t'" if "child G s t i = Some t'" "i \<in> I" for i t'
    by (rule tabs_cong) (rule sub [OF that])
  have wf: "pt_wf G s' k all_idx t'" if "child G s t i = Some t'" "i \<in> I" "pt_wf G s k all_idx t'" for i t'
    by (rule Suc.IH [OF _ that(3)]) (rule sub [OF that(1,2)])
  note old = Suc.prems(2) [unfolded pt_wf.simps]
  have "slot_ok G (Suc k) (entry s' (t, i)) \<or> is_present (pg_pte G) (entry s' (t, i)) \<and>
      (\<exists>t'. child G s' t i = Some t' \<and> pt_wf G s' k all_idx t' \<and> t \<notin> tabs G s' k all_idx t')" if i: "i \<in> I" for i
    using old i tb [OF _ i] wf [OF _ i] unfolding c entry_cong [OF t] by metis
  moreover have "tabs G s' k all_idx a \<inter> tabs G s' k all_idx b = {}"
    if "i \<in> I" "j \<in> I" "i \<noteq> j" "child G s' t i = Some a" "child G s' t j = Some b" for i j a b
    using old that tb [of i a] tb [of j b] unfolding c by metis
  ultimately show ?case using old t unfolding pt_wf.simps by simp
qed

lemma leaf_at_cong:
  "(\<And>u. u \<in> tabs G s k I t \<Longrightarrow> pt_tables s' u = pt_tables s u) \<Longrightarrow> length q = Suc k \<Longrightarrow> idx_path I q \<Longrightarrow>
    leaf_at G s' t q = leaf_at G s t q"
proof (induction k arbitrary: I t q)
  case 0
  then obtain i where "q = [i]" by (cases q) auto
  then show ?case using entry_cong [OF 0(1) [OF root_tab]] by (simp add: leaf_at.simps)
next
  case (Suc k)
  obtain i "is" where q: "q = i # is" "length is = Suc k" "i \<in> I" "set is \<subseteq> all_idx"
    using Suc.prems(2,3) by (cases q) auto
  have t: "pt_tables s' t = pt_tables s t" using Suc.prems(1) [OF root_tab] .
  have "leaf_at G s' t' is = leaf_at G s t' is" if c: "child G s t i = Some t'" for t'
    using tabs_child [OF c q(3)] Suc.prems(1) q by (intro Suc.IH [of all_idx]) (auto intro: idx_path_all)
  then show ?case by (auto simp: q(1) leaf_at.simps entry_cong [OF t] child_cong [OF t] split: option.split)
qed

section \<open>Changing one entry\<close>

locale paging_laws = generic_pte "pg_pte G" pa_bits leaf_ok stored +
    frame_source "pg_alloc G" "pg_dealloc G" heap_inv live pa_bits + memory_addr "pg_addr G"
  for G :: "('p, 'h) paging" and pa_bits leaf_ok stored heap_inv live +
  assumes levels: "pg_levels G = 3 \<or> pg_levels G = 4"
    and va_bits: "pg_va_bits G = 12 + 9 * pg_levels G"
    and pa_reach: "pa_bits \<le> 63"
begin

lemma slot_no_child: "slot_ok G (Suc k) e \<Longrightarrow> \<exists>err. next_table G e = Inl err"
  using zero by (auto simp: slot_ok_def next_table_def)

lemma child_None: "slot_ok G (Suc k) (entry s (t, i)) \<Longrightarrow> child G s t i = None"
  using slot_no_child by (fastforce simp: child_def)

definition new_tabs :: "('p, 'h, 'z) pt_state_scheme \<Rightarrow> nat \<Rightarrow> 'p \<Rightarrow> usize set" where
  "new_tabs s m e = (case m of 0 \<Rightarrow> {}
     | Suc m' \<Rightarrow> (case next_table G e of Inl _ \<Rightarrow> {} | Inr n \<Rightarrow> tabs G s m' all_idx n))"

definition new_slot_ok :: "('p, 'h, 'z) pt_state_scheme \<Rightarrow> nat \<Rightarrow> 'p \<Rightarrow> bool" where
  "new_slot_ok s m e \<longleftrightarrow> slot_ok G m e \<or>
     (\<exists>m' n. m = Suc m' \<and> is_present (pg_pte G) e \<and> next_table G e = Inr n \<and> pt_wf G s m' all_idx n)"

lemma new_tabs_slot: "slot_ok G m e \<Longrightarrow> new_tabs s m e = {}"
  using slot_no_child by (fastforce simp: new_tabs_def split: nat.splits)

text \<open>The root of a sub-tree: exactly one slot of one table changes.\<close>

lemma replace_here:
  assumes wf: "pt_wf G s k I t" and i: "i \<in> I" "I \<subseteq> all_idx"
    and old: "slot_ok G k (entry s (t, i))"
    and upd: "pt_tables s' t = (pt_tables s t)[i := e]"
    and same: "\<And>v. v \<in> tabs G s k I t - {t} \<Longrightarrow> pt_tables s' v = pt_tables s v"
    and new: "new_slot_ok s' k e" "new_tabs s' k e \<inter> tabs G s k I t = {}"
  shows "pt_wf G s' k I t \<and> tabs G s' k I t = tabs G s k I t \<union> new_tabs s' k e \<and>
    (\<forall>q. length q = Suc k \<longrightarrow> idx_path I q \<longrightarrow>
       leaf_at G s' t q = (if hd q = i then leaf_slot G s' e (tl q) else leaf_at G s t q))"
proof -
  have len: "length (pt_tables s t) = 512" using wf by (cases k) auto
  have e: "entry s' (t, j) = (if j = i then e else entry s (t, j))" if "j \<in> I" for j
    using i len that upd by (auto simp: entry_def nth_list_update)
  show ?thesis
  proof (cases k)
    case 0
    have "leaf_at G s' t q = (if hd q = i then leaf_slot G s' e (tl q) else leaf_at G s t q)"
      if "length q = Suc k" "idx_path I q" for q
      using that 0 e by (cases q) (auto simp: leaf_at_slot leaf_slot_def)
    moreover have "slot_ok G 0 e" using new(1) 0 by (auto simp: new_slot_ok_def)
    ultimately show ?thesis using wf 0 upd e by (auto simp: new_tabs_def)
  next
    case (Suc k')
    have ci: "child G s t i = None" using old Suc child_None by simp
    have c: "child G s' t j = (if j = i then (case next_table G e of Inl _ \<Rightarrow> None | Inr n \<Rightarrow> Some n) else child G s t j)"
      if "j \<in> I" for j using e [OF that] by (simp add: child_def)
    have other: "\<And>v. v \<in> tabs G s k' all_idx a \<Longrightarrow> pt_tables s' v = pt_tables s v" "pt_wf G s k' all_idx a"
      "t \<notin> tabs G s k' all_idx a" if j: "j \<in> I" "child G s t j = Some a" for j a
    proof -
      show wfa: "pt_wf G s k' all_idx a" "t \<notin> tabs G s k' all_idx a"
        using wf j Suc child_None by fastforce+
      show "\<And>v. v \<in> tabs G s k' all_idx a \<Longrightarrow> pt_tables s' v = pt_tables s v"
        using same tabs_child [OF j(2,1), of k'] wfa(2) Suc by fastforce
    qed
    have tb: "tabs G s' k' all_idx a = tabs G s k' all_idx a" if "j \<in> I" "child G s t j = Some a" for j a
      by (rule tabs_cong) (rule other(1) [OF that])
    have nt: "new_tabs s' k e = (case next_table G e of Inl _ \<Rightarrow> {} | Inr n \<Rightarrow> tabs G s' k' all_idx n)"
      by (simp add: new_tabs_def Suc)
    have part: "(case child G s' t j of None \<Rightarrow> {} | Some n \<Rightarrow> tabs G s' k' all_idx n) =
        (case child G s t j of None \<Rightarrow> {} | Some n \<Rightarrow> tabs G s k' all_idx n) \<union> (if j = i then new_tabs s' k e else {})"
      if j: "j \<in> I" for j
      using tb [OF j] ci by (auto simp: c [OF j] nt split: sum.splits option.splits)
    have T: "tabs G s' k I t = tabs G s k I t \<union> new_tabs s' k e"
      unfolding Suc tabs.simps using i(1) by (auto simp: part Suc split: if_splits)
    have dis: "tabs G s' k' all_idx a \<inter> tabs G s' k' all_idx b = {}"
      if d: "j \<in> I" "l \<in> I" "j \<noteq> l" "child G s' t j = Some a" "child G s' t l = Some b" for j l a b
    proof -
      consider "j = i" "child G s t l = Some b" "tabs G s' k' all_idx a = new_tabs s' k e"
        | "l = i" "child G s t j = Some a" "tabs G s' k' all_idx b = new_tabs s' k e"
        | "child G s t j = Some a" "child G s t l = Some b"
        using d c [OF d(1)] c [OF d(2)] nt by (auto split: if_splits sum.splits)
      then show ?thesis
      proof cases
        case 1
        then show ?thesis using new(2) tabs_child [OF 1(2) d(2), of k'] tb [OF d(2) 1(2)] Suc by auto
      next
        case 2
        then show ?thesis using new(2) tabs_child [OF 2(2) d(1), of k'] tb [OF d(1) 2(2)] Suc by auto
      next
        case 3
        then show ?thesis using wf d Suc tb [OF d(1) 3(1)] tb [OF d(2) 3(2)] by simp
      qed
    qed
    have slot: "slot_ok G k (entry s' (t, j)) \<or> is_present (pg_pte G) (entry s' (t, j)) \<and>
        (\<exists>a. child G s' t j = Some a \<and> pt_wf G s' k' all_idx a \<and> t \<notin> tabs G s' k' all_idx a)" if j: "j \<in> I" for j
    proof (cases "j = i")
      case True
      show ?thesis
        using new root_tab [of t G s k I] nt c [OF j] e [OF j] True Suc
        by (auto simp: new_slot_ok_def)
    next
      case False
      show ?thesis
      proof (cases "child G s t j")
        case None
        then show ?thesis using wf j Suc e [OF j] False by fastforce
      next
        case (Some a)
        have "is_present (pg_pte G) (entry s (t, j))" using wf j Suc Some child_None by fastforce
        moreover have "pt_wf G s' k' all_idx a" by (rule pt_wf_cong [OF _ other(2) [OF j Some]]) (rule other(1) [OF j Some])
        ultimately show ?thesis using Some c [OF j] e [OF j] False other(3) [OF j Some] tb [OF j Some] by simp
      qed
    qed
    have "leaf_at G s' t q = (if hd q = i then leaf_slot G s' e (tl q) else leaf_at G s t q)"
      if q: "length q = Suc k" "idx_path I q" for q
    proof -
      obtain j r where jr: "q = j # r" "j \<in> I" "set r \<subseteq> all_idx" "length r = Suc k'" using q Suc by (cases q) auto
      have "leaf_at G s' a r = leaf_at G s a r" if a: "child G s t j = Some a" for a
        by (rule leaf_at_cong [OF other(1) [OF jr(2) a] jr(4) idx_path_all [OF jr(3)]])
      then show ?thesis
        using jr e [OF jr(2)] c [OF jr(2)]
        by (auto simp: leaf_at_slot leaf_slot_def child_def split: sum.splits if_splits)
    qed
    moreover have "pt_wf G s' k I t" using slot dis upd len by (simp add: Suc)
    ultimately show ?thesis using T by blast
  qed
qed

lemma wf_child:
  assumes "pt_wf G s (Suc k) I t" "j \<in> I" "child G s t j = Some a"
  shows "pt_wf G s k all_idx a" "t \<notin> tabs G s k all_idx a" "is_present (pg_pte G) (entry s (t, j))"
    "leaf_at G s t (j # r) = (if r = [] then leaf_slot G s (entry s (t, j)) [] else leaf_at G s a r)"
proof -
  have c: "\<not> slot_ok G (Suc k) (entry s (t, j))" using child_None [of k s t j] assms(3) by auto
  then show "pt_wf G s k all_idx a" "t \<notin> tabs G s k all_idx a" "is_present (pg_pte G) (entry s (t, j))"
    using assms by auto
  have "next_table G (entry s (t, j)) = Inr a" using assms(3) by (auto simp: child_def split: sum.splits)
  moreover from this have "\<not> is_huge (pg_pte G) (entry s (t, j))" by (auto simp: next_table_def split: if_splits)
  ultimately show "leaf_at G s t (j # r) = (if r = [] then leaf_slot G s (entry s (t, j)) [] else leaf_at G s a r)"
    by (simp add: leaf_at_slot leaf_slot_def)
qed

text \<open>One sub-tree changes, the rest of the tree does not.\<close>

lemma lift_child:
  assumes wf: "pt_wf G s (Suc k) I t" and j: "j \<in> I" "child G s t j = Some a"
    and same: "\<And>v. v \<in> tabs G s (Suc k) I t - tabs G s k all_idx a \<Longrightarrow> pt_tables s' v = pt_tables s v"
    and sub: "pt_wf G s' k all_idx a" "tabs G s' k all_idx a = tabs G s k all_idx a \<union> N"
      "N \<inter> tabs G s (Suc k) I t = {}"
  shows "pt_wf G s' (Suc k) I t \<and> tabs G s' (Suc k) I t = tabs G s (Suc k) I t \<union> N \<and>
    child G s' t j = Some a \<and>
    (\<forall>q. length q = Suc (Suc k) \<longrightarrow> idx_path I q \<longrightarrow>
       leaf_at G s' t q = (if hd q = j then leaf_at G s' a (tl q) else leaf_at G s t q))"
proof -
  have t: "pt_tables s' t = pt_tables s t" using same root_tab wf_child(2) [OF wf j] by blast
  have e: "entry s' (t, l) = entry s (t, l)" for l by (rule entry_cong [OF t])
  have c: "child G s' t l = child G s t l" for l by (rule child_cong [OF t])
  have other: "pt_tables s' v = pt_tables s v" if "l \<in> I" "l \<noteq> j" "child G s t l = Some b" "v \<in> tabs G s k all_idx b" for l b v
  proof -
    have "tabs G s k all_idx a \<inter> tabs G s k all_idx b = {}" using wf j that(1-3) by auto
    then show ?thesis using same tabs_child [OF that(3,1), of k] that(4) by blast
  qed
  have tb: "tabs G s' k all_idx b = tabs G s k all_idx b \<union> (if l = j then N else {})" if "l \<in> I" "child G s t l = Some b" for l b
    using that sub(2) j tabs_cong [OF other [OF that(1) _ that(2)]] by (cases "l = j") auto
  have wfb: "pt_wf G s' k all_idx b" if "l \<in> I" "child G s t l = Some b" for l b
    using that sub(1) j pt_wf_cong [OF other [OF that(1) _ that(2)] wf_child(1) [OF wf that]] by (cases "l = j") auto
  have part: "(case child G s' t l of None \<Rightarrow> {} | Some n \<Rightarrow> tabs G s' k all_idx n) =
      (case child G s t l of None \<Rightarrow> {} | Some n \<Rightarrow> tabs G s k all_idx n) \<union> (if l = j then N else {})" if "l \<in> I" for l
    using tb [OF that] j by (auto simp: c split: option.splits)
  have T: "tabs G s' (Suc k) I t = tabs G s (Suc k) I t \<union> N"
    unfolding tabs.simps using j(1) by (auto simp: part split: if_splits)
  have dis: "tabs G s' k all_idx b \<inter> tabs G s' k all_idx d = {}"
    if l: "l \<in> I" "m \<in> I" "l \<noteq> m" "child G s t l = Some b" "child G s t m = Some d" for l m b d
  proof -
    have "tabs G s k all_idx b \<inter> tabs G s k all_idx d = {}" using wf l by simp
    moreover have "N \<inter> tabs G s k all_idx b = {}" "N \<inter> tabs G s k all_idx d = {}"
      using sub(3) tabs_child [OF l(4,1), of k] tabs_child [OF l(5,2), of k] by blast+
    ultimately show ?thesis using l(3) by (auto simp: tb [OF l(1,4)] tb [OF l(2,5)])
  qed
  have slot: "slot_ok G (Suc k) (entry s' (t, l)) \<or> is_present (pg_pte G) (entry s' (t, l)) \<and>
      (\<exists>b. child G s' t l = Some b \<and> pt_wf G s' k all_idx b \<and> t \<notin> tabs G s' k all_idx b)" if l: "l \<in> I" for l
  proof (cases "child G s t l")
    case None
    then show ?thesis using wf l by (auto simp: e)
  next
    case (Some b)
    have "t \<notin> N" using sub(3) root_tab [of t G s "Suc k" I] by auto
    then show ?thesis using Some wf_child [OF wf l Some] wfb [OF l Some] by (auto simp: e c tb [OF l Some])
  qed
  have "leaf_at G s' t q = (if hd q = j then leaf_at G s' a (tl q) else leaf_at G s t q)"
    if q: "length q = Suc (Suc k)" "idx_path I q" for q
  proof -
    obtain l r where lr: "q = l # r" "l \<in> I" "set r \<subseteq> all_idx" "length r = Suc k" using q by (cases q) auto
    have wf': "pt_wf G s' (Suc k) I t" using slot dis t wf by (simp add: c)
    show ?thesis
    proof (cases "l = j")
      case True
      then show ?thesis using wf_child(4) [OF wf' j(1), of a r] j lr c [of j] by auto
    next
      case False
      have "leaf_at G s' b r = leaf_at G s b r" if b: "child G s t l = Some b" for b
        by (rule leaf_at_cong [OF other [OF lr(2) False b] lr(4) idx_path_all [OF lr(3)]])
      then show ?thesis using lr False by (auto simp: leaf_at.simps e c split: option.split)
    qed
  qed
  moreover have "pt_wf G s' (Suc k) I t" using slot dis t wf by (simp add: c)
  ultimately show ?thesis using T j(2) c by simp
qed

lemma go_tab: "go G s t p = Some u \<Longrightarrow> idx_path I p \<Longrightarrow> length p \<le> k \<Longrightarrow> u \<in> tabs G s k I t"
proof (induction p arbitrary: t k I)
  case (Cons j p)
  then obtain a k' where a: "child G s t j = Some a" "go G s a p = Some u" "k = Suc k'"
    by (cases k) (auto split: option.splits)
  have "u \<in> tabs G s k' all_idx a" using Cons a by (intro Cons.IH) (auto intro: idx_path_all)
  then show ?case using tabs_child [OF a(1), of I k'] Cons.prems(2) a(3) by auto
qed (simp add: root_tab)

lemma replace_along:
  assumes "pt_wf G s k I t" "I \<subseteq> all_idx" "go G s t p = Some u" "length p + m = k" "idx_path I (p @ [i])"
    and "slot_ok G m (entry s (u, i))" "pt_tables s' u = (pt_tables s u)[i := e]"
    and "\<And>v. v \<in> tabs G s k I t - {u} \<Longrightarrow> pt_tables s' v = pt_tables s v"
    and "new_slot_ok s' m e" "new_tabs s' m e \<inter> tabs G s k I t = {}"
  shows "pt_wf G s' k I t \<and> tabs G s' k I t = tabs G s k I t \<union> new_tabs s' m e \<and> go G s' t p = Some u \<and>
    (\<forall>q. length q = Suc k \<longrightarrow> idx_path I q \<longrightarrow>
       leaf_at G s' t q = (if take (Suc (length p)) q = p @ [i] then leaf_slot G s' e (drop (Suc (length p)) q)
         else leaf_at G s t q))"
  using assms
proof (induction p arbitrary: k I t)
  case Nil
  have ut: "u = t" "m = k" "i \<in> I" using Nil by auto
  have hd: "take (Suc 0) q = [i] \<longleftrightarrow> hd q = i" "drop (Suc 0) q = tl q" if "length q = Suc k" for q
    using that by (cases q; simp)+
  have R: "pt_wf G s' k I t \<and> tabs G s' k I t = tabs G s k I t \<union> new_tabs s' k e \<and>
    (\<forall>q. length q = Suc k \<longrightarrow> idx_path I q \<longrightarrow>
       leaf_at G s' t q = (if hd q = i then leaf_slot G s' e (tl q) else leaf_at G s t q))"
    using Nil.prems unfolding ut by (intro replace_here) simp_all
  then show ?case using hd by (simp add: ut)
next
  case (Cons j p)
  then obtain a k' where a: "child G s t j = Some a" "go G s a p = Some u" "k = Suc k'" "j \<in> I" "length p + m = k'"
    by (cases k) (auto split: option.splits)
  note wf = Cons.prems(1) [unfolded a(3)]
  have sub: "tabs G s k' all_idx a \<subseteq> tabs G s k I t" using tabs_child [OF a(1,4), of k'] a(3) by simp
  have p: "idx_path all_idx (p @ [i])" using Cons.prems(5) by (simp add: idx_path_all_iff)
  have IH: "pt_wf G s' k' all_idx a \<and> tabs G s' k' all_idx a = tabs G s k' all_idx a \<union> new_tabs s' m e \<and>
    go G s' a p = Some u \<and>
    (\<forall>q. length q = Suc k' \<longrightarrow> idx_path all_idx q \<longrightarrow>
       leaf_at G s' a q = (if take (Suc (length p)) q = p @ [i] then leaf_slot G s' e (drop (Suc (length p)) q)
         else leaf_at G s a q))"
    using Cons.prems(6-10) sub by (intro Cons.IH wf_child(1) [OF wf a(4,1)] a p) blast+
  have "u \<in> tabs G s k' all_idx a"
    using a(5) p by (intro go_tab [OF a(2)]) (simp_all add: idx_path_all_iff)
  then have "\<And>v. v \<in> tabs G s (Suc k') I t - tabs G s k' all_idx a \<Longrightarrow> pt_tables s' v = pt_tables s v"
    using Cons.prems(8) a(3) by blast
  note L = lift_child [OF wf a(4,1) this, of "new_tabs s' m e"]
  have L': "pt_wf G s' (Suc k') I t \<and> tabs G s' (Suc k') I t = tabs G s (Suc k') I t \<union> new_tabs s' m e \<and>
    child G s' t j = Some a \<and>
    (\<forall>q. length q = Suc (Suc k') \<longrightarrow> idx_path I q \<longrightarrow>
       leaf_at G s' t q = (if hd q = j then leaf_at G s' a (tl q) else leaf_at G s t q))"
    using L IH Cons.prems(10) a(3) by blast
  have "leaf_at G s' t q = (if take (Suc (length (j # p))) q = (j # p) @ [i] then leaf_slot G s' e (drop (Suc (length (j # p))) q)
         else leaf_at G s t q)" if q: "length q = Suc k" "idx_path I q" for q
  proof -
    obtain l r where lr: "q = l # r" "set r \<subseteq> all_idx" "length r = Suc k'" using q a(3) by (cases q) auto
    have "leaf_at G s t (j # r) = leaf_at G s a r" using wf_child(4) [OF wf a(4,1)] lr by auto
    moreover have "leaf_at G s' a r = (if take (Suc (length p)) r = p @ [i] then leaf_slot G s' e (drop (Suc (length p)) r)
         else leaf_at G s a r)" using IH lr idx_path_all by blast
    moreover have "leaf_at G s' t q = (if hd q = j then leaf_at G s' a (tl q) else leaf_at G s t q)"
      using L' q a(3) by blast
    ultimately show ?thesis using lr by auto
  qed
  then show ?case using L' IH a(3) by auto
qed

end

section \<open>Paths of addresses\<close>

primrec va_path :: "nat \<Rightarrow> usize \<Rightarrow> nat list" where
  "va_path 0 va = []"
| "va_path (Suc k) va = (va div 2 ^ (12 + 9 * k) mod 512) # va_path k va"

lemma length_va_path [simp]: "length (va_path k va) = k"
  by (induction k) simp_all

lemma set_va_path: "set (va_path k va) \<subseteq> all_idx"
  by (induction k) auto

lemma va_path_eq:
  "m \<le> k \<Longrightarrow> take (k - m) (va_path k x) = take (k - m) (va_path k y) \<longleftrightarrow>
    x mod 2 ^ (12 + 9 * k) div 2 ^ (12 + 9 * m) = y mod 2 ^ (12 + 9 * k) div 2 ^ (12 + 9 * m)"
proof (induction k)
  case (Suc k)
  show ?case
  proof (cases "m = Suc k")
    case False
    let ?B = "2 ^ (12 + 9 * k) :: nat" and ?D = "2 ^ (12 + 9 * m) :: nat"
    have mk: "m \<le> k" using Suc.prems False by simp
    define Q where "Q = (2 ^ (9 * (k - m)) :: nat)"
    have B: "?B = Q * ?D" using mk by (simp add: Q_def flip: power_add)
    have Qpos: "0 < Q" by (simp add: Q_def)
    have split: "z mod 2 ^ (12 + 9 * Suc k) div ?D = (z div ?B mod 512) * Q + z mod ?B div ?D" for z :: nat
    proof -
      have "z mod (?B * 512) = ?B * (z div ?B mod 512) + z mod ?B" by (rule mod_mult2_eq)
      also have "\<dots> = ?D * ((z div ?B mod 512) * Q) + z mod ?B" by (simp add: B)
      finally have "z mod (?B * 512) div ?D = (z div ?B mod 512) * Q + z mod ?B div ?D" by simp
      moreover have "2 ^ (12 + 9 * Suc k) = ?B * (512 :: nat)" by (simp add: power_add)
      ultimately show ?thesis by simp
    qed
    have lt: "z mod ?B div ?D < Q" for z :: nat
    proof -
      have "z mod ?B < Q * ?D" using B by (metis mod_less_divisor zero_less_numeral zero_less_power)
      then show ?thesis by (simp add: less_mult_imp_div_less)
    qed
    have comb: "a * Q + b = c * Q + d \<longleftrightarrow> a = c \<and> b = d" if "b < Q" "d < Q" for a b c d :: nat
    proof
      assume eq: "a * Q + b = c * Q + d"
      have "a = (a * Q + b) div Q" "b = (a * Q + b) mod Q" "c = (c * Q + d) div Q" "d = (c * Q + d) mod Q"
        using that Qpos by simp_all
      then show "a = c \<and> b = d" using eq by simp
    qed simp
    have "Suc k - m = Suc (k - m)" using mk by simp
    then have "take (Suc k - m) (va_path (Suc k) x) = take (Suc k - m) (va_path (Suc k) y) \<longleftrightarrow>
        x div ?B mod 512 = y div ?B mod 512 \<and> x mod ?B div ?D = y mod ?B div ?D"
      using Suc.IH [OF mk] by simp
    also have "\<dots> \<longleftrightarrow> (x div ?B mod 512) * Q + x mod ?B div ?D = (y div ?B mod 512) * Q + y mod ?B div ?D"
      using comb [OF lt lt] by blast
    also have "\<dots> \<longleftrightarrow> x mod 2 ^ (12 + 9 * Suc k) div ?D = y mod 2 ^ (12 + 9 * Suc k) div ?D"
      unfolding split ..
    finally show ?thesis .
  qed (simp add: mod_div_trivial)
qed simp

lemma same_page_path:
  assumes "m \<le> k" "x < 2 ^ (12 + 9 * k)" "y < 2 ^ (12 + 9 * k)"
  shows "take (k - m) (va_path k x) = take (k - m) (va_path k y) \<longleftrightarrow> x div 2 ^ (12 + 9 * m) = y div 2 ^ (12 + 9 * m)"
  using va_path_eq [OF assms(1), of x y] assms by simp

lemma p_index_eq:
  "p4_index va = va div 2 ^ (12 + 9 * 3) mod 512" "p3_index va = va div 2 ^ (12 + 9 * 2) mod 512"
  "p2_index va = va div 2 ^ (12 + 9 * 1) mod 512" "p1_index va = va div 2 ^ (12 + 9 * 0) mod 512"
proof -
  have m: "(511::nat) = mask 9" by (simp add: mask_eq_exp_minus_1)
  show "p4_index va = va div 2 ^ (12 + 9 * 3) mod 512" "p3_index va = va div 2 ^ (12 + 9 * 2) mod 512"
    "p2_index va = va div 2 ^ (12 + 9 * 1) mod 512" "p1_index va = va div 2 ^ (12 + 9 * 0) mod 512"
    by (simp_all add: p4_index_def p3_index_def p2_index_def p1_index_def ENTRY_COUNT_def m
        take_bit_eq_mask [symmetric] take_bit_eq_mod drop_bit_eq_div)
qed

lemma va_path_3: "va_path 3 va = [p3_index va, p2_index va, p1_index va]"
  by (simp add: numeral_3_eq_3 p_index_eq)

lemma va_path_4: "va_path 4 va = [p4_index va, p3_index va, p2_index va, p1_index va]"
proof -
  have "va_path (Suc 3) va = (va div 2 ^ (12 + 9 * 3) mod 512) # va_path 3 va" by (rule va_path.simps)
  then show ?thesis by (simp add: p_index_eq(1) va_path_3)
qed

section \<open>Finding and creating the slot of an address\<close>

fun find_slot :: "('p, 'h) paging \<Rightarrow> ('p, 'h, 'z) pt_state_scheme \<Rightarrow> usize \<Rightarrow> nat list \<Rightarrow> paging_error + (entry_ref \<times> nat)" where
  "find_slot G s t [] = Inl NotMapped"
| "find_slot G s t (i # is) =
     (if is = [] \<or> is_huge (pg_pte G) (entry s (t, i)) \<and> length is \<le> 2 then Inr ((t, i), length is)
      else rbind (next_table G (entry s (t, i))) (\<lambda>t'. find_slot G s t' is))"

fun make_slot ::
    "('p, 'h) paging \<Rightarrow> ('p, 'h, 'z) pt_state_scheme \<Rightarrow> usize \<Rightarrow> nat list \<Rightarrow> nat \<Rightarrow>
      ('p, 'h, 'z) pt_state_scheme \<times> (paging_error + entry_ref)" where
  "make_slot G s t [] m = (s, Inl NotMapped)"
| "make_slot G s t (i # is) m =
     (if length is = m then (s, Inr (t, i))
      else case next_table_mut_or_create G s (t, i) of
        (s', Inl err) \<Rightarrow> (s', Inl err)
      | (s', Inr t') \<Rightarrow> make_slot G s' t' is m)"

definition size_level :: "page_size \<Rightarrow> nat" where
  "size_level ps = (case ps of Size4K \<Rightarrow> 0 | Size2M \<Rightarrow> 1 | Size1G \<Rightarrow> 2)"

lemma leaf_size_level: "leaf_size k = Some ps \<longleftrightarrow> k = size_level ps"
  by (cases k rule: leaf_size.cases; cases ps) (simp_all add: size_level_def)

lemma page_bytes_level: "page_bytes ps = 2 ^ (12 + 9 * size_level ps)"
  by (cases ps) (simp_all add: page_bytes_def size_level_def)

lemma page_huge_level: "page_is_huge ps \<longleftrightarrow> 0 < size_level ps"
  by (cases ps) (simp_all add: page_is_huge_def size_level_def)

lemma size_level_le: "size_level ps \<le> 2"
  by (cases ps) (simp_all add: size_level_def)

definition level_size :: "nat \<Rightarrow> page_size" where
  "level_size k = the (leaf_size k)"

lemma level_size_simps [simp]: "level_size 0 = Size4K" "level_size (Suc 0) = Size2M" "level_size 2 = Size1G"
  "level_size (Suc (Suc 0)) = Size1G"
  by (simp_all add: level_size_def numeral_2_eq_2)

lemma level_size_level [simp]: "level_size (size_level ps) = ps"
  by (cases ps) (simp_all add: size_level_def)

lemma size_level_size: "k \<le> 2 \<Longrightarrow> size_level (level_size k) = k"
  by (cases k rule: leaf_size.cases) (simp_all add: level_size_def size_level_def)

context paging_laws
begin

lemma get_entry_find:
  "get_entry G s pt va = (case find_slot G s (root_paddr pt) (va_path (pg_levels G) va) of
     Inl err \<Rightarrow> Inl err | Inr (r, k) \<Rightarrow> Inr (r, level_size k))"
proof -
  have split: "(case rbind x f of Inl err \<Rightarrow> Inl err | Inr (r, k) \<Rightarrow> Inr (r, level_size k)) =
      rbind x (\<lambda>y. case f y of Inl err \<Rightarrow> Inl err | Inr (r, k) \<Rightarrow> Inr (r, level_size k))" for x f
    by (cases x) auto
  from levels show ?thesis
    by (elim disjE) (simp_all add: get_entry_def va_path_3 va_path_4 Let_def split if_distrib [of "\<lambda>x. case x of Inl err \<Rightarrow> Inl err | Inr (r, k) \<Rightarrow> Inr (r, level_size k)"] cong: if_cong)
qed

lemma get_entry_make:
  "get_entry_mut_or_create G s pt va ps = make_slot G s (root_paddr pt) (va_path (pg_levels G) va) (size_level ps)"
  using levels
  by (elim disjE; cases ps)
    (simp_all add: get_entry_mut_or_create_def va_path_3 va_path_4 Let_def size_level_def cong: sum.case_cong)

lemma find_slot_spec:
  "pt_wf G s k I t \<Longrightarrow> length q = Suc k \<Longrightarrow> idx_path I q \<Longrightarrow>
    (case find_slot G s t q of
       Inl err \<Rightarrow> leaf_at G s t q = None \<and> err = NotMapped
     | Inr (r, m) \<Rightarrow> \<exists>p i rest u. q = p @ i # rest \<and> length rest = m \<and> go G s t p = Some u \<and> r = (u, i) \<and>
         slot_ok G m (entry s r) \<and> m \<le> 2 \<and>
         leaf_at G s t q = (if is_present (pg_pte G) (entry s r) then Some (entry s r, m) else None))"
proof (induction q arbitrary: k I t)
  case (Cons i q)
  show ?case
  proof (cases "q = [] \<or> is_huge (pg_pte G) (entry s (t, i)) \<and> length q \<le> 2")
    case True
    have sl: "slot_ok G (length q) (entry s (t, i))"
    proof (cases k)
      case 0
      then show ?thesis using Cons.prems by simp
    next
      case (Suc k')
      have "is_huge (pg_pte G) (entry s (t, i))" using True Suc Cons.prems(2) by auto
      then have "child G s t i = None" by (simp add: child_def next_table_def)
      then show ?thesis using Cons.prems Suc by auto
    qed
    have "length q \<le> 2" using True by auto
    then have "\<exists>p j rest u. i # q = p @ j # rest \<and> length rest = length q \<and> go G s t p = Some u \<and> (t, i) = (u, j) \<and>
        slot_ok G (length q) (entry s (t, i)) \<and> length q \<le> 2 \<and>
        leaf_at G s t (i # q) = (if is_present (pg_pte G) (entry s (t, i)) then Some (entry s (t, i), length q) else None)"
      using True sl by (intro exI [of _ "[]"] exI [of _ i] exI [of _ q] exI [of _ t]) (simp add: leaf_at.simps)
    then show ?thesis using True by simp
  next
    case False
    obtain k' where k: "k = Suc k'" "length q = Suc k'" using Cons.prems(2) False by (cases k) auto
    show ?thesis
    proof (cases "child G s t i")
      case None
      then obtain err where "next_table G (entry s (t, i)) = Inl err" by (auto simp: child_def split: sum.splits)
      moreover have "slot_ok G (Suc k') (entry s (t, i))" using Cons.prems None k by auto
      then have "entry s (t, i) = pte_zero (pg_pte G)" using False k by (auto simp: slot_ok_def)
      ultimately have "next_table G (entry s (t, i)) = Inl NotMapped" using zero by (simp add: next_table_def)
      then show ?thesis using False None by (auto simp: leaf_at.simps)
    next
      case (Some a)
      have i: "i \<in> I" using Cons.prems(3) by simp
      have nt: "next_table G (entry s (t, i)) = Inr a" using Some by (auto simp: child_def split: sum.splits)
      note wc = wf_child [OF Cons.prems(1) [unfolded k(1)] i Some]
      note IH = Cons.IH [OF wc(1) k(2) idx_path_all]
      show ?thesis
      proof (cases "find_slot G s a q")
        case (Inl err)
        then show ?thesis using IH Cons.prems(3) False nt wc(4) by auto
      next
        case (Inr x)
        obtain r m where x: "x = (r, m)" by (cases x)
        from IH Inr x Cons.prems(3) obtain p j rest u where *: "q = p @ j # rest" "length rest = m" "go G s a p = Some u"
          "r = (u, j)" "slot_ok G m (entry s r)" "m \<le> 2"
          "leaf_at G s a q = (if is_present (pg_pte G) (entry s r) then Some (entry s r, m) else None)"
          by auto
        have fs: "find_slot G s t (i # q) = Inr (r, m)" using False nt Inr x by auto
        have "leaf_at G s t (i # q) = leaf_at G s a q" using wc(4) False by simp
        moreover have "go G s t (i # p) = Some u" using Some *(3) by simp
        ultimately have "\<exists>p' j' rest' u'. i # q = p' @ j' # rest' \<and> length rest' = m \<and> go G s t p' = Some u' \<and> r = (u', j') \<and>
            slot_ok G m (entry s r) \<and> m \<le> 2 \<and>
            leaf_at G s t (i # q) = (if is_present (pg_pte G) (entry s r) then Some (entry s r, m) else None)"
          using * by (intro exI [of _ "i # p"] exI [of _ j] exI [of _ rest] exI [of _ u]) simp
        then show ?thesis using fs by (simp del: find_slot.simps)
      qed
    qed
  qed
qed simp

text \<open>What every operation that only adds tables keeps. \<open>grows\<close>: the tree of \<open>t\<close> may gain freshly allocated
  tables; its leaves, and every table in use outside it, stay.\<close>

definition grows :: "nat \<Rightarrow> nat set \<Rightarrow> usize \<Rightarrow> ('p, 'h, 'z) pt_state_scheme \<Rightarrow> ('p, 'h, 'z) pt_state_scheme \<Rightarrow> bool" where
  "grows k I t s s' \<longleftrightarrow> pt_wf G s' k I t \<and> heap_inv (pt_heap s') \<and>
     tabs G s k I t \<subseteq> tabs G s' k I t \<and> (tabs G s' k I t - tabs G s k I t) \<inter> live (pt_heap s) = {} \<and>
     live (pt_heap s') = live (pt_heap s) \<union> (tabs G s' k I t - tabs G s k I t) \<and>
     (\<forall>v \<in> live (pt_heap s) - tabs G s k I t. pt_tables s' v = pt_tables s v) \<and>
     (\<forall>q. length q = Suc k \<longrightarrow> idx_path I q \<longrightarrow> leaf_at G s' t q = leaf_at G s t q) \<and>
     pt_state.more s' = pt_state.more s"

lemma grows_refl: "pt_wf G s k I t \<Longrightarrow> heap_inv (pt_heap s) \<Longrightarrow> grows k I t s s"
  by (simp add: grows_def)

lemma grows_trans:
  assumes a: "grows k I t s1 s2" and b: "grows k I t s2 s3" and c: "tabs G s1 k I t \<subseteq> live (pt_heap s1)"
  shows "grows k I t s1 s3"
proof -
  note a = a [unfolded grows_def] and b = b [unfolded grows_def]
  have "tabs G s1 k I t \<subseteq> tabs G s3 k I t" using a b by blast
  moreover have "(tabs G s3 k I t - tabs G s1 k I t) \<inter> live (pt_heap s1) = {}"
    using a b by auto
  moreover have "live (pt_heap s3) = live (pt_heap s1) \<union> (tabs G s3 k I t - tabs G s1 k I t)"
    using a b by auto
  moreover have "\<forall>v \<in> live (pt_heap s1) - tabs G s1 k I t. pt_tables s3 v = pt_tables s1 v"
  proof
    fix v assume v: "v \<in> live (pt_heap s1) - tabs G s1 k I t"
    then have "v \<in> live (pt_heap s2) - tabs G s2 k I t" using a by auto
    then show "pt_tables s3 v = pt_tables s1 v" using a b v by simp
  qed
  ultimately show ?thesis using a b unfolding grows_def by auto
qed

lemma go_append: "go G s t (p @ q) = Option.bind (go G s t p) (\<lambda>u. go G s u q)"
  by (induction p arbitrary: t) (auto split: option.split)

lemma leaf_at_go: "go G s t p = Some u \<Longrightarrow> leaf_at G s t (p @ i # rest) = leaf_slot G s (entry s (u, i)) rest"
proof (induction p arbitrary: t)
  case (Cons j p)
  then obtain a where a: "child G s t j = Some a" "go G s a p = Some u" by (auto split: option.splits)
  then have "\<not> is_huge (pg_pte G) (entry s (t, j))" by (auto simp: child_def next_table_def split: sum.splits if_splits)
  then show ?case using Cons.IH [OF a(2)] a(1) by (simp add: leaf_at.simps)
qed (simp add: leaf_at_slot)

lemma wf_go:
  "pt_wf G s k I t \<Longrightarrow> go G s t p = Some u \<Longrightarrow> length p + m = k \<Longrightarrow> idx_path I p \<Longrightarrow>
    pt_wf G s m (if p = [] then I else all_idx) u"
proof (induction p arbitrary: k I t)
  case (Cons j p)
  then obtain a k' where a: "child G s t j = Some a" "go G s a p = Some u" "k = Suc k'" "length p + m = k'" "j \<in> I"
    by (cases k) (auto split: option.splits)
  have "pt_wf G s m (if p = [] then all_idx else all_idx) u"
    using Cons.prems a wf_child(1) [OF Cons.prems(1) [unfolded a(3)] a(5,1)]
    by (intro Cons.IH [of k' all_idx a]) (auto simp: idx_path_all_iff)
  then show ?case by simp
qed simp

lemma wf_slot:
  "pt_wf G s (Suc m) J u \<Longrightarrow> i \<in> J \<Longrightarrow> child G s u i = None \<Longrightarrow> slot_ok G (Suc m) (entry s (u, i))"
  by auto

lemma fresh_table:
  assumes "pt_tables s a = replicate 512 (pte_zero (pg_pte G))"
  shows "pt_wf G s k all_idx a" "tabs G s k all_idx a = {a}"
    "set q \<subseteq> all_idx \<Longrightarrow> leaf_at G s a q = None"
proof -
  have e: "entry s (a, i) = pte_zero (pg_pte G)" if "i < 512" for i using assms that by (simp add: entry_def)
  have c: "child G s a i = None" if "i < 512" for i using e [OF that] zero by (simp add: child_def next_table_def)
  show "pt_wf G s k all_idx a" using assms e c by (cases k) (simp_all add: slot_ok_def)
  show "tabs G s k all_idx a = {a}" using c by (cases k) auto
  show "set q \<subseteq> all_idx \<Longrightarrow> leaf_at G s a q = None"
    using e c zero by (cases q) (simp_all add: leaf_at.simps)
qed

lemma same_tables:
  assumes "pt_tables s' = pt_tables s"
  shows "pt_wf G s' k I t = pt_wf G s k I t" "tabs G s' k I t = tabs G s k I t" "leaf_at G s' t q = leaf_at G s t q"
    "go G s' t q = go G s t q" "entry s' r = entry s r" "child G s' t i = child G s t i"
proof -
  have e: "entry s' r = entry s r" for r using assms by (simp add: entry_def)
  have c: "child G s' t i = child G s t i" for t i by (simp add: child_def e)
  show "entry s' r = entry s r" "child G s' t i = child G s t i" by (fact e, fact c)
  have T: "tabs G s' k I t = tabs G s k I t" for k I t by (rule tabs_cong) (simp add: assms)
  then show "tabs G s' k I t = tabs G s k I t" .
  show "pt_wf G s' k I t = pt_wf G s k I t" by (induction k arbitrary: I t) (simp_all add: e c T assms)
  show "leaf_at G s' t q = leaf_at G s t q" by (induction q arbitrary: t) (simp_all add: leaf_at.simps e c split: option.split)
  show "go G s' t q = go G s t q" by (induction q arbitrary: t) (simp_all add: c split: option.split)
qed

lemma create_table:
  assumes wf: "pt_wf G s k I t" and I: "I \<subseteq> all_idx" and h: "heap_inv (pt_heap s)" "tabs G s k I t \<subseteq> live (pt_heap s)"
    and go: "go G s t p = Some u" "length p + Suc m = k" "idx_path I (p @ [i])"
    and un: "is_unused (pg_pte G) (entry s (u, i))"
    and al: "alloc_table G s = (s1, Inr a)"
  defines "s' \<equiv> set_entry (u, i) (new_table (pg_pte G) a) s1"
  shows "grows k I t s s'" "go G s' t (p @ [i]) = Some a"
proof -
  let ?e = "new_table (pg_pte G) a" and ?z = "pte_zero (pg_pte G)"
  obtain h' where h': "pg_alloc G (pt_heap s) = (Some a, h')"
    and s1: "s1 = s\<lparr>pt_heap := h', pt_tables := (pt_tables s)(a := replicate 512 ?z)\<rparr>"
    using al by (auto simp: alloc_table_def ENTRY_COUNT_def split: prod.splits option.splits)
  note A = alloc_Some [OF h(1) h']
  note new = table [of a]
  have u: "u \<in> tabs G s k I t"
    using go idx_path_append(1) [OF go(3)] by (intro go_tab [OF go(1)]) simp_all
  have ua: "u \<noteq> a" using u h(2) A by blast
  have ez: "entry s (u, i) = ?z" using un zero by simp
  have nt: "next_table G ?e = Inr a" "is_present (pg_pte G) ?e" "\<not> is_huge (pg_pte G) ?e"
    using new A by (simp_all add: next_table_def)
  have tu: "pt_tables s' u = (pt_tables s u)[i := ?e]" using ua by (simp add: s'_def s1 set_entry_def)
  have ta: "pt_tables s' a = replicate 512 ?z" using ua by (simp add: s'_def s1 set_entry_def)
  have tv: "pt_tables s' v = pt_tables s v" if "v \<noteq> u" "v \<noteq> a" for v using that by (simp add: s'_def s1 set_entry_def)
  note fresh = fresh_table [OF ta]
  have nn: "new_tabs s' (Suc m) ?e = {a}" using nt fresh by (simp add: new_tabs_def)
  have R: "pt_wf G s' k I t \<and> tabs G s' k I t = tabs G s k I t \<union> new_tabs s' (Suc m) ?e \<and> go G s' t p = Some u \<and>
    (\<forall>q. length q = Suc k \<longrightarrow> idx_path I q \<longrightarrow>
       leaf_at G s' t q = (if take (Suc (length p)) q = p @ [i] then leaf_slot G s' ?e (drop (Suc (length p)) q)
         else leaf_at G s t q))"
  proof (rule replace_along [OF wf I go(1) _ go(3)])
    show "length p + Suc m = k" by (rule go(2))
    show "slot_ok G (Suc m) (entry s (u, i))" by (simp add: ez slot_ok_def)
    show "pt_tables s' v = pt_tables s v" if "v \<in> tabs G s k I t - {u}" for v
      using that h(2) A by (intro tv) auto
    show "new_slot_ok s' (Suc m) ?e" using nt fresh by (simp add: new_slot_ok_def)
    show "new_tabs s' (Suc m) ?e \<inter> tabs G s k I t = {}" using nn h(2) A by auto
  qed (rule tu)
  have same: "leaf_at G s' t q = leaf_at G s t q" if q: "length q = Suc k" "idx_path I q" for q
  proof (cases "take (Suc (length p)) q = p @ [i]")
    case True
    define rest where "rest = drop (Suc (length p)) q"
    have qr: "q = p @ i # rest" using append_take_drop_id [of "Suc (length p)" q] True by (simp add: rest_def)
    have lr: "length rest = Suc m" using q(1) go(2) by (simp add: rest_def)
    have sr: "set rest \<subseteq> all_idx" using q(2) qr by (cases p) auto
    have "leaf_at G s t q = None"
      unfolding qr leaf_at_go [OF go(1)] using ez zero lr by (auto simp: leaf_slot_def next_table_def)
    moreover have "leaf_slot G s' ?e rest = None" using nt lr fresh(3) [OF sr] by (auto simp: leaf_slot_def)
    ultimately show ?thesis using R q True by (simp add: rest_def)
  qed (use R q in simp)
  have heap: "pt_heap s' = h'" "pt_state.more s' = pt_state.more s" by (simp_all add: s'_def s1 set_entry_def)
  have T: "tabs G s' k I t = insert a (tabs G s k I t)" using R nn by simp
  moreover have "a \<notin> tabs G s k I t" "a \<notin> live (pt_heap s)" using A h(2) by blast+
  moreover have "pt_tables s' v = pt_tables s v" if "v \<in> live (pt_heap s) - tabs G s k I t" for v
    using that u A by (intro tv) auto
  ultimately show "grows k I t s s'"
    unfolding grows_def using R same heap A by auto
  have "child G s' u i = Some a"
  proof -
    have "length (pt_tables s u) = 512" using wf_go [OF wf go(1,2) idx_path_append(1) [OF go(3)]] by simp
    moreover have "i < 512" using go(3) I by (cases p) auto
    ultimately show ?thesis using nt tu by (simp add: child_def entry_def)
  qed
  then show "go G s' t (p @ [i]) = Some a" using R by (simp add: go_append)
qed

lemma create_step:
  assumes wf: "pt_wf G s k I t" and I: "I \<subseteq> all_idx" and h: "heap_inv (pt_heap s)" "tabs G s k I t \<subseteq> live (pt_heap s)"
    and go: "go G s t p = Some u" "length p + Suc m = k" "idx_path I (p @ [i])"
    and st: "next_table_mut_or_create G s (u, i) = (s', r)"
  shows "grows k I t s s'"
    and "case r of Inl err \<Rightarrow> err = PtNoMemory \<or>
           slot_ok G (Suc m) (entry s (u, i)) \<and> \<not> is_unused (pg_pte G) (entry s (u, i)) \<and> s' = s
      | Inr a \<Rightarrow> go G s' t (p @ [i]) = Some a"
proof -
  have "grows k I t s s' \<and> (case r of Inl err \<Rightarrow> err = PtNoMemory \<or>
           slot_ok G (Suc m) (entry s (u, i)) \<and> \<not> is_unused (pg_pte G) (entry s (u, i)) \<and> s' = s
      | Inr a \<Rightarrow> go G s' t (p @ [i]) = Some a)"
  proof (cases "is_unused (pg_pte G) (entry s (u, i))")
    case True
    obtain s1 x where al: "alloc_table G s = (s1, x)" by (cases "alloc_table G s")
    show ?thesis
    proof (cases x)
      case (Inl err)
      obtain h' where "pg_alloc G (pt_heap s) = (None, h')" "s1 = s\<lparr>pt_heap := h'\<rparr>" "err = PtNoMemory"
        using al Inl by (auto simp: alloc_table_def split: prod.splits option.splits)
      moreover have "s' = s1" "r = Inl err" using st True al Inl by (simp_all add: next_table_mut_or_create_def)
      ultimately show ?thesis
        using alloc_None [OF h(1), of h'] wf same_tables [of s1 s] by (auto simp: grows_def)
    next
      case (Inr a)
      then have "s' = set_entry (u, i) (new_table (pg_pte G) a) s1" "r = Inr a"
        using st True al by (simp_all add: next_table_mut_or_create_def)
      then show ?thesis using create_table [OF wf I h go True al [unfolded Inr]] by simp
    qed
  next
    case False
    then have s': "s' = s" "r = next_table G (entry s (u, i))" using st by (auto simp: next_table_mut_or_create_def)
    note ij = idx_path_append(2) [OF go(3)] idx_path_append(1) [OF go(3)]
    note wu = wf_go [OF wf go(1,2) ij(2)]
    show ?thesis
    proof (cases "next_table G (entry s (u, i))")
      case (Inl err)
      then have "child G s u i = None" by (simp add: child_def)
      then show ?thesis using wf_slot [OF wu ij(1)] s' Inl False grows_refl [OF wf h(1)] by simp
    next
      case (Inr a)
      then have "child G s u i = Some a" by (simp add: child_def)
      then show ?thesis using s' Inr go(1) grows_refl [OF wf h(1)] by (simp add: go_append)
    qed
  qed
  then show "grows k I t s s'" "case r of Inl err \<Rightarrow> err = PtNoMemory \<or>
           slot_ok G (Suc m) (entry s (u, i)) \<and> \<not> is_unused (pg_pte G) (entry s (u, i)) \<and> s' = s
      | Inr a \<Rightarrow> go G s' t (p @ [i]) = Some a" by blast+
qed

text \<open>\<open>get_entry_mut_or_create\<close> fails only for lack of memory or when a larger page covers the address.\<close>

lemma make_slot_spec:
  "pt_wf G s k I t \<Longrightarrow> I \<subseteq> all_idx \<Longrightarrow> heap_inv (pt_heap s) \<Longrightarrow> tabs G s k I t \<subseteq> live (pt_heap s) \<Longrightarrow>
    go G s t p = Some u \<Longrightarrow> length p + length q = Suc k \<Longrightarrow> m < length q \<Longrightarrow> idx_path I (p @ q) \<Longrightarrow>
    make_slot G s u q m = (s', r) \<Longrightarrow>
    grows k I t s s' \<and>
    (case r of Inl err \<Rightarrow> err = PtNoMemory \<or>
         (\<exists>e n. leaf_at G s t (p @ q) = Some (e, n) \<and> m < n) \<and> (err = MappedToHugePage \<or> err = NotMapped)
     | Inr (v, i) \<Rightarrow> \<exists>p' rest. p @ q = p' @ i # rest \<and> length rest = m \<and> go G s' t p' = Some v)"
proof (induction q arbitrary: s p u)
  case (Cons i q)
  show ?case
  proof (cases "length q = m")
    case True
    then have "s' = s" "r = Inr (u, i)" using Cons.prems(9) by auto
    then show ?thesis using Cons.prems True grows_refl by auto
  next
    case False
    then obtain m' where m': "length q = Suc m'" "m \<le> m'" using Cons.prems(7) by (cases "length q") auto
    obtain s1 x where st: "next_table_mut_or_create G s (u, i) = (s1, x)" by (cases "next_table_mut_or_create G s (u, i)")
    have len: "length p + Suc m' = k" using Cons.prems(6) m' by simp
    have ip: "idx_path I (p @ [i])" using Cons.prems(8) by (cases p) auto
    note C = create_step [OF Cons.prems(1-5) len ip st]
    show ?thesis
    proof (cases x)
      case (Inl err)
      then have r: "s' = s1" "r = Inl err" using Cons.prems(9) False st by auto
      have "err = PtNoMemory \<or>
         (\<exists>e n. leaf_at G s t (p @ i # q) = Some (e, n) \<and> m < n) \<and> (err = MappedToHugePage \<or> err = NotMapped)"
      proof (cases "err = PtNoMemory")
        case no: False
        then have sl: "slot_ok G (Suc m') (entry s (u, i))" "\<not> is_unused (pg_pte G) (entry s (u, i))" using C(2) Inl by auto
        then have e: "is_present (pg_pte G) (entry s (u, i))" "is_huge (pg_pte G) (entry s (u, i))" "Suc m' \<le> 2"
          using zero by (auto simp: slot_ok_def)
        have "leaf_at G s t (p @ i # q) = Some (entry s (u, i), Suc m')"
          using e m' by (simp add: leaf_at_go [OF Cons.prems(5)] leaf_slot_def)
        moreover have "err = MappedToHugePage \<or> err = NotMapped"
          using st Inl sl by (auto simp: next_table_mut_or_create_def next_table_def split: if_splits)
        ultimately show ?thesis using m' by auto
      qed simp
      then show ?thesis using r C(1) by simp
    next
      case (Inr a)
      have mk: "make_slot G s1 a q m = (s', r)" using Cons.prems(9) False st Inr by auto
      note g = C(1) [unfolded grows_def]
      have live: "tabs G s1 k I t \<subseteq> live (pt_heap s1)" using g Cons.prems(4) by blast
      have "grows k I t s1 s' \<and>
        (case r of Inl err \<Rightarrow> err = PtNoMemory \<or>
           (\<exists>e n. leaf_at G s1 t ((p @ [i]) @ q) = Some (e, n) \<and> m < n) \<and> (err = MappedToHugePage \<or> err = NotMapped)
         | Inr (v, j) \<Rightarrow> \<exists>p' rest. (p @ [i]) @ q = p' @ j # rest \<and> length rest = m \<and> go G s' t p' = Some v)"
        using g Cons.prems(2,6,8) m' C(2) Inr len
        by (intro Cons.IH [OF _ _ _ live _ _ _ _ mk]) auto
      moreover have "leaf_at G s1 t (p @ i # q) = leaf_at G s t (p @ i # q)"
        using g Cons.prems(6,8) by auto
      ultimately show ?thesis
        using grows_trans [OF C(1) _ Cons.prems(4)] by (cases r) simp_all
    qed
  qed
qed simp

end

section \<open>The abstract page map\<close>

text \<open>
  What a page table promises: a partial function from addresses to the frame, the flags and the size of the page that covers them.
  \<open>owned\<close> are the addresses whose root entry is not borrowed from another table. \<open>pt_becomes\<close>: the new state
  is a valid page table with the page map \<open>V\<close>, it may have gained freshly allocated tables, and
  no other table in use has changed.
\<close>

type_synonym page_map = "usize \<Rightarrow> (usize \<times> mapping_flags \<times> page_size) option"

definition pt_tabs :: "('p, 'h) paging \<Rightarrow> ('p, 'h, 'z) pt_state_scheme \<Rightarrow> page_table \<Rightarrow> usize set" where
  "pt_tabs G s pt = tabs G s (pg_levels G - 1) (all_idx - borrowed pt) (root_paddr pt)"

definition pt_valid ::
    "('p, 'h) paging \<Rightarrow> ('h \<Rightarrow> bool) \<Rightarrow> ('h \<Rightarrow> usize set) \<Rightarrow> ('p, 'h, 'z) pt_state_scheme \<Rightarrow> page_table \<Rightarrow> bool" where
  "pt_valid G hi lv s pt \<longleftrightarrow> pt_wf G s (pg_levels G - 1) (all_idx - borrowed pt) (root_paddr pt) \<and>
     hi (pt_heap s) \<and> pt_tabs G s pt \<subseteq> lv (pt_heap s)"

definition owned :: "('p, 'h) paging \<Rightarrow> page_table \<Rightarrow> usize \<Rightarrow> bool" where
  "owned G pt va \<longleftrightarrow> va < 2 ^ pg_va_bits G \<and> va div 2 ^ (pg_va_bits G - 9) \<notin> borrowed pt"

definition pt_leaf :: "('p, 'h) paging \<Rightarrow> ('p, 'h, 'z) pt_state_scheme \<Rightarrow> page_table \<Rightarrow> usize \<Rightarrow> ('p \<times> nat) option" where
  "pt_leaf G s pt va = leaf_at G s (root_paddr pt) (va_path (pg_levels G) va)"

definition pte_view :: "('p, 'h) paging \<Rightarrow> 'p \<times> nat \<Rightarrow> usize \<times> mapping_flags \<times> page_size" where
  "pte_view G x = (pte_paddr (pg_pte G) (fst x), pte_flags_of (pg_pte G) (fst x), level_size (snd x))"

definition page_view :: "('p, 'h) paging \<Rightarrow> ('p, 'h, 'z) pt_state_scheme \<Rightarrow> page_table \<Rightarrow> page_map" where
  "page_view G s pt va = map_option (pte_view G) (pt_leaf G s pt va)"

definition same_page :: "page_size \<Rightarrow> usize \<Rightarrow> usize \<Rightarrow> bool" where
  "same_page ps va va' \<longleftrightarrow> va div page_bytes ps = va' div page_bytes ps"

definition set_page :: "page_size \<Rightarrow> usize \<Rightarrow> (usize \<times> mapping_flags \<times> page_size) option \<Rightarrow> page_map \<Rightarrow> page_map" where
  "set_page ps va x V = (\<lambda>va'. if same_page ps va va' then x else V va')"

definition pt_becomes ::
    "('p, 'h) paging \<Rightarrow> ('h \<Rightarrow> bool) \<Rightarrow> ('h \<Rightarrow> usize set) \<Rightarrow> ('p, 'h, 'z) pt_state_scheme \<Rightarrow> ('p, 'h, 'z) pt_state_scheme \<Rightarrow>
      page_table \<Rightarrow> page_map \<Rightarrow> bool" where
  "pt_becomes G hi lv s s' pt V \<longleftrightarrow> pt_valid G hi lv s' pt \<and> pt_tabs G s pt \<subseteq> pt_tabs G s' pt \<and>
     (pt_tabs G s' pt - pt_tabs G s pt) \<inter> lv (pt_heap s) = {} \<and>
     lv (pt_heap s') = lv (pt_heap s) \<union> (pt_tabs G s' pt - pt_tabs G s pt) \<and>
     (\<forall>v \<in> lv (pt_heap s) - pt_tabs G s pt. pt_tables s' v = pt_tables s v) \<and>
     pt_state.more s' = pt_state.more s \<and>
     (\<forall>va. owned G pt va \<longrightarrow> page_view G s' pt va = V va)"

context paging_laws
begin

lemma owned_path:
  assumes "owned G pt va"
  shows "idx_path (all_idx - borrowed pt) (va_path (pg_levels G) va)"
proof -
  obtain k where k: "pg_levels G = Suc k" using levels by (cases "pg_levels G") auto
  have "va div 2 ^ (12 + 9 * k) < 512"
    using assms va_bits k by (simp add: owned_def less_mult_imp_div_less power_add)
  then show ?thesis using assms set_va_path [of k va] va_bits k by (simp add: owned_def)
qed

lemma levels_Suc: "Suc (pg_levels G - Suc 0) = pg_levels G"
  using levels by auto

lemma pt_becomes_grows:
  assumes v: "pt_valid G heap_inv live s pt"
    and g: "grows (pg_levels G - 1) (all_idx - borrowed pt) (root_paddr pt) s s'"
  shows "pt_becomes G heap_inv live s s' pt (page_view G s pt)" "owned G pt va \<Longrightarrow> pt_leaf G s' pt va = pt_leaf G s pt va"
proof -
  have leaf: "pt_leaf G s' pt va = pt_leaf G s pt va" if "owned G pt va" for va
    using g owned_path [OF that] levels_Suc by (simp add: grows_def pt_leaf_def)
  then show "owned G pt va \<Longrightarrow> pt_leaf G s' pt va = pt_leaf G s pt va" .
  show "pt_becomes G heap_inv live s s' pt (page_view G s pt)"
    using g v leaf unfolding grows_def pt_becomes_def pt_valid_def pt_tabs_def page_view_def
    by (elim conjE) (intro conjI, auto)
qed

lemma pt_becomes_refl: "pt_valid G heap_inv live s pt \<Longrightarrow> pt_becomes G heap_inv live s s pt (page_view G s pt)"
  by (rule pt_becomes_grows(1)) (auto simp: pt_valid_def intro: grows_refl)

lemma pt_becomes_trans:
  assumes a: "pt_becomes G heap_inv live s1 s2 pt V" and b: "pt_becomes G heap_inv live s2 s3 pt W"
  shows "pt_becomes G heap_inv live s1 s3 pt W"
proof -
  note a = a [unfolded pt_becomes_def] and b = b [unfolded pt_becomes_def]
  have "pt_tables s3 w = pt_tables s1 w" if "w \<in> live (pt_heap s1) - pt_tabs G s1 pt" for w
  proof -
    have "w \<in> live (pt_heap s2) - pt_tabs G s2 pt" using a that by auto
    then show ?thesis using a b that by simp
  qed
  moreover have "pt_tabs G s1 pt \<subseteq> pt_tabs G s3 pt" using a b by blast
  moreover have "(pt_tabs G s3 pt - pt_tabs G s1 pt) \<inter> live (pt_heap s1) = {}" using a b by auto
  moreover have "live (pt_heap s3) = live (pt_heap s1) \<union> (pt_tabs G s3 pt - pt_tabs G s1 pt)" using a b by auto
  ultimately show ?thesis unfolding pt_becomes_def using a b by simp
qed

lemma pt_becomes_cong:
  "pt_becomes G heap_inv live s s' pt V \<Longrightarrow> (\<And>va. owned G pt va \<Longrightarrow> V va = W va) \<Longrightarrow> pt_becomes G heap_inv live s s' pt W"
  by (simp add: pt_becomes_def)

text \<open>Writing the slot of an address: exactly the page it stands for changes.\<close>

lemma write_slot:
  assumes v: "pt_valid G heap_inv live s pt" and o: "owned G pt va"
    and q: "va_path (pg_levels G) va = p @ i # rest" "length rest = m" "m \<le> 2"
    and go: "go G s (root_paddr pt) p = Some u"
    and old: "slot_ok G m (entry s (u, i))" and new: "slot_ok G m e"
  shows "pt_becomes G heap_inv live s (set_entry (u, i) e s) pt
    (set_page (level_size m) va (if is_present (pg_pte G) e then Some (pte_view G (e, m)) else None) (page_view G s pt))"
    (is "pt_becomes _ _ _ _ ?s' _ ?V")
proof -
  let ?k = "pg_levels G - 1" and ?I = "all_idx - borrowed pt" and ?t = "root_paddr pt"
  have len: "length p + m = ?k" using arg_cong [OF q(1), of length] q(2) by simp
  have ip: "idx_path ?I (p @ [i])" using owned_path [OF o] q(1) by (cases p) auto
  have wf: "pt_wf G s ?k ?I ?t" using v by (simp add: pt_valid_def)
  have nt: "new_tabs ?s' m e = {}" by (rule new_tabs_slot [OF new])
  have u: "u \<in> tabs G s ?k ?I ?t" using len idx_path_append(1) [OF ip] by (intro go_tab [OF go]) simp_all
  have R: "pt_wf G ?s' ?k ?I ?t \<and> tabs G ?s' ?k ?I ?t = tabs G s ?k ?I ?t \<union> new_tabs ?s' m e \<and> go G ?s' ?t p = Some u \<and>
    (\<forall>q. length q = Suc ?k \<longrightarrow> idx_path ?I q \<longrightarrow>
       leaf_at G ?s' ?t q = (if take (Suc (length p)) q = p @ [i] then leaf_slot G ?s' e (drop (Suc (length p)) q)
         else leaf_at G s ?t q))"
    using new nt by (intro replace_along wf go len ip old) (auto simp: set_entry_def new_slot_ok_def)
  have view: "page_view G ?s' pt va' = ?V va'" if o': "owned G pt va'" for va'
  proof -
    let ?q = "va_path (pg_levels G) va'"
    have lp: "Suc (length p) = pg_levels G - m" using len levels_Suc by simp
    have tk: "take (pg_levels G - m) (va_path (pg_levels G) va) = p @ [i]" unfolding lp [symmetric] by (simp add: q(1))
    have "take (Suc (length p)) ?q = p @ [i] \<longleftrightarrow> same_page (level_size m) va va'"
      using same_page_path [of m "pg_levels G" va va'] o o' va_bits len
      unfolding lp owned_def same_page_def page_bytes_level size_level_size [OF q(3)] tk by auto
    moreover have "leaf_slot G ?s' e (drop (Suc (length p)) ?q) = (if is_present (pg_pte G) e then Some (e, m) else None)"
    proof -
      have "length (drop (Suc (length p)) ?q) = m" using lp len levels_Suc by simp
      then show ?thesis
        using new q(3) zero by (cases "drop (Suc (length p)) ?q") (auto simp: leaf_slot_def slot_ok_def next_table_def)
    qed
    ultimately show ?thesis
      using R owned_path [OF o'] levels_Suc by (simp add: page_view_def pt_leaf_def set_page_def)
  qed
  have "pt_tabs G ?s' pt = pt_tabs G s pt" using R nt by (simp add: pt_tabs_def)
  then show ?thesis
    using R v view u unfolding pt_becomes_def pt_valid_def pt_tabs_def by (auto simp: set_entry_def)
qed

text \<open>The slot \<open>get_entry\<close> finds.\<close>

lemma get_entry_cases:
  assumes v: "pt_valid G heap_inv live s pt" and o: "owned G pt va"
  obtains "get_entry G s pt va = Inl NotMapped" "page_view G s pt va = None"
  | p i rest u where "get_entry G s pt va = Inr ((u, i), level_size (length rest))" "va_path (pg_levels G) va = p @ i # rest"
      "length rest \<le> 2" "go G s (root_paddr pt) p = Some u" "slot_ok G (length rest) (entry s (u, i))"
      "page_view G s pt va = (if is_present (pg_pte G) (entry s (u, i)) then Some (pte_view G (entry s (u, i), length rest)) else None)"
proof -
  let ?q = "va_path (pg_levels G) va"
  have wf: "pt_wf G s (pg_levels G - 1) (all_idx - borrowed pt) (root_paddr pt)" using v by (simp add: pt_valid_def)
  have len: "length ?q = Suc (pg_levels G - 1)" using levels_Suc by simp
  note F = find_slot_spec [OF wf len owned_path [OF o]]
  show thesis
  proof (cases "find_slot G s (root_paddr pt) ?q")
    case (Inl err)
    then show thesis using F by (intro that(1)) (auto simp: get_entry_find page_view_def pt_leaf_def)
  next
    case (Inr x)
    obtain r m where x: "x = (r, m)" by (cases x)
    from F Inr x obtain p i rest u where "?q = p @ i # rest" "length rest = m" "go G s (root_paddr pt) p = Some u" "r = (u, i)"
      "slot_ok G m (entry s r)" "m \<le> 2"
      "leaf_at G s (root_paddr pt) ?q = (if is_present (pg_pte G) (entry s r) then Some (entry s r, m) else None)"
      by auto
    then show thesis using Inr x
      by (intro that(2) [of u i rest p]) (auto simp: get_entry_find page_view_def pt_leaf_def)
  qed
qed

lemma query_spec:
  assumes "pt_valid G heap_inv live s pt" "owned G pt va"
  shows "case page_view G s pt va of
      None \<Rightarrow> pt_query G s pt va = Inl NotMapped
    | Some (pa, fl, ps) \<Rightarrow> pt_query G s pt va = Inr (usize_add pa (va mod page_bytes ps), fl, ps)"
proof -
  have off: "align_offset (pg_addr G) va (page_bytes ps) = va mod page_bytes ps" for ps
    by (simp add: page_bytes_level align_offset)
  from assms show ?thesis
    by (cases rule: get_entry_cases) (auto simp: pt_query_def Let_def pte_view_def off)
qed

lemma unmap_spec:
  assumes v: "pt_valid G heap_inv live s pt" and o: "owned G pt va" and st: "pt_unmap G s pt va = (s', r)"
  shows "case page_view G s pt va of
      None \<Rightarrow> r = Inl NotMapped \<and>
        pt_becomes G heap_inv live s s' pt (page_view G s pt)
    | Some (pa, fl, ps) \<Rightarrow> r = Inr (pa, ps) \<and> pt_becomes G heap_inv live s s' pt (set_page ps va None (page_view G s pt))"
  using v o
proof (cases rule: get_entry_cases)
  case 1
  then show ?thesis using st pt_becomes_refl [OF v] by (auto simp: pt_unmap_def)
next
  case (2 p i rest u)
  let ?e = "entry s (u, i)"
  have s': "s' = set_entry (u, i) (pte_zero (pg_pte G)) s" using st 2(1) zero by (auto simp: pt_unmap_def Let_def split: if_splits)
  note W = write_slot [OF v o 2(2) refl 2(3-5), of "pte_zero (pg_pte G)"]
  show ?thesis
  proof (cases "is_present (pg_pte G) ?e")
    case True
    then show ?thesis using W 2 s' st zero by (simp add: pt_unmap_def Let_def pte_view_def slot_ok_def)
  next
    case False
    then have "?e = pte_zero (pg_pte G)" using 2(5) by (auto simp: slot_ok_def)
    then have "s' = s" using s' by (simp add: set_entry_same)
    then show ?thesis using False pt_becomes_refl [OF v] 2 st by (auto simp: pt_unmap_def Let_def)
  qed
qed

lemma protect_spec:
  assumes v: "pt_valid G heap_inv live s pt" and o: "owned G pt va" and fl: "leaf_ok flags"
  shows "\<exists>s' r. pt_protect G s pt va flags = Some (s', r) \<and>
    (case page_view G s pt va of
      None \<Rightarrow> s' = s \<and> r = Inl NotMapped
    | Some (pa, fl, ps) \<Rightarrow> r = Inr ps \<and>
        pt_becomes G heap_inv live s s' pt (set_page ps va (Some (pa, stored flags, ps)) (page_view G s pt)))"
  using v o
proof (cases rule: get_entry_cases)
  case 1
  then show ?thesis by (auto simp: pt_protect_def)
next
  case (2 p i rest u)
  let ?e = "entry s (u, i)" and ?ps = "level_size (length rest)"
  obtain e' where e': "set_flags (pg_pte G) ?e flags (page_is_huge ?ps) = Some e'" "pte_paddr (pg_pte G) e' = pte_paddr (pg_pte G) ?e"
    "pte_flags_of (pg_pte G) e' = stored flags" "is_present (pg_pte G) e'" "page_is_huge ?ps \<longrightarrow> is_huge (pg_pte G) e'"
    using update [OF fl] by blast
  have "slot_ok G (length rest) e'" using e' 2(3) by (auto simp: slot_ok_def page_huge_level size_level_size)
  note W = write_slot [OF v o 2(2) refl 2(3-5) this]
  show ?thesis using W 2 e' by (auto simp: pt_protect_def pte_view_def)
qed

text \<open>\<open>remap\<close> does not check that the page is present: on an empty slot it creates a mapping.\<close>

lemma remap_spec:
  assumes v: "pt_valid G heap_inv live s pt" and o: "owned G pt va" and fl: "leaf_ok flags" and pa: "frame_addr pa_bits pa"
  shows "\<exists>s' r. pt_remap G s pt va pa flags = Some (s', r) \<and>
    (case r of
      Inl err \<Rightarrow> s' = s \<and> page_view G s pt va = None \<and> err = NotMapped
    | Inr ps \<Rightarrow> (\<forall>pa' fl' ps'. page_view G s pt va = Some (pa', fl', ps') \<longrightarrow> ps' = ps) \<and>
        pt_becomes G heap_inv live s s' pt (set_page ps va (Some (pa, stored flags, ps)) (page_view G s pt)))"
  using v o
proof (cases rule: get_entry_cases)
  case 1
  then show ?thesis by (auto simp: pt_remap_def)
next
  case (2 p i rest u)
  let ?e = "set_paddr (pg_pte G) (entry s (u, i)) pa" and ?ps = "level_size (length rest)"
  obtain e' where e': "set_flags (pg_pte G) ?e flags (page_is_huge ?ps) = Some e'" "pte_paddr (pg_pte G) e' = pa"
    "pte_flags_of (pg_pte G) e' = stored flags" "is_present (pg_pte G) e'" "page_is_huge ?ps \<longrightarrow> is_huge (pg_pte G) e'"
    using update [OF fl] move [OF pa] by metis
  have "slot_ok G (length rest) e'" using e' 2(3) by (auto simp: slot_ok_def page_huge_level size_level_size)
  note W = write_slot [OF v o 2(2) refl 2(3-5) this]
  show ?thesis using W 2 e' by (auto simp: pt_remap_def pte_view_def)
qed

lemma frame_align_down:
  assumes "target < 2 ^ pa_bits"
  shows "frame_addr pa_bits (align_down (pg_addr G) target (page_bytes ps))"
proof -
  have "(4096::nat) dvd 2 ^ (12 + 9 * size_level ps)" by (simp add: power_add)
  moreover have "(2::nat) ^ (12 + 9 * size_level ps) dvd target - target mod 2 ^ (12 + 9 * size_level ps)"
    by (simp add: minus_mod_eq_mult_div)
  ultimately have "4096 dvd target - target mod 2 ^ (12 + 9 * size_level ps)" by (rule dvd_trans)
  then show ?thesis using assms by (auto simp: frame_addr_def page_bytes_level align_down mod_eq_0_iff_dvd)
qed

text \<open>Mapping fails for lack of memory, under a larger page, or when the slot is taken; nothing mapped is lost then.\<close>

lemma map_spec:
  assumes v: "pt_valid G heap_inv live s pt" and o: "owned G pt va" and fl: "leaf_ok flags" and pa: "target < 2 ^ pa_bits"
  shows "\<exists>s' r. pt_map G s pt va target ps flags = Some (s', r) \<and>
    (case r of
      Inl err \<Rightarrow> pt_becomes G heap_inv live s s' pt (page_view G s pt) \<and>
        (ps = Size4K \<longrightarrow> err = PtNoMemory \<or> page_view G s pt va \<noteq> None)
    | Inr _ \<Rightarrow> (\<forall>va'. owned G pt va' \<longrightarrow> same_page ps va va' \<longrightarrow> page_view G s pt va' = None) \<and>
        pt_becomes G heap_inv live s s' pt
          (set_page ps va (Some (align_down (pg_addr G) target (page_bytes ps), stored flags, ps)) (page_view G s pt)))"
proof -
  let ?k = "pg_levels G - 1" and ?I = "all_idx - borrowed pt" and ?t = "root_paddr pt" and ?q = "va_path (pg_levels G) va"
  let ?m = "size_level ps" and ?pa = "align_down (pg_addr G) target (page_bytes ps)"
  obtain s1 x where mk: "make_slot G s ?t ?q ?m = (s1, x)" by (cases "make_slot G s ?t ?q ?m")
  have wf: "pt_wf G s ?k ?I ?t" "heap_inv (pt_heap s)" "tabs G s ?k ?I ?t \<subseteq> live (pt_heap s)"
    using v by (simp_all add: pt_valid_def pt_tabs_def)
  have m: "?m < length ?q" using levels size_level_le [of ps] by auto
  have S: "grows ?k ?I ?t s s1 \<and> (case x of
       Inl err \<Rightarrow> err = PtNoMemory \<or> (\<exists>e n. leaf_at G s ?t ([] @ ?q) = Some (e, n) \<and> ?m < n) \<and>
         (err = MappedToHugePage \<or> err = NotMapped)
     | Inr (w, i) \<Rightarrow> \<exists>p' rest. [] @ ?q = p' @ i # rest \<and> length rest = ?m \<and> go G s1 ?t p' = Some w)"
    using wf m owned_path [OF o] levels_Suc by (intro make_slot_spec [OF _ _ _ _ _ _ _ _ mk]) auto
  note P = pt_becomes_grows [OF v conjunct1 [OF S]]
  note ge = get_entry_make [of s pt va ps, unfolded mk]
  show ?thesis
  proof (cases x)
    case (Inl err)
    then show ?thesis using P(1) S ge by (auto simp: pt_map_def page_view_def pt_leaf_def)
  next
    case (Inr y)
    then obtain w i p rest where y: "y = (w, i)" "?q = p @ i # rest" "length rest = ?m" "go G s1 ?t p = Some w"
      using S by (cases y) auto
    have v1: "pt_valid G heap_inv live s1 pt" using P(1) by (simp add: pt_becomes_def)
    show ?thesis
    proof (cases "is_unused (pg_pte G) (entry s1 (w, i))")
      case True
      then have z: "entry s1 (w, i) = pte_zero (pg_pte G)" using zero by simp
      obtain e where e: "new_page (pg_pte G) ?pa flags (page_is_huge ps) = Some e" "pte_paddr (pg_pte G) e = ?pa"
        "pte_flags_of (pg_pte G) e = stored flags" "is_present (pg_pte G) e" "page_is_huge ps \<longrightarrow> is_huge (pg_pte G) e"
        using page [OF frame_align_down [OF pa] fl] by blast
      have ok: "slot_ok G ?m (entry s1 (w, i))" "slot_ok G ?m e"
        using z e size_level_le [of ps] by (auto simp: slot_ok_def page_huge_level)
      note W = write_slot [OF v1 o y(2,3) size_level_le y(4) ok]
      have none: "page_view G s pt va' = None" if o': "owned G pt va'" and sp: "same_page ps va va'" for va'
      proof -
        have "set_page ps va None (page_view G s1 pt) va' = None" using sp by (simp add: set_page_def)
        moreover have "pt_becomes G heap_inv live s1 (set_entry (w, i) (pte_zero (pg_pte G)) s1) pt (set_page ps va None (page_view G s1 pt))"
          using write_slot [OF v1 o y(2,3) size_level_le y(4) ok(1), of "pte_zero (pg_pte G)"] zero by (simp add: slot_ok_def)
        moreover have "set_entry (w, i) (pte_zero (pg_pte G)) s1 = s1"
          by (rule set_entry_same [OF z])
        moreover have "page_view G s1 pt va' = page_view G s pt va'" using P(1) o' by (simp add: pt_becomes_def)
        ultimately show ?thesis using o' by (simp add: pt_becomes_def)
      qed
      have "pt_becomes G heap_inv live s1 (set_entry (w, i) e s1) pt (set_page ps va (Some (?pa, stored flags, ps)) (page_view G s pt))"
        using W e P(1) by (elim pt_becomes_cong) (auto simp: pte_view_def set_page_def pt_becomes_def)
      then show ?thesis
        using pt_becomes_trans [OF P(1)] none True ge Inr y(1) e(1) by (auto simp: pt_map_def)
    next
      case False
      have "page_view G s pt va \<noteq> None" if "ps = Size4K"
      proof -
        have r0: "rest = []" using that y(3) by (simp add: size_level_def)
        have len: "length p = ?k" using arg_cong [OF y(2), of length] r0 levels_Suc by simp
        have "is_present (pg_pte G) (entry s1 (w, i))"
        proof -
          have "pt_wf G s1 0 (if p = [] then ?I else all_idx) w"
            using v1 y(2,4) r0 owned_path [OF o] len
            by (intro wf_go [of s1 ?k ?I ?t p w 0]) (auto simp: pt_valid_def idx_path_append(1))
          moreover have "i \<in> (if p = [] then ?I else all_idx)" using owned_path [OF o] y(2) r0 idx_path_append(2) by metis
          ultimately have "slot_ok G 0 (entry s1 (w, i))" by simp
          then show ?thesis using False zero by (auto simp: slot_ok_def)
        qed
        then have "pt_leaf G s1 pt va \<noteq> None" using y(2,4) r0 by (simp add: pt_leaf_def leaf_at_go leaf_slot_def)
        then show ?thesis using P(2) [OF o] by (simp add: page_view_def)
      qed
      then show ?thesis using P(1) False ge Inr y(1) by (auto simp: pt_map_def)
    qed
  qed
qed

end

section \<open>Dropping a page table\<close>

context paging_laws
begin

definition below :: "('p, 'h, 'z) pt_state_scheme \<Rightarrow> nat \<Rightarrow> usize \<Rightarrow> nat \<Rightarrow> usize set" where
  "below s k t i = (case child G s t i of None \<Rightarrow> {} | Some a \<Rightarrow> tabs G s k all_idx a)"

lemma tabs_below: "tabs G s (Suc k) I t = insert t (\<Union>i\<in>I. below s k t i)"
  by (simp add: below_def)

lemma dealloc_list:
  assumes tree: "\<And>a h. pt_wf G s k all_idx a \<Longrightarrow> heap_inv h \<Longrightarrow> tabs G s k all_idx a \<subseteq> live h \<Longrightarrow>
      \<exists>h'. dealloc_tree G s k a h = Some h' \<and> heap_inv h' \<and> live h' = live h - tabs G s k all_idx a"
    and wf: "pt_wf G s (Suc k) I t"
  shows "distinct L \<Longrightarrow> set L \<subseteq> I \<Longrightarrow> heap_inv h \<Longrightarrow> (\<Union>i\<in>set L. below s k t i) \<subseteq> live h \<Longrightarrow>
    \<exists>h'. dealloc_tables G (dealloc_tree G s k) (map (\<lambda>i. entry s (t, i)) L) h = Some h' \<and> heap_inv h' \<and>
      live h' = live h - (\<Union>i\<in>set L. below s k t i)"
proof (induction L arbitrary: h)
  case (Cons i L)
  have "\<exists>h1. (case next_table G (entry s (t, i)) of Inr _ \<Rightarrow> dealloc_tree G s k (pte_paddr (pg_pte G) (entry s (t, i))) h | Inl _ \<Rightarrow> Some h) = Some h1 \<and>
      heap_inv h1 \<and> live h1 = live h - below s k t i"
  proof (cases "child G s t i")
    case None
    then show ?thesis using Cons.prems by (auto simp: below_def child_def split: sum.splits)
  next
    case (Some a)
    then have "next_table G (entry s (t, i)) = Inr a" "pte_paddr (pg_pte G) (entry s (t, i)) = a"
      by (auto simp: child_def next_table_def split: sum.splits if_splits)
    moreover have "pt_wf G s k all_idx a" using wf_child(1) [OF wf _ Some] Cons.prems(2) by simp
    ultimately show ?thesis using tree [of a h] Cons.prems Some by (auto simp: below_def)
  qed
  then obtain h1 where h1: "(case next_table G (entry s (t, i)) of Inr _ \<Rightarrow> dealloc_tree G s k (pte_paddr (pg_pte G) (entry s (t, i))) h | Inl _ \<Rightarrow> Some h) = Some h1"
    "heap_inv h1" "live h1 = live h - below s k t i" by blast
  have dis: "below s k t i \<inter> below s k t j = {}" if "j \<in> set L" for j
  proof -
    have "i \<noteq> j" "i \<in> I" "j \<in> I" using that Cons.prems(1,2) by auto
    then show ?thesis using wf by (auto simp: below_def split: option.splits)
  qed
  have "\<exists>h'. dealloc_tables G (dealloc_tree G s k) (map (\<lambda>i. entry s (t, i)) L) h1 = Some h' \<and> heap_inv h' \<and>
      live h' = live h1 - (\<Union>i\<in>set L. below s k t i)"
    using Cons.prems h1 dis by (intro Cons.IH) auto
  then show ?case using h1 by auto
qed simp

lemma map_entries: "length (pt_tables s t) = 512 \<Longrightarrow> map (\<lambda>i. entry s (t, i)) [0..<512] = pt_tables s t"
  by (intro nth_equalityI) (simp_all add: entry_def)

lemma dealloc_tree_spec:
  "pt_wf G s k all_idx a \<Longrightarrow> heap_inv h \<Longrightarrow> tabs G s k all_idx a \<subseteq> live h \<Longrightarrow>
    \<exists>h'. dealloc_tree G s k a h = Some h' \<and> heap_inv h' \<and> live h' = live h - tabs G s k all_idx a"
proof (induction k arbitrary: a h)
  case 0
  then show ?case using dealloc [of h a] by simp
next
  case (Suc k)
  have len: "length (pt_tables s a) = 512" using Suc.prems(1) by simp
  have "\<exists>h1. dealloc_tables G (dealloc_tree G s k) (map (\<lambda>i. entry s (a, i)) [0..<512]) h = Some h1 \<and> heap_inv h1 \<and>
      live h1 = live h - (\<Union>i\<in>set [0..<512]. below s k a i)"
    using Suc.prems(2,3) by (intro dealloc_list [OF Suc.IH Suc.prems(1)]) (simp_all add: tabs_below atLeast0LessThan SUP_le_iff del: tabs.simps)
  then obtain h1 where h1: "dealloc_tables G (dealloc_tree G s k) (pt_tables s a) h = Some h1" "heap_inv h1"
    "live h1 = live h - (\<Union>i\<in>all_idx. below s k a i)"
    by (auto simp: atLeast0LessThan map_entries [OF len])
  have "a \<notin> (\<Union>i\<in>all_idx. below s k a i)"
    using wf_child(2) [OF Suc.prems(1)] by (auto simp: below_def split: option.splits)
  then have "a \<in> live h1" using h1 Suc.prems(3) by (auto simp: tabs_below simp del: tabs.simps)
  then obtain h2 where h2: "pg_dealloc G a h1 = Some h2" "heap_inv h2" "live h2 = live h1 - {a}" using dealloc [OF h1(2)] by blast
  have "live h2 = live h - tabs G s (Suc k) all_idx a" unfolding tabs_below h2(3) h1(3) by blast
  then show ?case using h1(1) h2 by (simp del: tabs.simps)
qed

text \<open>Dropping a page table frees each table of its own exactly once and no borrowed one.\<close>

lemma drop_spec:
  assumes v: "pt_valid G heap_inv live s pt"
  shows "\<exists>h'. pt_drop G s pt = Some h' \<and> heap_inv h' \<and> live h' = live (pt_heap s) - pt_tabs G s pt"
proof -
  obtain k where k: "pg_levels G - 1 = Suc k" "pg_levels G - 2 = k" using levels by auto
  let ?I = "all_idx - borrowed pt" and ?t = "root_paddr pt" and ?L = "filter (\<lambda>i. i \<notin> borrowed pt) [0..<512]"
  have wf: "pt_wf G s (Suc k) ?I ?t" and h: "heap_inv (pt_heap s)" and l: "pt_tabs G s pt \<subseteq> live (pt_heap s)"
    using v k by (simp_all add: pt_valid_def)
  have T: "pt_tabs G s pt = insert ?t (\<Union>i\<in>?I. below s k ?t i)" unfolding pt_tabs_def k(1) by (rule tabs_below)
  have sL: "set ?L = ?I" by auto
  have "map snd (filter (\<lambda>(i, e). i \<notin> borrowed pt) (enumerate 0 (map (\<lambda>i. entry s (?t, i)) [0..<512]))) = map (\<lambda>i. entry s (?t, i)) ?L"
    by (simp add: enumerate_map_upt filter_map comp_def)
  then have es: "map snd (filter (\<lambda>(i, e). i \<notin> borrowed pt) (enumerate 0 (pt_tables s ?t))) = map (\<lambda>i. entry s (?t, i)) ?L"
    using wf map_entries [of s ?t] by simp
  obtain h1 where h1: "dealloc_tables G (dealloc_tree G s k) (map (\<lambda>i. entry s (?t, i)) ?L) (pt_heap s) = Some h1" "heap_inv h1"
    "live h1 = live (pt_heap s) - (\<Union>i\<in>?I. below s k ?t i)"
    using dealloc_list [OF dealloc_tree_spec wf, of ?L "pt_heap s"] h l T sL by auto
  have "?t \<notin> (\<Union>i\<in>?I. below s k ?t i)"
    using wf_child(2) [OF wf] by (auto simp: below_def split: option.splits)
  then have "?t \<in> live h1" using h1 l T by auto
  then obtain h2 where h2: "pg_dealloc G ?t h1 = Some h2" "heap_inv h2" "live h2 = live h1 - {?t}" using dealloc [OF h1(2)] by blast
  have "live h2 = live (pt_heap s) - pt_tabs G s pt" unfolding T h2(3) h1(3) by blast
  then show ?thesis using h1(1) h2 by (simp add: pt_drop_def k es)
qed

text \<open>A new page table is one fresh table that maps nothing.\<close>

lemma try_new_spec:
  assumes h: "heap_inv (pt_heap s)" and st: "pt_try_new G s = (s', r)"
  shows "case r of Inl err \<Rightarrow> err = PtNoMemory \<and> heap_inv (pt_heap s') \<and> live (pt_heap s') = live (pt_heap s) \<and> pt_tables s' = pt_tables s
    | Inr pt \<Rightarrow> pt_valid G heap_inv live s' pt \<and> borrowed pt = {} \<and> pt_tabs G s' pt = {root_paddr pt} \<and>
        root_paddr pt \<notin> live (pt_heap s) \<and> live (pt_heap s') = insert (root_paddr pt) (live (pt_heap s)) \<and>
        (\<forall>v \<in> live (pt_heap s). pt_tables s' v = pt_tables s v) \<and> page_view G s' pt va = None"
proof (cases "pg_alloc G (pt_heap s)")
  case (Pair x h')
  show ?thesis
  proof (cases x)
    case None
    then show ?thesis using alloc_None [OF h, of h'] st Pair by (auto simp: pt_try_new_def alloc_table_def)
  next
    case (Some a)
    note A = alloc_Some [OF h Pair [unfolded Some]]
    have s': "s' = s\<lparr>pt_heap := h', pt_tables := (pt_tables s)(a := replicate 512 (pte_zero (pg_pte G)))\<rparr>"
      "r = Inr \<lparr>root_paddr = a, borrowed = {}\<rparr>"
      using st Pair Some by (auto simp: pt_try_new_def alloc_table_def ENTRY_COUNT_def)
    then have t: "pt_tables s' a = replicate 512 (pte_zero (pg_pte G))" by simp
    show ?thesis using fresh_table [OF t] s' A set_va_path [of "pg_levels G" va]
      by (auto simp: pt_valid_def pt_tabs_def page_view_def pt_leaf_def)
  qed
qed

end

end
