(* ===== verification/Page_Map.thy ===== *)
theory Page_Map
  imports Page_Table
begin

text \<open>
  What the operations of the page table mean for its page map: the walk over the leaves of a range visits
  exactly the mapped pages of the range in ascending order, and copying root entries shares the
  sub-tables of another page table. The theory ends with the RISC-V and LoongArch instances the kernel builds and with
  the properties of the page table.
\<close>

section \<open>Spans and prefixes\<close>

abbreviation span :: "nat \<Rightarrow> nat" where
  "span k \<equiv> 2 ^ (12 + 9 * k)"

lemma span_Suc: "span (Suc k) = 512 * span k"
  by (simp add: power_add)

lemma span_dvd: "m \<le> k \<Longrightarrow> span m dvd span k"
  by (intro le_imp_power_dvd) simp

lemma or_push_bit:
  fixes P i :: nat
  assumes P: "2 ^ (n + m) dvd P" and i: "i < 2 ^ m"
  shows "P OR push_bit n i = P + i * 2 ^ n"
proof -
  obtain Q where Q: "P = push_bit (n + m) Q" using P by (auto simp: push_bit_eq_mult elim: dvdE)
  have "\<not> bit i j" if "m \<le> j" for j
  proof -
    have "i < 2 ^ j" using i power_increasing [OF that, of "2::nat"] by (rule order.strict_trans2) simp
    then show ?thesis by (simp add: bit_iff_odd)
  qed
  then have "\<not> (bit P j \<and> bit (push_bit n i) j)" for j
    by (auto simp: Q bit_push_bit_iff)
  then have "P AND push_bit n i = 0" by (intro bit_eqI) (simp add: bit_and_iff)
  then show ?thesis using disjunctive_add_eq_or [of P "push_bit n i"] by (simp add: push_bit_eq_mult)
qed

lemma div_iff:
  fixes d :: nat
  assumes "0 < d"
  shows "va div d = q \<longleftrightarrow> q * d \<le> va \<and> va < q * d + d"
proof
  assume "va div d = q"
  then show "q * d \<le> va \<and> va < q * d + d"
    using div_mult_mod_eq [of va d] mod_less_divisor [OF assms, of va] by auto
next
  assume "q * d \<le> va \<and> va < q * d + d"
  then show "va div d = q" by (intro div_nat_eqI) (simp_all add: mult.commute)
qed

lemma digit_iff: "w = 512 * q + i \<and> i < 512 \<longleftrightarrow> w div 512 = q \<and> w mod 512 = i" for w q i :: nat
  by auto

lemma div_span:
  assumes "span (Suc k) dvd P"
  shows "P + i * span k \<le> va \<and> va < P + i * span k + span k \<and> i < 512 \<longleftrightarrow>
    P \<le> va \<and> va < P + span (Suc k) \<and> va div span k mod 512 = i"
proof -
  define D where "D = span k"
  have pos: "0 < D" "0 < 512 * D" by (simp_all add: D_def)
  obtain Q where Q: "P = 512 * D * Q" using assms unfolding span_Suc D_def by (elim dvdE)
  have "P + i * D \<le> va \<and> va < P + i * D + D \<and> i < 512 \<longleftrightarrow> va div D = 512 * Q + i \<and> i < 512"
    unfolding div_iff [OF pos(1)] Q by (simp add: algebra_simps)
  also have "\<dots> \<longleftrightarrow> va div D div 512 = Q \<and> va div D mod 512 = i" by (rule digit_iff)
  also have "va div D div 512 = va div (512 * D)" by (simp add: mult.commute flip: div_mult2_eq)
  also have "va div (512 * D) = Q \<and> va div D mod 512 = i \<longleftrightarrow> P \<le> va \<and> va < P + 512 * D \<and> va div D mod 512 = i"
    unfolding div_iff [OF pos(2)] Q by (auto simp: algebra_simps)
  finally show ?thesis unfolding span_Suc D_def [symmetric] .
qed

lemma aligned_below:
  assumes "d dvd va" "d dvd e" "va < e"
  shows "va + d \<le> (e::nat)"
proof -
  obtain a where a: "va = d * a" using assms(1) by (elim dvdE)
  obtain b where b: "e = d * b" using assms(2) by (elim dvdE)
  have "a < b" using assms(3) a b by (cases "b \<le> a") (auto simp: not_le dest: mult_le_mono2 [of b a d])
  then have "d * (a + 1) \<le> d * b" by (intro mult_le_mono2) simp
  then show ?thesis using a b by simp
qed

lemma entry_fits:
  assumes "i < 512" "P + span (Suc k) \<le> B"
  shows "P + i * span k + span k \<le> B"
proof -
  define D where "D = span k"
  have "(i + 1) * D \<le> 512 * D" using assms(1) by (intro mult_le_mono1) simp
  moreover have "(i + 1) * D = i * D + D" by simp
  ultimately have "P + i * D + D \<le> B" using assms(2) unfolding span_Suc D_def [symmetric] by linarith
  then show ?thesis by (simp only: D_def)
qed

section \<open>Walking the leaves\<close>

lemma walk_entries_concat:
  "(\<And>i. i < length es \<Longrightarrow> f (n + i) (es ! i) = (vs (n + i), Inr ())) \<Longrightarrow>
    walk_entries f n es = (concat (map vs [n..<n + length es]), Inr ())"
proof (induction es arbitrary: n)
  case (Cons e es)
  have "walk_entries f (Suc n) es = (concat (map vs [Suc n..<Suc n + length es]), Inr ())"
    using Cons.prems [of "Suc i" for i] by (intro Cons.IH) simp
  moreover have "f n e = (vs n, Inr ())" using Cons.prems [of 0] by simp
  moreover have "[n..<n + length (e # es)] = n # [Suc n..<Suc n + length es]" by (subst upt_conv_Cons) simp_all
  ultimately show ?case by (simp add: then_visit_def)
qed simp

definition before :: "leaf_visit \<Rightarrow> leaf_visit \<Rightarrow> bool" where
  "before x y \<longleftrightarrow> fst x + page_bytes (snd (snd (snd x))) \<le> fst y"

lemma sorted_concat:
  "(\<And>i. i < n \<Longrightarrow> sorted_wrt before (vs i)) \<Longrightarrow>
   (\<And>i x. i < n \<Longrightarrow> x \<in> set (vs i) \<Longrightarrow> R i \<le> fst x \<and> fst x + page_bytes (snd (snd (snd x))) \<le> R (Suc i)) \<Longrightarrow>
   (\<And>i. R i \<le> R (Suc i)) \<Longrightarrow> sorted_wrt before (concat (map vs [0..<n]))"
proof (induction n)
  case (Suc n)
  have mono: "R i \<le> R j" if "i \<le> j" for i j using that Suc.prems(3) by (rule lift_Suc_mono_le [of R, rotated])
  have "before x y" if "i < n" "x \<in> set (vs i)" "y \<in> set (vs n)" for i x y
    using Suc.prems(2) [of i x] Suc.prems(2) [of n y] that mono [of "Suc i" n] by (simp add: before_def)
  then show ?case using Suc by (auto simp: sorted_wrt_append)
qed simp

context paging_laws
begin

text \<open>The visits a table, or one entry of it, owes the walk: the pages of its span that meet the range.\<close>

definition visits ::
    "usize \<Rightarrow> usize \<Rightarrow> usize \<Rightarrow> usize \<Rightarrow> (usize \<Rightarrow> ('p \<times> nat) option) \<Rightarrow> leaf_visit set" where
  "visits lo hi from till L = {(va, pa, fl, ps). from \<le> va \<and> va < till \<and> va mod page_bytes ps = 0 \<and>
     map_option (pte_view G) (L va) = Some (pa, fl, ps) \<and> lo < va + page_bytes ps \<and> va < hi}"

lemma leaf_at_level: "leaf_at G s t q = Some (e, m) \<Longrightarrow> m < length q \<and> m \<le> 2"
  by (induction q arbitrary: t) (auto simp: leaf_at.simps less_Suc_eq split: if_splits option.splits)

lemma leaf_slot_level: "leaf_slot G s e q = Some (x, m) \<Longrightarrow> m \<le> length q \<and> m \<le> 2"
  by (auto simp: leaf_slot_def split: if_splits sum.splits dest: leaf_at_level)

lemma level_bytes: "m \<le> 2 \<Longrightarrow> page_bytes (level_size m) = span m"
  by (simp add: page_bytes_level size_level_size)

lemma visits_within:
  assumes "x \<in> visits lo hi R (R + span k) (\<lambda>va. leaf_slot G s e (va_path k va))" "span k dvd R"
  shows "R \<le> fst x \<and> fst x + page_bytes (snd (snd (snd x))) \<le> R + span k"
proof -
  obtain va pa fl ps y m where x: "x = (va, pa, fl, ps)" "R \<le> va" "va < R + span k" "va mod page_bytes ps = 0"
    "leaf_slot G s e (va_path k va) = Some (y, m)" "ps = level_size m"
    using assms(1) by (auto simp: visits_def pte_view_def)
  have m: "m \<le> k" "m \<le> 2" using leaf_slot_level [OF x(5)] by simp_all
  have "span m dvd va" using x(4,6) m by (simp add: level_bytes mod_eq_0_iff_dvd)
  moreover have "span m dvd R + span k" using span_dvd [OF m(1)] assms(2) by (meson dvd_add dvd_trans)
  ultimately show ?thesis using aligned_below [of "span m" va "R + span k"] x m by (simp add: level_bytes)
qed

lemma visits_table:
  assumes "span (Suc k) dvd P"
  shows "visits lo hi P (P + span (Suc k)) (\<lambda>va. leaf_at G s t (va_path (Suc k) va)) =
    (\<Union>i<512. visits lo hi (P + i * span k) (P + i * span k + span k) (\<lambda>va. leaf_slot G s (entry s (t, i)) (va_path k va)))"
proof (rule set_eqI)
  fix x :: leaf_visit
  obtain va pa fl ps where x: "x = (va, pa, fl, ps)" by (cases x)
  let ?in = "\<lambda>i. va mod page_bytes ps = 0 \<and> map_option (pte_view G) (leaf_slot G s (entry s (t, i)) (va_path k va)) = Some (pa, fl, ps) \<and>
    lo < va + page_bytes ps \<and> va < hi"
  have "x \<in> (\<Union>i<512. visits lo hi (P + i * span k) (P + i * span k + span k) (\<lambda>va. leaf_slot G s (entry s (t, i)) (va_path k va))) \<longleftrightarrow>
      (\<exists>i. (P + i * span k \<le> va \<and> va < P + i * span k + span k \<and> i < 512) \<and> ?in i)"
    by (auto simp: x visits_def)
  also have "\<dots> \<longleftrightarrow> P \<le> va \<and> va < P + span (Suc k) \<and> ?in (va div span k mod 512)"
    unfolding div_span [OF assms] by auto
  finally show "x \<in> visits lo hi P (P + span (Suc k)) (\<lambda>va. leaf_at G s t (va_path (Suc k) va)) \<longleftrightarrow>
      x \<in> (\<Union>i<512. visits lo hi (P + i * span k) (P + i * span k + span k) (\<lambda>va. leaf_slot G s (entry s (t, i)) (va_path k va)))"
    by (simp add: x visits_def leaf_at_slot)
qed

lemma canonical:
  assumes "raw < 2 ^ pg_va_bits G"
  shows "raw < 2 ^ (pg_va_bits G - 1) \<Longrightarrow> canonicalize_vaddr G raw = raw"
    and "2 ^ (pg_va_bits G - 1) \<le> raw \<Longrightarrow> 2 ^ (pg_va_bits G - 1) \<le> canonicalize_vaddr G raw"
proof -
  have vb: "0 < pg_va_bits G" "pg_va_bits G \<le> 64" using va_bits levels by auto
  have top: "raw AND 2 ^ (pg_va_bits G - 1) = 0 \<longleftrightarrow> raw < 2 ^ (pg_va_bits G - 1)"
  proof -
    have "raw div 2 ^ (pg_va_bits G - 1) < 2"
      using assms vb by (simp add: less_mult_imp_div_less flip: power_Suc)
    moreover have "raw div 2 ^ (pg_va_bits G - 1) = 0 \<longleftrightarrow> raw < 2 ^ (pg_va_bits G - 1)" by (simp add: div_eq_0_iff)
    ultimately show ?thesis by (auto simp: and_exp_eq_0_iff_not_bit bit_iff_odd less_2_cases_iff)
  qed
  then show "raw < 2 ^ (pg_va_bits G - 1) \<Longrightarrow> canonicalize_vaddr G raw = raw" by (simp add: canonicalize_vaddr_def)
  have "(2::nat) ^ 64 - 2 ^ pg_va_bits G = push_bit (pg_va_bits G) (mask (64 - pg_va_bits G))"
    using vb by (simp add: push_bit_eq_mult mask_eq_exp_minus_1 algebra_simps flip: power_add)
  then have "raw OR (usize_bound - 2 ^ pg_va_bits G) = push_bit (pg_va_bits G) (mask (64 - pg_va_bits G)) OR push_bit 0 raw"
    by (simp add: usize_bound_def or.commute)
  also have "\<dots> = push_bit (pg_va_bits G) (mask (64 - pg_va_bits G)) + raw"
    using or_push_bit [of 0 "pg_va_bits G" _ raw] assms by (simp add: push_bit_eq_mult)
  finally show "2 ^ (pg_va_bits G - 1) \<le> raw \<Longrightarrow> 2 ^ (pg_va_bits G - 1) \<le> canonicalize_vaddr G raw"
    using top by (auto simp: canonicalize_vaddr_def)
qed

lemma walk_entry_ok:
  assumes e: "R = prefix + i * span k" "span (Suc k) dvd prefix" "i < 512" "R + span k \<le> 2 ^ pg_va_bits G"
    and hi: "hi \<le> 2 ^ (pg_va_bits G - 1)"
    and cs: "R + span k \<le> lo \<or> hi \<le> R \<or> slot_ok G k e \<or>
      (\<exists>k' t'. k = Suc k' \<and> is_present (pg_pte G) e \<and> next_table G e = Inr t' \<and>
        (\<exists>vs. f t' R = (vs, Inr ()) \<and> sorted_wrt before vs \<and>
          set vs = visits lo hi R (R + span k) (\<lambda>va. leaf_at G s t' (va_path k va))))"
  shows "\<exists>vs. walk_entry G lo hi k prefix f i e = (vs, Inr ()) \<and> sorted_wrt before vs \<and>
    set vs = visits lo hi R (R + span k) (\<lambda>va. leaf_slot G s e (va_path k va))"
proof -
  let ?V = "visits lo hi R (R + span k) (\<lambda>va. leaf_slot G s e (va_path k va))"
  have dvd: "span k dvd R" using e(1,2) span_dvd [of k "Suc k"] by (auto intro: dvd_trans)
  have raw: "prefix OR push_bit (12 + k * 9) i = R"
    using or_push_bit [of "12 + k * 9" 9 prefix i] e by (simp add: add_ac mult_ac)
  have small: "R < 2 ^ pg_va_bits G" using e(4) zero_less_power [of "2::nat" "12 + 9 * k"] by linarith
  have big: "(2::nat) ^ pg_va_bits G < usize_bound"
    using va_bits levels by (auto simp: usize_bound_def)
  show ?thesis
  proof (cases "is_present (pg_pte G) e \<and> lo < R + span k \<and> R < hi")
    case False
    have "?V = {}"
    proof (rule ccontr)
      assume "?V \<noteq> {}"
      then obtain x where x: "x \<in> ?V" by blast
      then have "lo < fst x + page_bytes (snd (snd (snd x)))" "fst x < hi" by (auto simp: visits_def)
      with visits_within [OF x dvd] False have np: "\<not> is_present (pg_pte G) e" by auto
      from x obtain va y where y: "leaf_slot G s e (va_path k va) = Some y" by (auto simp: visits_def)
      from cs show False
      proof (elim disjE exE conjE)
        assume "slot_ok G k e"
        then have "e = pte_zero (pg_pte G)" using np by (auto simp: slot_ok_def)
        then show False using y zero by (auto simp: leaf_slot_def next_table_def split: if_splits)
      qed (use \<open>lo < fst x + _\<close> \<open>fst x < hi\<close> visits_within [OF x dvd] np in auto)
    qed
    moreover have "walk_entry G lo hi k prefix f i e = ([], Inr ())"
    proof (cases "R < 2 ^ (pg_va_bits G - 1)")
      case True
      then show ?thesis
        using False canonical(1) [OF small] e(4) big
        by (auto simp: walk_entry_def Let_def raw saturating_add_def add_ac mult_ac)
    next
      case up: False
      then have "hi \<le> canonicalize_vaddr G R" using canonical(2) [OF small] hi by simp
      then show ?thesis by (simp add: walk_entry_def Let_def raw)
    qed
    ultimately show ?thesis by (intro exI [of _ "[]"]) simp
  next
    case True
    then have es: "canonicalize_vaddr G R = R" using canonical(1) [OF small] hi by simp
    have ee: "saturating_add R (2 ^ (12 + k * 9)) = R + span k"
      using e(4) big by (simp add: saturating_add_def add_ac mult_ac)
    have w: "walk_entry G lo hi k prefix f i e =
      (if k = 0 \<or> is_huge (pg_pte G) e then
         case leaf_size k of None \<Rightarrow> ([], Inl MappedToHugePage)
         | Some ps \<Rightarrow> ([(R, pte_paddr (pg_pte G) e, pte_flags_of (pg_pte G) e, ps)], Inr ())
       else case next_table G e of Inl err \<Rightarrow> ([], Inl err) | Inr t \<Rightarrow> f t R)"
      unfolding walk_entry_def Let_def raw es ee using True by auto
    show ?thesis
    proof (cases "slot_ok G k e")
      case sl: True
      then have k: "k \<le> 2" "k = 0 \<or> is_huge (pg_pte G) e" using True zero by (auto simp: slot_ok_def)
      have leaf: "leaf_slot G s e (va_path k va) = Some (e, k)" for va
      proof -
        have "va_path k va = [] \<or> is_huge (pg_pte G) e \<and> length (va_path k va) \<le> 2" using k by auto
        then show ?thesis using True unfolding leaf_slot_def by (simp only: if_True length_va_path)
      qed
      define ps D where "ps = level_size k" and D: "D = span k"
      have pb: "page_bytes ps = D" using k(1) by (simp add: ps_def D level_bytes)
      have "va = R" if "R \<le> va" "va < R + D" "D dvd va" for va
        using that aligned_below [of D R va] dvd by (cases "R = va") (auto simp: D)
      moreover have "D dvd R" "0 < D" using dvd by (simp_all add: D)
      ultimately have "?V = {(R, pte_paddr (pg_pte G) e, pte_flags_of (pg_pte G) e, ps)}"
        using True unfolding visits_def leaf D [symmetric]
        by (auto simp: pte_view_def pb mod_eq_0_iff_dvd simp flip: ps_def)
      then have "?V = {(R, pte_paddr (pg_pte G) e, pte_flags_of (pg_pte G) e, level_size k)}" by (simp add: ps_def)
      moreover have "leaf_size k = Some (level_size k)" using k(1) by (simp add: leaf_size_level size_level_size)
      ultimately show ?thesis using w k by simp
    next
      case sl: False
      then obtain k' t' vs where t': "k = Suc k'" "next_table G e = Inr t'" "f t' R = (vs, Inr ())" "sorted_wrt before vs"
        "set vs = visits lo hi R (R + span k) (\<lambda>va. leaf_at G s t' (va_path k va))"
        using cs True by auto
      have nh: "\<not> is_huge (pg_pte G) e" using t'(2) by (auto simp: next_table_def split: if_splits)
      then have "leaf_slot G s e (va_path k va) = leaf_at G s t' (va_path k va)" for va
        using t'(1,2) by (simp add: leaf_slot_def)
      then show ?thesis using w nh t' by simp
    qed
  qed
qed

lemma walk_level:
  assumes len: "length (pt_tables s t) = 512" and P: "span (Suc k) dvd P" "P + span (Suc k) \<le> 2 ^ pg_va_bits G"
    and hi: "hi \<le> 2 ^ (pg_va_bits G - 1)"
    and cs: "\<And>i R. i < 512 \<Longrightarrow> R = P + i * span k \<Longrightarrow> R + span k \<le> lo \<or> hi \<le> R \<or> slot_ok G k (entry s (t, i)) \<or>
      (\<exists>k' t'. k = Suc k' \<and> is_present (pg_pte G) (entry s (t, i)) \<and> next_table G (entry s (t, i)) = Inr t' \<and>
        (\<exists>vs. f t' R = (vs, Inr ()) \<and> sorted_wrt before vs \<and>
          set vs = visits lo hi R (R + span k) (\<lambda>va. leaf_at G s t' (va_path k va))))"
  shows "\<exists>vs. walk_entries (walk_entry G lo hi k P f) 0 (pt_tables s t) = (vs, Inr ()) \<and> sorted_wrt before vs \<and>
    set vs = visits lo hi P (P + span (Suc k)) (\<lambda>va. leaf_at G s t (va_path (Suc k) va))"
proof -
  let ?R = "\<lambda>i. P + i * span k"
  let ?V = "\<lambda>i. visits lo hi (?R i) (?R i + span k) (\<lambda>va. leaf_slot G s (entry s (t, i)) (va_path k va))"
  have dvd: "span k dvd ?R i" for i using P(1) span_dvd [of k "Suc k"] by (auto intro: dvd_trans)
  have "\<exists>vs. walk_entry G lo hi k P f i (entry s (t, i)) = (vs, Inr ()) \<and> sorted_wrt before vs \<and> set vs = ?V i" if i: "i < 512" for i
    by (rule walk_entry_ok [where R = "?R i" and prefix = P and s = s, OF refl P(1) i entry_fits [OF i P(2)] hi]) (rule cs [OF i refl])
  then obtain vs where vs: "\<And>i. i < 512 \<Longrightarrow> walk_entry G lo hi k P f i (entry s (t, i)) = (vs i, Inr ()) \<and>
      sorted_wrt before (vs i) \<and> set (vs i) = ?V i" by metis
  have "walk_entries (walk_entry G lo hi k P f) 0 (pt_tables s t) = (concat (map vs [0..<0 + length (pt_tables s t)]), Inr ())"
    using vs len by (intro walk_entries_concat) (auto simp: entry_def)
  moreover have "set (concat (map vs [0..<512])) = (\<Union>i<512. ?V i)" using vs by (auto simp: atLeast0LessThan)
  moreover have "sorted_wrt before (concat (map vs [0..<512]))"
  proof (rule sorted_concat [where R = ?R])
    show "?R i \<le> fst x \<and> fst x + page_bytes (snd (snd (snd x))) \<le> ?R (Suc i)" if "i < 512" "x \<in> set (vs i)" for i x
      using visits_within [OF _ dvd, of x lo hi i] vs [OF that(1)] that(2) by (simp add: algebra_simps)
  qed (use vs in simp_all)
  ultimately show ?thesis unfolding visits_table [OF P(1)] len by auto
qed

lemma walk_table_ok:
  assumes wf: "pt_wf G s k I t" and P: "span (Suc k) dvd P" "P + span (Suc k) \<le> 2 ^ pg_va_bits G"
    and hi: "hi \<le> 2 ^ (pg_va_bits G - 1)"
    and out: "\<And>i. i < 512 \<Longrightarrow> i \<notin> I \<Longrightarrow> P + i * span k + span k \<le> lo \<or> hi \<le> P + i * span k"
  shows "\<exists>vs. walk_leaf_range_recursive G s lo hi k t P = (vs, Inr ()) \<and> sorted_wrt before vs \<and>
    set vs = visits lo hi P (P + span (Suc k)) (\<lambda>va. leaf_at G s t (va_path (Suc k) va))"
  using wf P out
proof (induction k arbitrary: I t P)
  case 0
  show ?case unfolding walk_leaf_range_recursive.simps
    using 0 by (intro walk_level [OF _ 0(2,3) hi]) auto
next
  case (Suc k)
  let ?f = "walk_leaf_range_recursive G s lo hi k"
  have "R + span (Suc k) \<le> lo \<or> hi \<le> R \<or> slot_ok G (Suc k) (entry s (t, i)) \<or>
      (\<exists>k' t'. Suc k = Suc k' \<and> is_present (pg_pte G) (entry s (t, i)) \<and> next_table G (entry s (t, i)) = Inr t' \<and>
        (\<exists>vs. ?f t' R = (vs, Inr ()) \<and> sorted_wrt before vs \<and>
          set vs = visits lo hi R (R + span (Suc k)) (\<lambda>va. leaf_at G s t' (va_path (Suc k) va))))"
    if i: "i < 512" and R: "R = P + i * span (Suc k)" for i R
  proof (cases "i \<in> I \<and> \<not> slot_ok G (Suc k) (entry s (t, i))")
    case True
    then obtain a where a: "child G s t i = Some a" "is_present (pg_pte G) (entry s (t, i))" using Suc.prems(1) by auto
    have "next_table G (entry s (t, i)) = Inr a" using a(1) by (auto simp: child_def split: sum.splits)
    moreover have "\<exists>vs. ?f a R = (vs, Inr ()) \<and> sorted_wrt before vs \<and>
        set vs = visits lo hi R (R + span (Suc k)) (\<lambda>va. leaf_at G s a (va_path (Suc k) va))"
    proof (rule Suc.IH [OF wf_child(1) [OF Suc.prems(1) _ a(1)]])
      show "i \<in> I" using True by simp
      show "span (Suc k) dvd R" unfolding R using Suc.prems(2) span_dvd [of "Suc k" "Suc (Suc k)"] by (auto intro: dvd_trans simp del: power_Suc mult_Suc_right)
      show "R + span (Suc k) \<le> 2 ^ pg_va_bits G" unfolding R by (rule entry_fits [OF i Suc.prems(3)])
    qed simp
    ultimately show ?thesis using a(2) by blast
  next
    case False
    then show ?thesis using Suc.prems(4) [OF i] R by auto
  qed
  then show ?case unfolding walk_leaf_range_recursive.simps
    using Suc.prems(1) by (intro walk_level [OF _ Suc.prems(2,3) hi]) auto
qed

text \<open>The walk of a range visits exactly its pages, once each, from low to high addresses.\<close>

lemma walk_spec:
  assumes v: "pt_valid G heap_inv live s pt" and own: "\<And>va. start \<le> va \<Longrightarrow> va < start + len \<Longrightarrow> owned G pt va"
    and hi: "start + len \<le> 2 ^ (pg_va_bits G - 1)"
  shows "\<exists>vs. walk_leaf_range G s pt start len = (vs, Inr ()) \<and> sorted_wrt before vs \<and>
    set vs = {(va, pa, fl, ps). va mod page_bytes ps = 0 \<and> page_view G s pt va = Some (pa, fl, ps) \<and>
      start < va + page_bytes ps \<and> va < start + len \<and> 0 < len}"
proof (cases "len = 0")
  case False
  obtain k where k: "pg_levels G = Suc k" "pg_levels G - 1 = k" using levels by auto
  have vb: "pg_va_bits G = 12 + 9 * Suc k" "pg_va_bits G - 9 = 12 + 9 * k" using va_bits k by simp_all
  have half: "(2::nat) ^ (pg_va_bits G - 1) \<le> 2 ^ pg_va_bits G" by (intro power_increasing) simp_all
  have fit: "checked_add start len = Some (start + len)"
  proof -
    have "(2::nat) ^ (pg_va_bits G - 1) < usize_bound" using va_bits levels by (auto simp: usize_bound_def)
    then show ?thesis using hi by (simp add: checked_add_def)
  qed
  have W: "\<exists>vs. walk_leaf_range_recursive G s start (start + len) k (root_paddr pt) 0 = (vs, Inr ()) \<and> sorted_wrt before vs \<and>
    set vs = visits start (start + len) 0 (0 + span (Suc k)) (\<lambda>va. leaf_at G s (root_paddr pt) (va_path (Suc k) va))"
  proof (rule walk_table_ok [where I = "all_idx - borrowed pt"])
    show "pt_wf G s k (all_idx - borrowed pt) (root_paddr pt)" using v k by (simp add: pt_valid_def)
    show "0 + span (Suc k) \<le> 2 ^ pg_va_bits G" using vb by simp
    show "start + len \<le> 2 ^ (pg_va_bits G - 1)" by (rule hi)
    show "0 + i * span k + span k \<le> start \<or> start + len \<le> 0 + i * span k" if "i < 512" "i \<notin> all_idx - borrowed pt" for i
    proof (rule ccontr)
      assume c: "\<not> ?thesis"
      define va where "va = max start (i * span k)"
      have "va div span k = i" unfolding div_iff [of "span k", simplified] using c by (auto simp: va_def)
      moreover have "owned G pt va" using c False by (intro own) (auto simp: va_def)
      ultimately show False using that vb(2) by (simp add: owned_def)
    qed
  qed simp
  have V: "visits start (start + len) 0 B (\<lambda>va. leaf_at G s (root_paddr pt) (va_path (Suc k) va)) =
      {(va, pa, fl, ps). va mod page_bytes ps = 0 \<and> page_view G s pt va = Some (pa, fl, ps) \<and>
      start < va + page_bytes ps \<and> va < start + len \<and> 0 < len}" if "start + len \<le> B" for B
    using that False unfolding visits_def page_view_def pt_leaf_def k by auto
  have B: "start + len \<le> 0 + span (Suc k)" using order_trans [OF hi half] unfolding vb(1) add_0 .
  have "walk_leaf_range G s pt start len = walk_leaf_range_recursive G s start (start + len) k (root_paddr pt) 0"
    unfolding walk_leaf_range_def k fit using False by simp
  then show ?thesis using W unfolding V [OF B] by simp
qed (simp add: walk_leaf_range_def)

lemma below_disjoint:
  assumes "pt_wf G s (Suc k) I t" "i \<in> I" "j \<in> I" "i \<noteq> j"
  shows "below s k t i \<inter> below s k t j = {}"
  using assms unfolding pt_wf.simps below_def by (cases "child G s t i"; cases "child G s t j") simp_all

text \<open>Giving one root entry away: the tables below it leave the tree, everything else stays.\<close>

lemma wf_release:
  assumes wf: "pt_wf G s (Suc k) I t" and i: "I \<subseteq> all_idx"
    and t: "pt_tables s' t = (pt_tables s t)[i := e]"
    and same: "\<And>v. v \<noteq> t \<Longrightarrow> pt_tables s' v = pt_tables s v"
  shows "pt_wf G s' (Suc k) (I - {i}) t"
    "tabs G s' (Suc k) (I - {i}) t = tabs G s (Suc k) I t - (if i \<in> I then below s k t i else {})"
    "idx_path (I - {i}) q \<Longrightarrow> length q = Suc (Suc k) \<Longrightarrow> leaf_at G s' t q = leaf_at G s t q"
proof -
  let ?J = "I - {i}"
  have e: "entry s' (t, j) = entry s (t, j)" "child G s' t j = child G s t j" if "j \<in> ?J" for j
    using that t by (auto simp: entry_def child_def)
  have sub: "pt_tables s' v = pt_tables s v" if "j \<in> ?J" "child G s t j = Some a" "v \<in> tabs G s k all_idx a" for j a v
    using wf_child(2) [OF wf _ that(2)] that(1,3) by (intro same) auto
  have tb: "tabs G s' k all_idx a = tabs G s k all_idx a" if "j \<in> ?J" "child G s t j = Some a" for j a
    by (rule tabs_cong) (rule sub [OF that])
  have wfa: "pt_wf G s' k all_idx a" if "j \<in> ?J" "child G s t j = Some a" for j a
    using that by (intro pt_wf_cong [OF sub [OF that]] wf_child(1) [OF wf]) auto
  have "slot_ok G (Suc k) (entry s' (t, j)) \<or> is_present (pg_pte G) (entry s' (t, j)) \<and>
      (\<exists>a. child G s' t j = Some a \<and> pt_wf G s' k all_idx a \<and> t \<notin> tabs G s' k all_idx a)" if j: "j \<in> ?J" for j
  proof (cases "child G s t j")
    case None
    then show ?thesis using wf j e [OF j] by auto
  next
    case (Some a)
    then show ?thesis using wf_child [OF wf _ Some] wfa [OF j Some] tb [OF j Some] j e [OF j] by auto
  qed
  moreover have "tabs G s' k all_idx a \<inter> tabs G s' k all_idx b = {}"
    if "j \<in> ?J" "l \<in> ?J" "j \<noteq> l" "child G s' t j = Some a" "child G s' t l = Some b" for j l a b
  proof -
    have c: "child G s t j = Some a" "child G s t l = Some b" using that(4,5) e(2) [OF that(1)] e(2) [OF that(2)] by simp_all
    then have "tabs G s k all_idx a \<inter> tabs G s k all_idx b = {}"
      using below_disjoint [OF wf, of j l] that(1-3) by (auto simp: below_def)
    then show ?thesis using tb [OF that(1) c(1)] tb [OF that(2) c(2)] by simp
  qed
  ultimately show "pt_wf G s' (Suc k) ?J t" using wf t by simp
  have b: "below s' k t j = below s k t j" if "j \<in> ?J" for j
    using e(2) [OF that] tb [OF that] by (simp add: below_def split: option.split)
  have "t \<notin> below s k t j" if "j \<in> I" for j
    using wf_child(2) [OF wf that] by (auto simp: below_def split: option.splits)
  moreover have "below s k t i \<inter> below s k t j = {}" if "i \<in> I" "j \<in> ?J" for j
    using that by (intro below_disjoint [OF wf]) auto
  ultimately show "tabs G s' (Suc k) ?J t = tabs G s (Suc k) I t - (if i \<in> I then below s k t i else {})"
    unfolding tabs_below using b by auto
  assume q: "idx_path ?J q" "length q = Suc (Suc k)"
  then obtain j r where jr: "q = j # r" "j \<in> ?J" "set r \<subseteq> all_idx" "length r = Suc k" by (cases q) auto
  have "leaf_at G s' a r = leaf_at G s a r" if "child G s t j = Some a" for a
    by (rule leaf_at_cong [OF sub [OF jr(2) that] jr(4) idx_path_all [OF jr(3)]])
  then show "leaf_at G s' t q = leaf_at G s t q"
    using jr e [OF jr(2)] by (auto simp: leaf_at.simps split: option.split)
qed

text \<open>\<open>copied\<close>: the indices \<open>C\<close> of the root are borrowed from \<open>src\<close>, what stood under them is freed, and
  the rest of the page table is as before.\<close>

definition copied ::
    "usize \<Rightarrow> nat set \<Rightarrow> ('p, 'h, 'z) pt_state_scheme \<times> page_table \<Rightarrow> ('p, 'h, 'z) pt_state_scheme \<times> page_table \<Rightarrow> bool" where
  "copied src C x y \<longleftrightarrow> (case x of (s, pt) \<Rightarrow> case y of (s', pt') \<Rightarrow>
     pt_valid G heap_inv live s' pt' \<and> root_paddr pt' = root_paddr pt \<and> borrowed pt' = borrowed pt \<union> C \<and>
     live (pt_heap s') = live (pt_heap s) - (pt_tabs G s pt - pt_tabs G s' pt') \<and> pt_tabs G s' pt' \<subseteq> pt_tabs G s pt \<and>
     (\<forall>v. v \<noteq> root_paddr pt \<longrightarrow> pt_tables s' v = pt_tables s v) \<and>
     (\<forall>va. owned G pt' va \<longrightarrow> page_view G s' pt' va = page_view G s pt va) \<and>
     (\<forall>i \<in> C. entry s' (root_paddr pt, i) = entry s (src, i)) \<and>
     (\<forall>i. i \<notin> C \<longrightarrow> entry s' (root_paddr pt, i) = entry s (root_paddr pt, i)))"

lemma copy_entry_spec:
  assumes v: "pt_valid G heap_inv live s pt" and src: "src \<noteq> root_paddr pt" and i: "i < 512"
  shows "\<exists>y. copy_entry G src i (s, pt) = Some y \<and> copied src {i} (s, pt) y"
proof -
  obtain k where k: "pg_levels G = Suc (Suc k)" "pg_levels G - 1 = Suc k" "pg_levels G - 2 = k" using levels by auto
  let ?t = "root_paddr pt" and ?I = "all_idx - borrowed pt"
  let ?e = "entry s (?t, i)"
  have wf: "pt_wf G s (Suc k) ?I ?t" and h: "heap_inv (pt_heap s)" and l: "tabs G s (Suc k) ?I ?t \<subseteq> live (pt_heap s)"
    using v k by (simp_all add: pt_valid_def pt_tabs_def)
  define F where "F = (if i \<in> ?I then below s k ?t i else {})"
  have "\<exists>h'. (if i \<notin> borrowed pt then case next_table G ?e of Inr _ \<Rightarrow> dealloc_tree G s k (pte_paddr (pg_pte G) ?e) (pt_heap s)
        | Inl _ \<Rightarrow> Some (pt_heap s) else Some (pt_heap s)) = Some h' \<and> heap_inv h' \<and> live h' = live (pt_heap s) - F"
  proof (cases "i \<in> ?I \<and> child G s ?t i \<noteq> None")
    case True
    then obtain a where a: "child G s ?t i = Some a" "i \<in> ?I" by auto
    then have "next_table G ?e = Inr a" "pte_paddr (pg_pte G) ?e = a"
      by (auto simp: child_def next_table_def split: sum.splits if_splits)
    moreover have "tabs G s k all_idx a \<subseteq> live (pt_heap s)" using tabs_child [OF a, of k] l by blast
    ultimately show ?thesis using dealloc_tree_spec [OF wf_child(1) [OF wf a(2,1)] h] a by (simp add: F_def below_def)
  next
    case False
    then show ?thesis using h by (auto simp: F_def below_def child_def i split: sum.splits)
  qed
  then obtain h' where h': "(if i \<notin> borrowed pt then case next_table G ?e of Inr _ \<Rightarrow> dealloc_tree G s k (pte_paddr (pg_pte G) ?e) (pt_heap s)
        | Inl _ \<Rightarrow> Some (pt_heap s) else Some (pt_heap s)) = Some h'" "heap_inv h'" "live h' = live (pt_heap s) - F" by blast
  define s' pt' where s': "s' = set_entry (?t, i) (entry s (src, i)) (s\<lparr>pt_heap := h'\<rparr>)"
    and pt': "pt' = pt\<lparr>borrowed := insert i (borrowed pt)\<rparr>"
  have t: "pt_tables s' ?t = (pt_tables s ?t)[i := entry s (src, i)]" and same: "\<And>v. v \<noteq> ?t \<Longrightarrow> pt_tables s' v = pt_tables s v"
    and hp: "pt_heap s' = h'" by (simp_all add: s' set_entry_def)
  have J: "all_idx - borrowed pt' = ?I - {i}" by (auto simp: pt')
  note R = wf_release [OF wf _ t same, folded F_def, folded J]
  have T: "pt_tabs G s' pt' = pt_tabs G s pt - F" using R(2) by (auto simp: pt_tabs_def k pt')
  have FT: "F \<subseteq> pt_tabs G s pt" by (auto simp: F_def pt_tabs_def k tabs_below simp del: tabs.simps)
  have "pt_valid G heap_inv live s' pt'"
    using R(1) h' hp T l by (auto simp: pt_valid_def k pt' pt_tabs_def)
  moreover have "page_view G s' pt' va = page_view G s pt va" if "owned G pt' va" for va
    using R(3) owned_path [OF that] k by (simp add: page_view_def pt_leaf_def pt')
  moreover have "live (pt_heap s') = live (pt_heap s) - (pt_tabs G s pt - pt_tabs G s' pt')"
    using h'(3) hp T FT by auto
  moreover have "entry s' (?t, i) = entry s (src, i)" "\<And>j. j \<noteq> i \<Longrightarrow> entry s' (?t, j) = entry s (?t, j)"
    using wf i t by (simp_all add: entry_def)
  ultimately have "copied src {i} (s, pt) (s', pt')" using same T by (auto simp: copied_def pt')
  moreover have "copy_entry G src i (s, pt) = Some (s', pt')" 
    unfolding copy_entry_def prod.case Let_def k(3) h'(1) by (simp add: s' pt')
  ultimately show ?thesis by blast
qed

lemma copied_trans:
  assumes a: "copied src C x y" and b: "copied src D y z" and src: "src \<noteq> root_paddr (snd x)"
  shows "copied src (C \<union> D) x z"
proof -
  obtain s pt s' pt' s'' pt'' where xyz: "x = (s, pt)" "y = (s', pt')" "z = (s'', pt'')" by (cases x; cases y; cases z)
  note a = a [unfolded copied_def xyz prod.case] and b = b [unfolded copied_def xyz prod.case]
  have "live (pt_heap s'') = live (pt_heap s) - (pt_tabs G s pt - pt_tabs G s'' pt'')" using a b by blast
  moreover have "owned G pt'' va \<Longrightarrow> owned G pt' va" for va using b by (auto simp: owned_def)
  moreover have "entry s' (src, i) = entry s (src, i)" for i using a src xyz by (simp add: entry_def)
  ultimately show ?thesis unfolding copied_def xyz prod.case using a b by auto
qed

lemma copy_entries_spec:
  "pt_valid G heap_inv live s pt \<Longrightarrow> src \<noteq> root_paddr pt \<Longrightarrow> set L \<subseteq> all_idx \<Longrightarrow>
    \<exists>y. copy_entries G src L (s, pt) = Some y \<and> copied src (set L) (s, pt) y"
proof (induction L arbitrary: s pt)
  case (Cons i L)
  then obtain s1 pt1 where 1: "copy_entry G src i (s, pt) = Some (s1, pt1)" "copied src {i} (s, pt) (s1, pt1)"
    using copy_entry_spec [OF Cons.prems(1,2), of i] by auto
  then have "pt_valid G heap_inv live s1 pt1" "root_paddr pt1 = root_paddr pt" by (auto simp: copied_def)
  then obtain y where y: "copy_entries G src L (s1, pt1) = Some y" "copied src (set L) (s1, pt1) y"
    using Cons.IH [of s1 pt1] Cons.prems by auto
  show ?case using copied_trans [OF 1(2) y(2)] 1(1) y(1) Cons.prems(2) by auto
qed (simp add: copied_def)

definition root_idx :: "usize \<Rightarrow> nat" where
  "root_idx va = va div 2 ^ (pg_va_bits G - 9) mod 512"

lemma root_idx_fn: "(if pg_levels G = 3 then p3_index else p4_index) = root_idx"
  using levels va_bits by (auto simp: fun_eq_iff root_idx_def p_index_eq)

lemma root_idx_path: "va_path (pg_levels G) va = root_idx va # va_path (pg_levels G - 1) va"
proof -
  obtain k where k: "pg_levels G = Suc k" using levels by (cases "pg_levels G") auto
  then show ?thesis using va_bits by (simp add: root_idx_def)
qed

lemma copy_from_spec:
  assumes v: "pt_valid G heap_inv live s pt" and src: "root_paddr pt \<notin> tabs G s (pg_levels G - 1) all_idx (root_paddr other)"
    and len: "0 < len" "start + len \<le> usize_bound"
  shows "\<exists>s' pt'. pt_copy_from G s pt other start len = Some (s', pt') \<and>
    copied (root_paddr other) {root_idx start..root_idx (start + len - 1)} (s, pt) (s', pt') \<and>
    (\<forall>va. root_idx va \<in> {root_idx start..root_idx (start + len - 1)} \<longrightarrow> page_view G s' pt' va = page_view G s other va)"
proof -
  let ?src = "root_paddr other" and ?C = "{root_idx start..root_idx (start + len - 1)}"
  have ne: "?src \<noteq> root_paddr pt" using src root_tab [of ?src G s "pg_levels G - 1" all_idx] by auto
  have lt: "root_idx va < 512" for va by (simp add: root_idx_def)
  have last: "usize_sub (usize_add start len) 1 = start + len - 1"
  proof (cases "start + len = usize_bound")
    case True
    then show ?thesis by (simp add: usize_sub_def usize_add_def usize_bound_def)
  next
    case False
    then show ?thesis using len by (simp add: usize_add_id usize_sub_id)
  qed
  have C: "set [root_idx start..<root_idx (start + len - 1) + 1] = ?C" by auto
  obtain s' pt' where y: "copy_entries G ?src [root_idx start..<root_idx (start + len - 1) + 1] (s, pt) = Some (s', pt')"
    "copied ?src ?C (s, pt) (s', pt')"
    using copy_entries_spec [OF v ne, of "[root_idx start..<root_idx (start + len - 1) + 1]"] lt [of "start + len - 1"]
    unfolding C by fastforce
  have run: "pt_copy_from G s pt other start len = Some (s', pt')"
    using y(1) len lt [of start] lt [of "start + len - 1"] unfolding pt_copy_from_def Let_def root_idx_fn last
    by (simp add: ENTRY_COUNT_def)
  have "page_view G s' pt' va = page_view G s other va" if i: "root_idx va \<in> ?C" for va
  proof -
    let ?q = "va_path (pg_levels G) va" and ?r = "va_path (pg_levels G - 1) va"
    note c = y(2) [unfolded copied_def prod.case]
    have e: "entry s' (root_paddr pt', root_idx va) = entry s' (?src, root_idx va)"
      using c i ne by (auto simp: entry_def)
    have "leaf_at G s' (root_paddr pt') ?q = leaf_at G s' ?src ?q"
      unfolding root_idx_path leaf_at_slot e ..
    also have "\<dots> = leaf_at G s ?src ?q"
    proof (rule leaf_at_cong [of G s "pg_levels G - 1" all_idx])
      show "pt_tables s' u = pt_tables s u" if "u \<in> tabs G s (pg_levels G - 1) all_idx ?src" for u
        using c src that by metis
    qed (use set_va_path [of "pg_levels G" va] levels_Suc in \<open>simp_all add: idx_path_all_iff\<close>)
    finally show ?thesis by (simp add: page_view_def pt_leaf_def)
  qed
  then show ?thesis using run y(2) by blast
qed

end

section \<open>The page tables of the kernel\<close>

text \<open>The RISC-V and LoongArch instances, over the kernel's frame handler. \<open>A\<close> and \<open>B\<close> are the third-party address and bitmap
  crates, \<open>off\<close> is the offset of the linear mapping.\<close>

definition sv39 :: "addr_ops \<Rightarrow> 'b bit_ops \<Rightarrow> usize \<Rightarrow> (64 word, 'b page_allocator) paging" where
  "sv39 A B off = \<lparr>pg_pte = rv64_pte, pg_levels = 3, pg_va_bits = 39, pg_addr = A,
     pg_alloc = handler_alloc_frame B off, pg_dealloc = handler_dealloc_frame B off\<rparr>"

definition la64 :: "addr_ops \<Rightarrow> 'b bit_ops \<Rightarrow> usize \<Rightarrow> (64 word, 'b page_allocator) paging" where
  "la64 A B off = \<lparr>pg_pte = la64_pte, pg_levels = 4, pg_va_bits = 48, pg_addr = A,
     pg_alloc = handler_alloc_frame B off, pg_dealloc = handler_dealloc_frame B off\<rparr>"

locale rv64_paging = linear_frames B free base lo hi off 56 + memory_addr A
  for A :: addr_ops and B :: "'b bit_ops" and free base lo hi off
begin

sublocale sv39: paging_laws "sv39 A B off" 56 rv_leaf_ok rv_stored "pages_inv free base lo hi" "live_frames free base off lo hi"
proof -
  have "paging_laws_axioms (sv39 A B off) 56" by (simp add: paging_laws_axioms_def sv39_def)
  then show "paging_laws (sv39 A B off) 56 rv_leaf_ok rv_stored (pages_inv free base lo hi) (live_frames free base off lo hi)"
    using rv.generic_pte_axioms frame_source_axioms memory_addr_axioms by (simp add: paging_laws_def sv39_def)
qed

end

locale la64_paging = linear_frames B free base lo hi off 48 + memory_addr A
  for A :: addr_ops and B :: "'b bit_ops" and free base lo hi off
begin

sublocale la64: paging_laws "la64 A B off" 48 la_leaf_ok la_stored "pages_inv free base lo hi" "live_frames free base off lo hi"
proof -
  have "paging_laws_axioms (la64 A B off) 48" by (simp add: paging_laws_axioms_def la64_def)
  then show "paging_laws (la64 A B off) 48 la_leaf_ok la_stored (pages_inv free base lo hi) (live_frames free base off lo hi)"
    using la.generic_pte_axioms frame_source_axioms memory_addr_axioms by (simp add: paging_laws_def la64_def)
qed

end

interpretation demo_rv: rv64_paging std_addr std_bits set "0x80000000" 0 8 0
  by unfold_locales simp_all

interpretation demo_la: la64_paging std_addr std_bits set "0x80000000" 0 8 0
  by unfold_locales simp_all

section \<open>Properties\<close>

text \<open>C6: mapping a page. If \<open>map\<close> succeeds, no address of the page was mapped before, and afterwards exactly the addresses of
  the page translate to the aligned target with the flags the entry can store; every other translation
  of the table, and every table of another page table, is as before. If it fails, no translation has
  changed, and for a 4 KiB page it fails only for lack of memory or when the address was mapped.\<close>

theorem page_table_map_correct:
  assumes "paging_laws G pa_bits leaf_ok stored hi lv"
    and "pt_valid G hi lv s pt" and "owned G pt va" and "leaf_ok flags" and "target < 2 ^ pa_bits"
  shows "\<exists>s' r. pt_map G s pt va target ps flags = Some (s', r) \<and>
    (case r of
      Inl err \<Rightarrow> pt_becomes G hi lv s s' pt (page_view G s pt) \<and>
        (ps = Size4K \<longrightarrow> err = PtNoMemory \<or> page_view G s pt va \<noteq> None)
    | Inr _ \<Rightarrow> (\<forall>va'. owned G pt va' \<longrightarrow> same_page ps va va' \<longrightarrow> page_view G s pt va' = None) \<and>
        pt_becomes G hi lv s s' pt
          (set_page ps va (Some (align_down (pg_addr G) target (page_bytes ps), stored flags, ps)) (page_view G s pt)))"
  using paging_laws.map_spec [OF assms] .

text \<open>C4: the page table refines a partial map from addresses to frames. \<open>query\<close> reads the map; \<open>unmap\<close> takes
  exactly the page of the address out of it and returns its frame and size; \<open>protect\<close> changes exactly the flags of
  this page; on an unmapped address all three report \<open>NotMapped\<close> and change no translation.\<close>

theorem page_table_refines:
  assumes "paging_laws G pa_bits leaf_ok stored hi lv"
    and "pt_valid G hi lv s pt" and "owned G pt va" and "leaf_ok flags"
  shows "case page_view G s pt va of
      None \<Rightarrow>
        pt_query G s pt va = Inl NotMapped \<and>
        (\<exists>s'. pt_unmap G s pt va = (s', Inl NotMapped) \<and> pt_becomes G hi lv s s' pt (page_view G s pt)) \<and>
        pt_protect G s pt va flags = Some (s, Inl NotMapped)
    | Some (pa, fl, ps) \<Rightarrow>
        pt_query G s pt va = Inr (usize_add pa (va mod page_bytes ps), fl, ps) \<and>
        (\<exists>s'. pt_unmap G s pt va = (s', Inr (pa, ps)) \<and>
           pt_becomes G hi lv s s' pt (set_page ps va None (page_view G s pt))) \<and>
        (\<exists>s'. pt_protect G s pt va flags = Some (s', Inr ps) \<and>
           pt_becomes G hi lv s s' pt (set_page ps va (Some (pa, stored flags, ps)) (page_view G s pt)))"
proof -
  obtain s' r where u: "pt_unmap G s pt va = (s', r)" by (cases "pt_unmap G s pt va")
  note q = paging_laws.query_spec [OF assms(1-3)] and u' = paging_laws.unmap_spec [OF assms(1-3) u]
    and p = paging_laws.protect_spec [OF assms]
  show ?thesis
  proof (cases "page_view G s pt va")
    case None
    then show ?thesis using q u u' p by auto
  next
    case (Some x)
    obtain pa fl ps where x: "x = (pa, fl, ps)" by (cases x)
    then show ?thesis using q u u' p Some by auto
  qed
qed


text \<open>C12: a page table owns its tables. Dropping it frees each of them exactly once and nothing else: not
  the tables it borrows, and not those of another page table.\<close>

theorem page_table_drop_exact:
  assumes "paging_laws G pa_bits leaf_ok stored hi lv" and "pt_valid G hi lv s pt"
  shows "\<exists>h'. pt_drop G s pt = Some h' \<and> hi h' \<and> lv h' = lv (pt_heap s) - pt_tabs G s pt"
  using paging_laws.drop_spec [OF assms] .

text \<open>C15: sharing the kernel half. \<open>copy_from\<close> makes every address under the copied root entries translate as in the source
  table, borrows these entries so that they are never freed through the copy, frees exactly the tables that stood there before,
  and leaves all other translations alone.\<close>

theorem copy_from_shares:
  assumes "paging_laws G pa_bits leaf_ok stored hi lv" and "pt_valid G hi lv s pt"
    and "root_paddr pt \<notin> tabs G s (pg_levels G - 1) all_idx (root_paddr other)"
    and "0 < len" and "start + len \<le> usize_bound"
  shows "\<exists>s' pt'. pt_copy_from G s pt other start len = Some (s', pt') \<and> pt_valid G hi lv s' pt' \<and>
    (let idx = (\<lambda>va. va div 2 ^ (pg_va_bits G - 9) mod 512); C = {idx start..idx (start + len - 1)} in
     borrowed pt' = borrowed pt \<union> C \<and>
     (\<forall>va. idx va \<in> C \<longrightarrow> page_view G s' pt' va = page_view G s other va) \<and>
     (\<forall>va. owned G pt' va \<longrightarrow> page_view G s' pt' va = page_view G s pt va) \<and>
     lv (pt_heap s') = lv (pt_heap s) - (pt_tabs G s pt - pt_tabs G s' pt'))"
  using paging_laws.copy_from_spec [OF assms]
  unfolding paging_laws.copied_def [OF assms(1)] paging_laws.root_idx_def [OF assms(1)] prod.case Let_def by blast

section \<open>Concrete instances\<close>

text \<open>A new Sv39 page table on the eight demonstration pages.\<close>

definition demo_G :: "(64 word, nat list page_allocator) paging" where
  "demo_G = sv39 std_addr std_bits 0"

definition demo_start :: "(64 word, nat list page_allocator) pt_state" where
  "demo_start = \<lparr>pt_tables = (\<lambda>_. []), pt_heap = demo_pages\<rparr>"

definition demo_s :: "(64 word, nat list page_allocator) pt_state" where
  "demo_s = fst (pt_try_new demo_G demo_start)"

definition demo_pt :: page_table where
  "demo_pt = \<lparr>root_paddr = 0x80001000, borrowed = {}\<rparr>"

abbreviation demo_inv :: "nat list page_allocator \<Rightarrow> bool" where
  "demo_inv \<equiv> pages_inv set 0x80000000 0 8"

abbreviation demo_live :: "nat list page_allocator \<Rightarrow> usize set" where
  "demo_live \<equiv> live_frames set 0x80000000 0 0 8"

lemma demo_laws: "paging_laws demo_G 56 rv_leaf_ok rv_stored demo_inv demo_live"
  unfolding demo_G_def by (rule demo_rv.sv39.paging_laws_axioms)

lemma demo_new: "pt_try_new demo_G demo_start = (demo_s, Inr demo_pt)"
proof -
  have "snd (pt_try_new demo_G demo_start) = Inr demo_pt"
    by (simp add: pt_try_new_def alloc_table_def demo_G_def sv39_def handler_alloc_frame_def demo_start_def demo_pt_def
        alloc_pages_def demo_pages_def std_bits_def index_address_def MAX_ALIGN_1GB_def page_alignment PAGE_SIZE_4K_def
        is_power_of_two_power [of 0, simplified] virt_to_phys_def usize_sub_def usize_bound_def)
  then show ?thesis by (metis demo_s_def prod.collapse)
qed

lemma demo_valid: "pt_valid demo_G demo_inv demo_live demo_s demo_pt" "page_view demo_G demo_s demo_pt va = None"
  using paging_laws.try_new_spec [OF demo_laws _ demo_new] demo_pages_inv by (simp_all add: demo_start_def)

lemma demo_owned: "va < 2 ^ 39 \<Longrightarrow> owned demo_G demo_pt va"
  by (simp add: owned_def demo_G_def sv39_def demo_pt_def)

theorem page_table_map_correct_witness:
  "\<exists>s' r. pt_map demo_G demo_s demo_pt 0x5000 0x80200000 Size4K {READ} = Some (s', r) \<and> pt_valid demo_G demo_inv demo_live s' demo_pt \<and>
     (r = Inl PtNoMemory \<or> page_view demo_G s' demo_pt 0x5abc = Some (0x80200000, {READ}, Size4K))"
proof -
  have t: "align_down (pg_addr demo_G) 0x80200000 (page_bytes Size4K) = 0x80200000"
    by (simp add: demo_G_def sv39_def std_addr_def page_bytes_def)
  have sp: "set_page Size4K 0x5000 x V 0x5abc = x" for x V by (simp add: set_page_def same_page_def page_bytes_def)
  obtain s' r where r: "pt_map demo_G demo_s demo_pt 0x5000 0x80200000 Size4K {READ} = Some (s', r)"
    "case r of Inl err \<Rightarrow> pt_becomes demo_G demo_inv demo_live demo_s s' demo_pt (page_view demo_G demo_s demo_pt) \<and>
        (Size4K = Size4K \<longrightarrow> err = PtNoMemory \<or> page_view demo_G demo_s demo_pt 0x5000 \<noteq> None)
    | Inr _ \<Rightarrow> (\<forall>va'. owned demo_G demo_pt va' \<longrightarrow> same_page Size4K 0x5000 va' \<longrightarrow> page_view demo_G demo_s demo_pt va' = None) \<and>
        pt_becomes demo_G demo_inv demo_live demo_s s' demo_pt
          (set_page Size4K 0x5000 (Some (align_down (pg_addr demo_G) 0x80200000 (page_bytes Size4K), rv_stored {READ}, Size4K))
            (page_view demo_G demo_s demo_pt))"
    using page_table_map_correct [OF demo_laws demo_valid(1), where va = "0x5000" and flags = "{READ}" and target = "0x80200000" and ps = Size4K]
      demo_owned [of "0x5000"] by (auto simp: rv_leaf_ok_def)
  have st: "rv_stored {READ} = {READ}" by (auto simp: rv_stored_def)
  show ?thesis using r demo_owned [of "0x5abc"] unfolding t st
    by (intro exI [of _ s'] exI [of _ r]) (auto simp: pt_becomes_def demo_valid(2) sp split: sum.splits)
qed

theorem page_table_refines_witness:
  "\<exists>err. pt_protect demo_G demo_s demo_pt 0x5000 {READ} = Some (demo_s, Inl err)"
  using page_table_refines [OF demo_laws demo_valid(1), where va = "0x5000" and flags = "{READ}"] demo_owned [of "0x5000"]
  by (simp add: demo_valid(2) rv_leaf_ok_def)


theorem page_table_drop_exact_witness:
  "\<exists>h'. pt_drop demo_G demo_s demo_pt = Some h' \<and> demo_inv h'"
  using page_table_drop_exact [OF demo_laws demo_valid(1)] by blast

text \<open>A second page table that borrows the first kernel entry of the first one.\<close>

definition demo_s2 :: "(64 word, nat list page_allocator) pt_state" where
  "demo_s2 = fst (pt_try_new demo_G demo_s)"

definition demo_pt2 :: page_table where
  "demo_pt2 = \<lparr>root_paddr = 0x80002000, borrowed = {}\<rparr>"

lemma demo_heap: "pt_heap demo_s = \<lparr>pa_base = 0x80000000, pa_total_pages = 8, pa_used_pages = 2, pa_inner = [2, 3, 4, 5, 6, 7]\<rparr>"
  by (simp add: demo_s_def pt_try_new_def alloc_table_def demo_G_def sv39_def handler_alloc_frame_def demo_start_def demo_pt_def
        alloc_pages_def demo_pages_def std_bits_def index_address_def MAX_ALIGN_1GB_def page_alignment PAGE_SIZE_4K_def
        is_power_of_two_power [of 0, simplified] virt_to_phys_def usize_sub_def usize_add_def usize_bound_def)

lemma demo_new2: "pt_try_new demo_G demo_s = (demo_s2, Inr demo_pt2)"
proof -
  have "snd (pt_try_new demo_G demo_s) = Inr demo_pt2"
    by (simp add: pt_try_new_def alloc_table_def demo_G_def sv39_def handler_alloc_frame_def demo_heap demo_pt2_def
        alloc_pages_def std_bits_def index_address_def MAX_ALIGN_1GB_def page_alignment PAGE_SIZE_4K_def
        is_power_of_two_power [of 0, simplified] virt_to_phys_def usize_sub_def usize_bound_def)
  then show ?thesis by (metis demo_s2_def prod.collapse)
qed

theorem copy_from_shares_witness:
  "\<exists>s' pt'. pt_copy_from demo_G demo_s2 demo_pt2 demo_pt 0xffffffc000000000 0x40000000 = Some (s', pt') \<and> 256 \<in> borrowed pt'"
proof -
  have h: "demo_inv (pt_heap demo_s)" and live: "pt_tabs demo_G demo_s demo_pt \<subseteq> demo_live (pt_heap demo_s)"
    using demo_valid(1) by (simp_all add: pt_valid_def)
  note N = paging_laws.try_new_spec [OF demo_laws h demo_new2]
  have one: "pt_tabs demo_G demo_s demo_pt = {0x80001000}"
    using paging_laws.try_new_spec [OF demo_laws _ demo_new] demo_pages_inv by (simp add: demo_start_def demo_pt_def)
  have "tabs demo_G demo_s2 2 all_idx 0x80001000 = tabs demo_G demo_s 2 all_idx 0x80001000"
    using N live one by (intro tabs_cong) (auto simp: pt_tabs_def demo_G_def sv39_def demo_pt_def)
  also have "\<dots> = {0x80001000}" using one by (simp add: pt_tabs_def demo_G_def sv39_def demo_pt_def)
  finally have "root_paddr demo_pt2 \<notin> tabs demo_G demo_s2 (pg_levels demo_G - 1) all_idx (root_paddr demo_pt)"
    by (simp add: demo_pt2_def demo_pt_def demo_G_def sv39_def)
  moreover have "pt_valid demo_G demo_inv demo_live demo_s2 demo_pt2" using N by simp
  moreover have "pg_va_bits demo_G = 39" by (simp add: demo_G_def sv39_def)
  ultimately show ?thesis
    using copy_from_shares [OF demo_laws, where s = demo_s2 and pt = demo_pt2 and other = demo_pt and start = "0xffffffc000000000" and len = "0x40000000"]
    by (auto simp: usize_bound_def Let_def)
qed

end
