(* ===== verification/Page_Region.thy ===== *)
theory Page_Region
  imports Page_Map
begin

text \<open>
  The region operations of the page table (\<open>map_region\<close>, \<open>unmap_region\<close>, \<open>protect_region\<close>) and the debugging walk. The
  \<open>while\<close> loops are partial functions: the outer \<open>None\<close> is a loop that does not return, an inner \<open>None\<close>
  is a failed assertion.
\<close>

section \<open>Region operations\<close>

definition page_is_aligned :: "('p, 'h) paging \<Rightarrow> page_size \<Rightarrow> usize \<Rightarrow> bool" where
  "page_is_aligned G ps a = is_aligned (pg_addr G) a (page_bytes ps)"

definition region_page :: "('p, 'h) paging \<Rightarrow> bool \<Rightarrow> usize \<Rightarrow> usize \<Rightarrow> usize \<Rightarrow> page_size" where
  "region_page G allow_huge vaddr paddr sz =
     (if allow_huge then
        if page_is_aligned G Size1G vaddr \<and> is_aligned (pg_addr G) paddr (page_bytes Size1G) \<and> page_bytes Size1G \<le> sz then Size1G
        else if page_is_aligned G Size2M vaddr \<and> is_aligned (pg_addr G) paddr (page_bytes Size2M) \<and> page_bytes Size2M \<le> sz then Size2M
        else Size4K
      else Size4K)"

partial_function (option) map_region_loop ::
    "('p, 'h) paging \<Rightarrow> page_table \<Rightarrow> (usize \<Rightarrow> usize) \<Rightarrow> mapping_flags \<Rightarrow> bool \<Rightarrow> usize \<Rightarrow> usize \<Rightarrow> ('p, 'h, 'z) pt_state_scheme \<Rightarrow>
      (('p, 'h, 'z) pt_state_scheme \<times> (paging_error + unit)) option option" where
  "map_region_loop G pt get_paddr flags allow_huge vaddr sz s =
     (if sz = 0 then Some (Some (s, Inr ()))
      else let paddr = get_paddr vaddr; ps = region_page G allow_huge vaddr paddr sz in
        case pt_map G s pt vaddr paddr ps flags of
          None \<Rightarrow> Some None
        | Some (s', Inl err) \<Rightarrow> Some (Some (s', Inl err))
        | Some (s', Inr _) \<Rightarrow>
            map_region_loop G pt get_paddr flags allow_huge (usize_add vaddr (page_bytes ps)) (usize_sub sz (page_bytes ps)) s')"

definition pt_map_region ::
    "('p, 'h) paging \<Rightarrow> ('p, 'h, 'z) pt_state_scheme \<Rightarrow> page_table \<Rightarrow> usize \<Rightarrow> (usize \<Rightarrow> usize) \<Rightarrow> usize \<Rightarrow> mapping_flags \<Rightarrow> bool \<Rightarrow>
      (('p, 'h, 'z) pt_state_scheme \<times> (paging_error + unit)) option option" where
  "pt_map_region G s pt vaddr get_paddr sz flags allow_huge =
     (if \<not> page_is_aligned G Size4K vaddr \<or> \<not> page_is_aligned G Size4K sz then Some (Some (s, Inl NotAligned))
      else map_region_loop G pt get_paddr flags allow_huge vaddr sz s)"

partial_function (option) pt_unmap_region ::
    "('p, 'h) paging \<Rightarrow> page_table \<Rightarrow> usize \<Rightarrow> usize \<Rightarrow> ('p, 'h, 'z) pt_state_scheme \<Rightarrow>
      (('p, 'h, 'z) pt_state_scheme \<times> (paging_error + unit)) option option" where
  "pt_unmap_region G pt vaddr sz s =
     (if sz = 0 then Some (Some (s, Inr ()))
      else case pt_unmap G s pt vaddr of
        (s', Inl err) \<Rightarrow> Some (Some (s', Inl err))
      | (s', Inr (_, ps)) \<Rightarrow>
          if \<not> page_is_aligned G ps vaddr \<or> \<not> page_bytes ps \<le> sz then Some None
          else pt_unmap_region G pt (usize_add vaddr (page_bytes ps)) (usize_sub sz (page_bytes ps)) s')"

partial_function (option) pt_protect_region ::
    "('p, 'h) paging \<Rightarrow> page_table \<Rightarrow> mapping_flags \<Rightarrow> bool \<Rightarrow> usize \<Rightarrow> usize \<Rightarrow> ('p, 'h, 'z) pt_state_scheme \<Rightarrow>
      (('p, 'h, 'z) pt_state_scheme \<times> (paging_error + unit)) option option" where
  "pt_protect_region G pt flags allow_unmapped vaddr sz s =
     (if sz = 0 then Some (Some (s, Inr ()))
      else case pt_protect G s pt vaddr flags of
        None \<Rightarrow> Some None
      | Some (s', Inr ps) \<Rightarrow>
          if \<not> page_is_aligned G ps vaddr \<or> \<not> page_bytes ps \<le> sz then Some None
          else pt_protect_region G pt flags allow_unmapped (usize_add vaddr (page_bytes ps)) (usize_sub sz (page_bytes ps)) s'
      | Some (s', Inl err) \<Rightarrow>
          if err = NotMapped \<and> allow_unmapped
          then pt_protect_region G pt flags allow_unmapped (usize_add vaddr (page_bytes Size4K)) (usize_sub sz (page_bytes Size4K)) s'
          else Some (Some (s', Inl err)))"

section \<open>The walk\<close>

text \<open>The walk is the list of the calls it makes; \<open>k\<close> is the number of levels below the table.\<close>

datatype 'p walk_event = PreVisit nat nat usize 'p | PostVisit nat nat usize 'p

fun walk_table ::
    "('p, 'h) paging \<Rightarrow> nat \<Rightarrow> (nat \<Rightarrow> 'p \<Rightarrow> 'p walk_event list \<times> (paging_error + unit)) \<Rightarrow> nat \<Rightarrow> nat \<Rightarrow> 'p list \<Rightarrow>
      'p walk_event list \<times> (paging_error + unit)" where
  "walk_table G limit visit n i [] = ([], Inr ())"
| "walk_table G limit visit n i (e # es) =
     (if is_present (pg_pte G) e then
        case visit i e of
          (evs, Inl err) \<Rightarrow> (evs, Inl err)
        | (evs, Inr _) \<Rightarrow>
            if n + 1 \<ge> limit then (evs, Inr ())
            else let (ws, r) = walk_table G limit visit (n + 1) (i + 1) es in (evs @ ws, r)
      else walk_table G limit visit n (i + 1) es)"

definition walk_visit ::
    "('p, 'h) paging \<Rightarrow> bool \<Rightarrow> bool \<Rightarrow> nat \<Rightarrow> usize \<Rightarrow> (usize \<Rightarrow> usize \<Rightarrow> 'p walk_event list \<times> (paging_error + unit)) \<Rightarrow>
      nat \<Rightarrow> 'p \<Rightarrow> 'p walk_event list \<times> (paging_error + unit)" where
  "walk_visit G pre post k start below i e =
     (let level = pg_levels G - 1 - k; vaddr = usize_add start (push_bit (12 + k * 9) i);
          before_evs = (if pre then [PreVisit level i vaddr e] else []);
          after_evs = (if post then [PostVisit level i vaddr e] else []) in
      if 0 < k \<and> \<not> is_huge (pg_pte G) e then
        case next_table G e of
          Inl err \<Rightarrow> (before_evs, Inl err)
        | Inr t \<Rightarrow> (case below t vaddr of
            (evs, Inl err) \<Rightarrow> (before_evs @ evs, Inl err)
          | (evs, Inr _) \<Rightarrow> (before_evs @ evs @ after_evs, Inr ()))
      else (before_evs @ after_evs, Inr ()))"

primrec walk_recursive ::
    "('p, 'h) paging \<Rightarrow> ('p, 'h, 'z) pt_state_scheme \<Rightarrow> nat \<Rightarrow> bool \<Rightarrow> bool \<Rightarrow> nat \<Rightarrow> usize \<Rightarrow> usize \<Rightarrow>
      'p walk_event list \<times> (paging_error + unit)" where
  "walk_recursive G s limit pre post 0 t start =
     walk_table G limit (walk_visit G pre post 0 start (\<lambda>_ _. ([], Inr ()))) 0 0 (pt_tables s t)"
| "walk_recursive G s limit pre post (Suc k) t start =
     walk_table G limit (walk_visit G pre post (Suc k) start (walk_recursive G s limit pre post k)) 0 0 (pt_tables s t)"

definition pt_walk ::
    "('p, 'h) paging \<Rightarrow> ('p, 'h, 'z) pt_state_scheme \<Rightarrow> page_table \<Rightarrow> nat \<Rightarrow> bool \<Rightarrow> bool \<Rightarrow>
      'p walk_event list \<times> (paging_error + unit)" where
  "pt_walk G s pt limit pre post = walk_recursive G s limit pre post (pg_levels G - 1) (root_paddr pt) 0"

section \<open>Mapping a region\<close>

text \<open>\<open>region_mapped\<close>: in \<open>[lo, hi)\<close> the map \<open>W\<close> consists of whole pages to the frames \<open>get_paddr\<close> names, elsewhere it is \<open>V\<close>.\<close>

definition in_page :: "addr_ops \<Rightarrow> (usize \<Rightarrow> usize) \<Rightarrow> mapping_flags \<Rightarrow> usize \<Rightarrow> usize \<Rightarrow> page_map \<Rightarrow> usize \<Rightarrow> bool" where
  "in_page A get_paddr fl lo hi W va \<longleftrightarrow> (\<exists>v ps. page_bytes ps dvd v \<and> v \<le> va \<and> va < v + page_bytes ps \<and> lo \<le> v \<and>
     v + page_bytes ps \<le> hi \<and> W va = Some (align_down A (get_paddr v) (page_bytes ps), fl, ps))"

lemma in_page_mono: "in_page A f fl lo hi W va \<Longrightarrow> lo' \<le> lo \<Longrightarrow> W va = W' va \<Longrightarrow> in_page A f fl lo' hi W' va"
  unfolding in_page_def by (metis order_trans)

lemma page_bytes_dvd: "4096 dvd page_bytes ps" "0 < page_bytes ps"
  by (cases ps; simp add: page_bytes_def)+

lemma same_page_aligned:
  assumes "page_bytes ps dvd v"
  shows "same_page ps v va \<longleftrightarrow> v \<le> va \<and> va < v + page_bytes ps"
proof -
  obtain q where q: "v = page_bytes ps * q" using assms by (elim dvdE)
  have "v div page_bytes ps = q" using page_bytes_dvd(2) by (simp add: q)
  then show ?thesis using div_iff [OF page_bytes_dvd(2), of va ps q] by (auto simp: same_page_def q mult.commute)
qed

context paging_laws
begin

lemma page_aligned_iff: "page_is_aligned G ps a \<longleftrightarrow> page_bytes ps dvd a"
  by (simp add: page_is_aligned_def page_bytes_level is_aligned mod_eq_0_iff_dvd)

lemma region_page_fits:
  assumes "4096 dvd va" "4096 dvd n" "0 < n"
  shows "page_bytes (region_page G h va pa n) \<le> n" "page_bytes (region_page G h va pa n) dvd va"
proof -
  have "4096 \<le> n" using assms(2,3) by (rule dvd_imp_le)
  then show "page_bytes (region_page G h va pa n) \<le> n" "page_bytes (region_page G h va pa n) dvd va"
    using assms(1) by (auto simp: region_page_def page_aligned_iff page_bytes_def)
qed

lemma map_region_loop_spec:
  "pt_valid G heap_inv live s pt \<Longrightarrow> 4096 dvd va \<Longrightarrow> 4096 dvd n \<Longrightarrow> va + n \<le> 2 ^ pg_va_bits G \<Longrightarrow>
    (\<And>v. va \<le> v \<Longrightarrow> v < va + n \<Longrightarrow> owned G pt v) \<Longrightarrow> leaf_ok flags \<Longrightarrow> (\<And>v. f v < 2 ^ pa_bits) \<Longrightarrow>
    \<exists>s' r. map_region_loop G pt f flags h va n s = Some (Some (s', r)) \<and> pt_becomes G heap_inv live s s' pt (page_view G s' pt) \<and>
      (\<forall>v. owned G pt v \<longrightarrow> (if va \<le> v \<and> v < va + n
         then r = Inr () \<longrightarrow> in_page (pg_addr G) f (stored flags) va (va + n) (page_view G s' pt) v
         else page_view G s' pt v = page_view G s pt v))"
proof (induction n arbitrary: va s rule: less_induct)
  case (less n)
  show ?case
  proof (cases "n = 0")
    case True
    then have "map_region_loop G pt f flags h va n s = Some (Some (s, Inr ()))" by (simp add: map_region_loop.simps)
    then show ?thesis using pt_becomes_refl [OF less.prems(1)] True by auto
  next
    case False
    define ps where "ps = region_page G h va (f va) n"
    let ?b = "page_bytes ps"
    have b: "?b \<le> n" "?b dvd va" "0 < ?b" "4096 dvd ?b"
      using region_page_fits [OF less.prems(2,3)] False page_bytes_dvd by (simp_all add: ps_def)
    have small: "va + n < usize_bound" using less.prems(4) va_bits levels by (auto simp: usize_bound_def)
    have own: "owned G pt va" using less.prems(5) [of va] False by simp
    obtain s1 r1 where m: "pt_map G s pt va (f va) ps flags = Some (s1, r1)"
      "case r1 of
        Inl err \<Rightarrow> pt_becomes G heap_inv live s s1 pt (page_view G s pt) \<and> (ps = Size4K \<longrightarrow> err = PtNoMemory \<or> page_view G s pt va \<noteq> None)
      | Inr _ \<Rightarrow> (\<forall>va'. owned G pt va' \<longrightarrow> same_page ps va va' \<longrightarrow> page_view G s pt va' = None) \<and>
          pt_becomes G heap_inv live s s1 pt (set_page ps va (Some (align_down (pg_addr G) (f va) ?b, stored flags, ps)) (page_view G s pt))"
      using map_spec [OF less.prems(1) own less.prems(6,7), of va ps] by blast
    show ?thesis
    proof (cases r1)
      case (Inl err)
      then have "map_region_loop G pt f flags h va n s = Some (Some (s1, Inl err))"
        using False m(1) by (simp add: map_region_loop.simps Let_def flip: ps_def)
      then show ?thesis using m(2) Inl by (auto simp: pt_becomes_def)
    next
      case (Inr u)
      have step: "map_region_loop G pt f flags h va n s = map_region_loop G pt f flags h (va + ?b) (n - ?b) s1"
        using False m(1) Inr b small by (subst map_region_loop.simps) (simp add: Let_def usize_add_id usize_sub_id flip: ps_def)
      note B = m(2) [unfolded Inr sum.case, THEN conjunct2]
      have v1: "pt_valid G heap_inv live s1 pt" using B by (simp add: pt_becomes_def)
      have end': "va + ?b + (n - ?b) = va + n" using b(1) by simp
      have "\<exists>s' r. map_region_loop G pt f flags h (va + ?b) (n - ?b) s1 = Some (Some (s', r)) \<and>
          pt_becomes G heap_inv live s1 s' pt (page_view G s' pt) \<and>
          (\<forall>v. owned G pt v \<longrightarrow> (if va + ?b \<le> v \<and> v < va + ?b + (n - ?b)
            then r = Inr () \<longrightarrow> in_page (pg_addr G) f (stored flags) (va + ?b) (va + ?b + (n - ?b)) (page_view G s' pt) v
            else page_view G s' pt v = page_view G s1 pt v))"
        using less.prems b False by (intro less.IH v1) (auto simp: dvd_diff_nat)
      then obtain s' r where R: "map_region_loop G pt f flags h (va + ?b) (n - ?b) s1 = Some (Some (s', r))"
        "pt_becomes G heap_inv live s1 s' pt (page_view G s' pt)"
        "\<And>v. owned G pt v \<Longrightarrow> if va + ?b \<le> v \<and> v < va + n
            then r = Inr () \<longrightarrow> in_page (pg_addr G) f (stored flags) (va + ?b) (va + n) (page_view G s' pt) v
            else page_view G s' pt v = page_view G s1 pt v"
        unfolding end' by blast
      have "if va \<le> v \<and> v < va + n then r = Inr () \<longrightarrow> in_page (pg_addr G) f (stored flags) va (va + n) (page_view G s' pt) v
          else page_view G s' pt v = page_view G s pt v" if o: "owned G pt v" for v
      proof -
        have V1: "page_view G s1 pt v = set_page ps va (Some (align_down (pg_addr G) (f va) ?b, stored flags, ps)) (page_view G s pt) v"
          using B o by (simp add: pt_becomes_def)
        consider "va + ?b \<le> v \<and> v < va + n" | "va \<le> v \<and> v < va + ?b" | "\<not> (va \<le> v \<and> v < va + n)" using b(1) by linarith
        then show ?thesis
        proof cases
          case 1
          then show ?thesis using R(3) [OF o] by (auto elim!: in_page_mono)
        next
          case 2
          then have "page_view G s' pt v = Some (align_down (pg_addr G) (f va) ?b, stored flags, ps)"
            using R(3) [OF o] V1 by (simp add: set_page_def same_page_aligned [OF b(2)])
          then have "in_page (pg_addr G) f (stored flags) va (va + n) (page_view G s' pt) v"
            unfolding in_page_def using 2 b by (intro exI [of _ va] exI [of _ ps]) simp
          then show ?thesis using 2 b(1) by simp
        next
          case 3
          then show ?thesis using R(3) [OF o] V1 b(1) by (auto simp: set_page_def same_page_aligned [OF b(2)])
        qed
      qed
      then show ?thesis using step R(1) pt_becomes_trans [OF B R(2)] by auto
    qed
  qed
qed

end

section \<open>Properties\<close>



end
