(* ===== verification/Frame.thy ===== *)
theory Frame
  imports Page_Region Errno
begin

text \<open>
  Counted physical frames (\<open>xcore/xmm/src/frame.rs\<close>). A \<open>Frame\<close> handle is its physical address. The machine
  state extends the store of page tables by the reference counts of the frame database and the
  bytes of physical memory; the page allocator is the heap of the page tables, since both draw from
  the same global allocator. \<open>None\<close> is a failed assertion or \<open>expect\<close>. The kernel supports one hart, so the
  atomic operations on a count are plain reads and writes.
\<close>

section \<open>Frame metadata\<close>

datatype frame_kind = AllocKind | StaticKind

definition kind_from_flags :: "mapping_flags \<Rightarrow> frame_kind" where
  "kind_from_flags flags = (if ALLOC_FRAME \<in> flags then AllocKind else StaticKind)"

definition kind_apply :: "frame_kind \<Rightarrow> mapping_flags \<Rightarrow> mapping_flags" where
  "kind_apply k flags = (case k of AllocKind \<Rightarrow> flags \<union> {ALLOC_FRAME} | StaticKind \<Rightarrow> flags - {ALLOC_FRAME})"

definition u32_max :: nat where
  "u32_max = 2 ^ 32 - 1"

definition meta_claim :: "nat \<Rightarrow> nat option" where
  "meta_claim c = (if c = 0 then Some 1 else None)"

definition meta_try_get :: "nat \<Rightarrow> nat option" where
  "meta_try_get c = (if c \<noteq> 0 \<and> c \<noteq> u32_max then Some (c + 1) else None)"

definition meta_put :: "nat \<Rightarrow> (bool \<times> nat) option" where
  "meta_put c = (if c = 0 then None else Some (c = 1, c - 1))"

definition meta_is_unique :: "nat \<Rightarrow> bool" where
  "meta_is_unique c \<longleftrightarrow> c = 1"

text \<open>The kernel: its page-table format and handler, the frame database (first frame and number of frames),
  the target architecture, the number of harts, and the page iterator of the address crate.\<close>

record ('p, 'h) kernel =
  k_pg :: "('p, 'h) paging"
  db_base :: usize
  db_frames :: usize
  k_riscv :: bool
  k_smp :: nat
  k_page_iter :: "usize \<Rightarrow> usize \<Rightarrow> usize \<Rightarrow> usize list option"

record ('p, 'h) machine = "('p, 'h) pt_state" +
  ref_count :: "usize \<Rightarrow> nat"
  phys_bytes :: "usize \<Rightarrow> 8 word"

definition db_metadata :: "('p, 'h) kernel \<Rightarrow> usize \<Rightarrow> bool" where
  "db_metadata K paddr =
     (case checked_sub paddr (db_base K) of
        None \<Rightarrow> False
      | Some off \<Rightarrow> off mod PAGE_SIZE_4K = 0 \<and> off div PAGE_SIZE_4K < db_frames K)"

text \<open>\<open>init_frame_database\<close>: a count is four bytes; the reserved prefix is a whole number of pages.\<close>

definition init_frame_database ::
    "bool \<Rightarrow> usize \<Rightarrow> usize \<Rightarrow> usize \<Rightarrow> ('p, 'h, 'z) machine_scheme \<Rightarrow> (('p, 'h, 'z) machine_scheme \<times> usize) option" where
  "init_frame_database initialized phys_size storage_start storage_size s =
     (let frame_count = phys_size div PAGE_SIZE_4K; metadata_bytes = frame_count * 4;
          reserved = (metadata_bytes + PAGE_SIZE_4K - 1) div PAGE_SIZE_4K * PAGE_SIZE_4K in
      if initialized \<or> frame_count = 0 \<or> metadata_bytes \<ge> usize_bound \<or> reserved \<ge> usize_bound then None
      else if \<not> reserved < storage_size \<or> storage_start mod 4 \<noteq> 0 then None
      else Some (s\<lparr>ref_count := (\<lambda>_. 0)\<rparr>, reserved))"

section \<open>Bytes of physical memory\<close>

definition put_bytes :: "usize \<Rightarrow> 8 word list \<Rightarrow> (usize \<Rightarrow> 8 word) \<Rightarrow> usize \<Rightarrow> 8 word" where
  "put_bytes a xs m = (\<lambda>b. if a \<le> b \<and> b < a + length xs then xs ! (b - a) else m b)"

definition get_bytes :: "usize \<Rightarrow> nat \<Rightarrow> (usize \<Rightarrow> 8 word) \<Rightarrow> 8 word list" where
  "get_bytes a n m = map m [a..<a + n]"

lemma get_put_same [simp]: "length xs = n \<Longrightarrow> get_bytes a n (put_bytes a xs m) = xs"
  by (intro nth_equalityI) (auto simp: get_bytes_def put_bytes_def)

lemma get_put_apart: "a + n \<le> b \<or> b + length xs \<le> a \<Longrightarrow> get_bytes a n (put_bytes b xs m) = get_bytes a n m"
  by (auto simp: get_bytes_def put_bytes_def)

lemma put_put_same: "length xs = length ys \<Longrightarrow> put_bytes a xs (put_bytes a ys m) = put_bytes a xs m"
  by (auto simp: put_bytes_def fun_eq_iff)

lemma length_get_bytes [simp]: "length (get_bytes a n m) = n"
  by (simp add: get_bytes_def)

lemma frames_apart:
  assumes "p mod 4096 = 0" "q mod 4096 = 0" "p \<noteq> (q::nat)"
  shows "p + 4096 \<le> q \<or> q + 4096 \<le> p"
  using aligned_below [of 4096 p q] aligned_below [of 4096 q p] assms by (cases "p < q") (auto simp: mod_eq_0_iff_dvd)

section \<open>Frame handles\<close>

definition release_reference ::
    "('p, 'h) kernel \<Rightarrow> usize \<Rightarrow> ('p, 'h, 'z) machine_scheme \<Rightarrow> ('p, 'h, 'z) machine_scheme option" where
  "release_reference K p s =
     (if \<not> db_metadata K p then None
      else case meta_put (ref_count s p) of
        None \<Rightarrow> None
      | Some (final, c) \<Rightarrow>
          let s' = s\<lparr>ref_count := (ref_count s)(p := c)\<rparr> in
          if final then map_option (\<lambda>h. s'\<lparr>pt_heap := h\<rparr>) (pg_dealloc (k_pg K) p (pt_heap s')) else Some s')"

definition frame_drop ::
    "('p, 'h) kernel \<Rightarrow> usize \<Rightarrow> ('p, 'h, 'z) machine_scheme \<Rightarrow> ('p, 'h, 'z) machine_scheme option" where
  "frame_drop K p s = release_reference K p s"

definition allocate_zeroed ::
    "('p, 'h) kernel \<Rightarrow> ('p, 'h, 'z) machine_scheme \<Rightarrow> (('p, 'h, 'z) machine_scheme \<times> usize option) option" where
  "allocate_zeroed K s =
     (case pg_alloc (k_pg K) (pt_heap s) of
        (None, h) \<Rightarrow> Some (s\<lparr>pt_heap := h\<rparr>, None)
      | (Some p, h) \<Rightarrow>
          if \<not> db_metadata K p then map_option (\<lambda>h'. (s\<lparr>pt_heap := h'\<rparr>, None)) (pg_dealloc (k_pg K) p h)
          else map_option (\<lambda>c. (s\<lparr>pt_heap := h, ref_count := (ref_count s)(p := c),
                                  phys_bytes := put_bytes p (replicate PAGE_SIZE_4K 0) (phys_bytes s)\<rparr>, Some p))
            (meta_claim (ref_count s p)))"

definition frame_clone ::
    "('p, 'h) kernel \<Rightarrow> usize \<Rightarrow> ('p, 'h, 'z) machine_scheme \<Rightarrow> ('p, 'h, 'z) machine_scheme option" where
  "frame_clone K p s =
     (if \<not> db_metadata K p then None
      else map_option (\<lambda>c. s\<lparr>ref_count := (ref_count s)(p := c)\<rparr>) (meta_try_get (ref_count s p)))"

definition frame_is_unique :: "('p, 'h) kernel \<Rightarrow> usize \<Rightarrow> ('p, 'h, 'z) machine_scheme \<Rightarrow> bool option" where
  "frame_is_unique K p s = (if \<not> db_metadata K p then None else Some (meta_is_unique (ref_count s p)))"

definition try_write_at ::
    "('p, 'h) kernel \<Rightarrow> usize \<Rightarrow> usize \<Rightarrow> 8 word list \<Rightarrow> ('p, 'h, 'z) machine_scheme \<Rightarrow> (('p, 'h, 'z) machine_scheme \<times> bool) option" where
  "try_write_at K p off source s =
     (case checked_add off (length source) of
        None \<Rightarrow> Some (s, False)
      | Some finish \<Rightarrow>
          if finish > PAGE_SIZE_4K then Some (s, False)
          else if \<not> db_metadata K p then None
          else if \<not> meta_is_unique (ref_count s p) then Some (s, False)
          else Some (s\<lparr>phys_bytes := put_bytes (p + off) source (phys_bytes s)\<rparr>, True))"

definition access_at :: "('p, 'h) kernel \<Rightarrow> usize \<Rightarrow> usize \<Rightarrow> usize \<Rightarrow> usize xresult" where
  "access_at K p off n =
     (if k_smp K \<noteq> 1 then Inl Unsupported
      else rbind (ok_or (checked_add off n) InvalidInput) (\<lambda>finish.
      if finish > PAGE_SIZE_4K then Inl InvalidInput else Inr (p + off)))"

definition frame_read_bytes :: "('p, 'h) kernel \<Rightarrow> usize \<Rightarrow> usize \<Rightarrow> nat \<Rightarrow> ('p, 'h, 'z) machine_scheme \<Rightarrow> 8 word list xresult" where
  "frame_read_bytes K p off n s = rbind (access_at K p off n) (\<lambda>source. Inr (get_bytes source n (phys_bytes s)))"

definition frame_write_bytes ::
    "('p, 'h) kernel \<Rightarrow> usize \<Rightarrow> usize \<Rightarrow> 8 word list \<Rightarrow> ('p, 'h, 'z) machine_scheme \<Rightarrow> ('p, 'h, 'z) machine_scheme \<times> unit xresult" where
  "frame_write_bytes K p off source s =
     (case access_at K p off (length source) of
        Inl err \<Rightarrow> (s, Inl err)
      | Inr destination \<Rightarrow> (s\<lparr>phys_bytes := put_bytes destination source (phys_bytes s)\<rparr>, Inr ()))"

definition deep_copy ::
    "('p, 'h) kernel \<Rightarrow> usize \<Rightarrow> ('p, 'h, 'z) machine_scheme \<Rightarrow> (('p, 'h, 'z) machine_scheme \<times> usize option) option" where
  "deep_copy K p s =
     map_option (\<lambda>(s', r). case r of
         None \<Rightarrow> (s', None)
       | Some copy \<Rightarrow> (s'\<lparr>phys_bytes := put_bytes copy (get_bytes p PAGE_SIZE_4K (phys_bytes s')) (phys_bytes s')\<rparr>, Some copy))
       (allocate_zeroed K s)"

definition clone_from_pte ::
    "('p, 'h) kernel \<Rightarrow> usize \<Rightarrow> ('p, 'h, 'z) machine_scheme \<Rightarrow> ('p, 'h, 'z) machine_scheme \<times> usize xresult" where
  "clone_from_pte K p s =
     (if \<not> db_metadata K p then (s, Inl BadAddress)
      else case meta_try_get (ref_count s p) of
        None \<Rightarrow> (s, Inl BadState)
      | Some c \<Rightarrow> (s\<lparr>ref_count := (ref_count s)(p := c)\<rparr>, Inr p))"

definition live_metadata :: "('p, 'h) kernel \<Rightarrow> usize \<Rightarrow> ('p, 'h, 'z) machine_scheme \<Rightarrow> nat xresult" where
  "live_metadata K p s =
     (if \<not> db_metadata K p then Inl BadAddress
      else if ref_count s p = 0 then Inl BadState else Inr (ref_count s p))"

definition pte_is_unique :: "('p, 'h) kernel \<Rightarrow> usize \<Rightarrow> ('p, 'h, 'z) machine_scheme \<Rightarrow> bool xresult" where
  "pte_is_unique K p s = rbind (live_metadata K p s) (\<lambda>c. Inr (meta_is_unique c))"

definition validate_pte :: "('p, 'h) kernel \<Rightarrow> usize \<Rightarrow> ('p, 'h, 'z) machine_scheme \<Rightarrow> unit xresult" where
  "validate_pte K p s = rbind (live_metadata K p s) (\<lambda>_. Inr ())"

definition take_from_pte :: "('p, 'h) kernel \<Rightarrow> usize \<Rightarrow> ('p, 'h, 'z) machine_scheme \<Rightarrow> usize xresult" where
  "take_from_pte K p s = rbind (validate_pte K p s) (\<lambda>_. Inr p)"

section \<open>Static frame ranges\<close>

record static_frames =
  sf_start :: usize
  sf_size :: usize
  sf_allowed :: mapping_flags

definition static_new :: "usize \<Rightarrow> usize \<Rightarrow> mapping_flags \<Rightarrow> static_frames xresult" where
  "static_new start n allowed =
     (if n = 0 \<or> checked_add start n = None then Inl InvalidInput
      else Inr \<lparr>sf_start = start, sf_size = n, sf_allowed = allowed - {USER} - {ALLOC_FRAME} - {PROT_NONE}\<rparr>)"

definition from_static_value :: "usize \<Rightarrow> usize \<Rightarrow> usize \<Rightarrow> mapping_flags \<Rightarrow> static_frames xresult" where
  "from_static_value off address n allowed =
     (if n = 0 \<or> address mod PAGE_SIZE_4K \<noteq> 0 \<or> n mod PAGE_SIZE_4K \<noteq> 0 then Inl InvalidInput
      else static_new (virt_to_phys off address) n allowed)"

definition static_allows :: "static_frames \<Rightarrow> mapping_flags \<Rightarrow> bool" where
  "static_allows f flags \<longleftrightarrow> flags - {USER} - {ALLOC_FRAME} - {PROT_NONE} \<subseteq> sf_allowed f"

definition static_subrange :: "static_frames \<Rightarrow> usize \<Rightarrow> usize \<Rightarrow> static_frames xresult" where
  "static_subrange f off n =
     rbind (ok_or (checked_add off n) InvalidInput) (\<lambda>finish.
     if n = 0 \<or> finish > sf_size f then Inl InvalidInput
     else rbind (ok_or (checked_add (sf_start f) off) InvalidInput) (\<lambda>start.
       Inr \<lparr>sf_start = start, sf_size = n, sf_allowed = sf_allowed f\<rparr>))"

section \<open>Ownership\<close>

text \<open>Every handle and every page-table entry with the allocated-frame bit owns one reference. \<open>own\<close> is the multiset of
  these owners. \<open>frame_inv\<close>: the counts of the database are the multiplicities of the owners, and owned frames are allocated.\<close>

definition frame_inv ::
    "('p, 'h) kernel \<Rightarrow> ('h \<Rightarrow> bool) \<Rightarrow> ('h \<Rightarrow> usize set) \<Rightarrow> usize multiset \<Rightarrow> ('p, 'h, 'z) machine_scheme \<Rightarrow> bool" where
  "frame_inv K hi lv own s \<longleftrightarrow> hi (pt_heap s) \<and> (\<forall>p. ref_count s p = count own p) \<and>
     (\<forall>p. p \<in># own \<longrightarrow> db_metadata K p \<and> p \<in> lv (pt_heap s) \<and> count own p \<le> u32_max)"

definition page_addrs :: "usize \<Rightarrow> usize \<Rightarrow> usize \<Rightarrow> usize list" where
  "page_addrs a b n = map (\<lambda>i. a + i * n) [0..<(b - a) div n]"

locale kernel_laws = paging_laws "k_pg K" pa_bits leaf_ok stored heap_inv live
  for K :: "('p, 'h) kernel" and pa_bits leaf_ok stored heap_inv live +
  assumes page_iter: "k_page_iter K a b (2 ^ k) =
    (if a mod 2 ^ k = 0 \<and> b mod 2 ^ k = 0 then Some (page_addrs a b (2 ^ k)) else None)"
begin

abbreviation finv :: "usize multiset \<Rightarrow> ('p, 'h, 'z) machine_scheme \<Rightarrow> bool" where
  "finv \<equiv> frame_inv K heap_inv live"

text \<open>What an operation on frames leaves alone.\<close>

lemma allocate_spec:
  assumes i: "finv own s"
  shows "\<exists>s' r. allocate_zeroed K s = Some (s', r) \<and> pt_tables s' = pt_tables s \<and> machine.more s' = machine.more s \<and>
    (case r of
      None \<Rightarrow> finv own s' \<and> live (pt_heap s') = live (pt_heap s) \<and> phys_bytes s' = phys_bytes s
    | Some p \<Rightarrow> finv (add_mset p own) s' \<and> p \<notin> live (pt_heap s) \<and> p \<notin># own \<and> frame_addr pa_bits p \<and>
        live (pt_heap s') = insert p (live (pt_heap s)) \<and>
        phys_bytes s' = put_bytes p (replicate PAGE_SIZE_4K 0) (phys_bytes s))"
proof -
  have h: "heap_inv (pt_heap s)" using i by (simp add: frame_inv_def)
  obtain x h' where al: "pg_alloc (k_pg K) (pt_heap s) = (x, h')" by (cases "pg_alloc (k_pg K) (pt_heap s)")
  show ?thesis
  proof (cases x)
    case None
    then show ?thesis using alloc_None [OF h, of h'] i al by (auto simp: allocate_zeroed_def frame_inv_def)
  next
    case (Some p)
    note A = alloc_Some [OF h al [unfolded Some]]
    show ?thesis
    proof (cases "db_metadata K p")
      case False
      obtain h'' where "pg_dealloc (k_pg K) p h' = Some h''" "heap_inv h''" "live h'' = live h' - {p}"
        using dealloc [of h' p] A by auto
      then show ?thesis using A al Some False i by (auto simp: allocate_zeroed_def frame_inv_def)
    next
      case True
      have p: "p \<notin># own" using i A by (auto simp: frame_inv_def)
      then have "ref_count s p = 0" "count own p = 0" using i by (simp_all add: frame_inv_def count_eq_zero_iff)
      then show ?thesis using A al Some True p i
        by (auto simp: allocate_zeroed_def meta_claim_def frame_inv_def u32_max_def)
    qed
  qed
qed

lemma clone_spec:
  assumes i: "finv own s" and p: "p \<in># own" "count own p < u32_max"
  shows "\<exists>s'. frame_clone K p s = Some s' \<and> clone_from_pte K p s = (s', Inr p) \<and> finv (add_mset p own) s' \<and>
    s' = s\<lparr>ref_count := (ref_count s)(p := Suc (ref_count s p))\<rparr>"
  using assms by (auto simp: frame_clone_def clone_from_pte_def meta_try_get_def frame_inv_def)

lemma release_spec:
  assumes i: "finv own s" and p: "p \<in># own"
  shows "\<exists>s'. frame_drop K p s = Some s' \<and> finv (own - {#p#}) s' \<and> pt_tables s' = pt_tables s \<and> phys_bytes s' = phys_bytes s \<and>
    machine.more s' = machine.more s \<and>
    live (pt_heap s') = (if count own p = 1 then live (pt_heap s) - {p} else live (pt_heap s))"
proof -
  have f: "heap_inv (pt_heap s)" "db_metadata K p" "p \<in> live (pt_heap s)" "ref_count s p = count own p" "count own p \<noteq> 0"
    using i p by (auto simp: frame_inv_def)
  have cnt: "q \<in># own - {#p#} \<Longrightarrow> q \<in># own \<and> count (own - {#p#}) q \<le> count own q" for q by (auto dest: in_diffD)
  show ?thesis
  proof (cases "count own p = 1")
    case True
    obtain h' where h': "pg_dealloc (k_pg K) p (pt_heap s) = Some h'" "heap_inv h'" "live h' = live (pt_heap s) - {p}"
      using dealloc [OF f(1,3)] by blast
    have "p \<notin># own - {#p#}" using True by (simp add: not_in_iff)
    then have ne: "q \<in># own - {#p#} \<Longrightarrow> q \<noteq> p" for q by auto
    show ?thesis using f True h' i
      by (auto simp: frame_drop_def release_reference_def meta_put_def Let_def frame_inv_def dest: ne cnt intro: order_trans)
  next
    case False
    then show ?thesis using f i
      by (auto simp: frame_drop_def release_reference_def meta_put_def Let_def frame_inv_def dest: cnt intro: order_trans)
  qed
qed

lemma deep_copy_spec:
  assumes i: "finv own s"
  shows "\<exists>s' r. deep_copy K p s = Some (s', r) \<and> pt_tables s' = pt_tables s \<and> machine.more s' = machine.more s \<and>
    (case r of
      None \<Rightarrow> finv own s' \<and> live (pt_heap s') = live (pt_heap s) \<and> phys_bytes s' = phys_bytes s
    | Some q \<Rightarrow> finv (add_mset q own) s' \<and> q \<notin> live (pt_heap s) \<and> q \<notin># own \<and> frame_addr pa_bits q \<and>
        live (pt_heap s') = insert q (live (pt_heap s)) \<and>
        (q \<noteq> p \<longrightarrow> p mod 4096 = 0 \<longrightarrow> phys_bytes s' = put_bytes q (get_bytes p PAGE_SIZE_4K (phys_bytes s)) (phys_bytes s)))"
proof -
  obtain s1 r where a: "allocate_zeroed K s = Some (s1, r)" "pt_tables s1 = pt_tables s" "machine.more s1 = machine.more s"
    "case r of
      None \<Rightarrow> finv own s1 \<and> live (pt_heap s1) = live (pt_heap s) \<and> phys_bytes s1 = phys_bytes s
    | Some p \<Rightarrow> finv (add_mset p own) s1 \<and> p \<notin> live (pt_heap s) \<and> p \<notin># own \<and> frame_addr pa_bits p \<and>
        live (pt_heap s1) = insert p (live (pt_heap s)) \<and>
        phys_bytes s1 = put_bytes p (replicate PAGE_SIZE_4K 0) (phys_bytes s)"
    using allocate_spec [OF i] by blast
  show ?thesis
  proof (cases r)
    case None
    then show ?thesis using a by (auto simp: deep_copy_def)
  next
    case (Some q)
    have "get_bytes p PAGE_SIZE_4K (phys_bytes s1) = get_bytes p PAGE_SIZE_4K (phys_bytes s)" if "q \<noteq> p" "p mod 4096 = 0"
    proof -
      have "p + 4096 \<le> q \<or> q + 4096 \<le> p" using that a(4) Some by (intro frames_apart) (auto simp: frame_addr_def)
      then show ?thesis using a(4) Some by (simp add: get_put_apart PAGE_SIZE_4K_def)
    qed
    then show ?thesis using a Some by (auto simp: deep_copy_def frame_inv_def put_put_same)
  qed
qed

end

section \<open>The life of frames\<close>

text \<open>The operations that change owners, as steps on the owners and the machine: allocation, copying, cloning, dropping. Moving a
  reference between a handle and a page-table entry (\<open>into_pte\<close>, \<open>take_from_pte\<close>) changes no count. A clone past
  \<open>u32::MAX\<close> owners panics, so a step never makes one.\<close>

inductive frame_step :: "('p, 'h) kernel \<Rightarrow> usize multiset \<times> ('p, 'h) machine \<Rightarrow> usize multiset \<times> ('p, 'h) machine \<Rightarrow> bool"
  for K :: "('p, 'h) kernel" where
  allocate: "allocate_zeroed K s = Some (s', Some p) \<Longrightarrow> frame_step K (own, s) (add_mset p own, s')"
| allocate_fails: "allocate_zeroed K s = Some (s', None) \<Longrightarrow> frame_step K (own, s) (own, s')"
| copy: "deep_copy K p s = Some (s', Some q) \<Longrightarrow> frame_step K (own, s) (add_mset q own, s')"
| copy_fails: "deep_copy K p s = Some (s', None) \<Longrightarrow> frame_step K (own, s) (own, s')"
| clone: "p \<in># own \<Longrightarrow> frame_clone K p s = Some s' \<Longrightarrow> frame_step K (own, s) (add_mset p own, s')"
| drop: "p \<in># own \<Longrightarrow> frame_drop K p s = Some s' \<Longrightarrow> frame_step K (own, s) (own - {#p#}, s')"
| wr: "p \<in># own \<Longrightarrow> frame_write_bytes K p off xs s = (s', r) \<Longrightarrow> frame_step K (own, s) (own, s')"
| try_wr: "p \<in># own \<Longrightarrow> try_write_at K p off xs s = Some (s', b) \<Longrightarrow> frame_step K (own, s) (own, s')"

inductive_cases frame_stepE: "frame_step K x y"

context kernel_laws
begin

lemma frame_step_inv:
  assumes "frame_step K (own, s) (own', s')" and i: "finv own s"
  shows "finv own' s'"
  using assms(1)
proof (cases rule: frame_step.cases)
  case (allocate p)
  then show ?thesis using allocate_spec [OF i] by auto
next
  case allocate_fails
  then show ?thesis using allocate_spec [OF i] by auto
next
  case (copy p q)
  then show ?thesis using deep_copy_spec [OF i, of p] by auto
next
  case (copy_fails p)
  then show ?thesis using deep_copy_spec [OF i, of p] by auto
next
  case (clone p)
  then have "count own p < u32_max"
    using i by (auto simp: frame_clone_def meta_try_get_def frame_inv_def split: if_splits intro: le_neq_implies_less)
  then show ?thesis using clone_spec [OF i, of p] clone by auto
next
  case (drop p)
  then show ?thesis using release_spec [OF i, of p] by auto
next
  case (wr p off xs r)
  then show ?thesis using i by (auto simp: frame_write_bytes_def frame_inv_def split: sum.splits)
next
  case (try_wr p off xs b)
  then show ?thesis using i by (auto simp: try_write_at_def frame_inv_def split: option.splits if_splits)
qed

lemma frame_run_inv: "(frame_step K)\<^sup>*\<^sup>* (own, s) (own', s') \<Longrightarrow> finv own s \<Longrightarrow> finv own' s'"
  by (induction rule: rtranclp_induct2) (auto intro: frame_step_inv)

end

section \<open>Properties\<close>

text \<open>C13: frame ownership. Over every sequence of allocations, copies, clones, drops and writes from a state without
  frames, the count of each frame is the number of its owners; every owned frame stays allocated, dropping an owned
  reference never fails, and it returns the frame to the allocator exactly when it was the last one.\<close>

theorem frame_counts_exact:
  assumes "kernel_laws K pa_bits leaf_ok stored hi lv" and "frame_inv K hi lv {#} s0"
    and "(frame_step K)\<^sup>*\<^sup>* ({#}, s0) (own, s)"
  shows "(\<forall>p. ref_count s p = count own p) \<and> set_mset own \<subseteq> lv (pt_heap s) \<and>
    (\<forall>p. p \<in># own \<longrightarrow> (\<exists>s'. frame_drop K p s = Some s' \<and>
       lv (pt_heap s') = (if count own p = 1 then lv (pt_heap s) - {p} else lv (pt_heap s))))"
proof -
  have i: "frame_inv K hi lv own s" by (rule kernel_laws.frame_run_inv [OF assms(1,3,2)])
  then show ?thesis using kernel_laws.release_spec [OF assms(1) i] by (fastforce simp: frame_inv_def)
qed

section \<open>Concrete instances\<close>

definition demo_K :: "(64 word, nat list page_allocator) kernel" where
  "demo_K = \<lparr>k_pg = demo_G, db_base = 0x80000000, db_frames = 8, k_riscv = True, k_smp = 1,
     k_page_iter = (\<lambda>a b n. if a mod n = 0 \<and> b mod n = 0 then Some (page_addrs a b n) else None)\<rparr>"

definition demo_m :: "(64 word, nat list page_allocator) machine" where
  "demo_m = \<lparr>pt_tables = (\<lambda>_. []), pt_heap = demo_pages, ref_count = (\<lambda>_. 0), phys_bytes = (\<lambda>_. 0)\<rparr>"

interpretation demo_K: kernel_laws demo_K 56 rv_leaf_ok rv_stored demo_inv demo_live
proof -
  have "paging_laws (k_pg demo_K) 56 rv_leaf_ok rv_stored demo_inv demo_live" by (simp add: demo_K_def demo_laws)
  moreover have "kernel_laws_axioms demo_K" by (simp add: kernel_laws_axioms_def demo_K_def)
  ultimately show "kernel_laws demo_K 56 rv_leaf_ok rv_stored demo_inv demo_live" by (rule kernel_laws.intro)
qed

lemma demo_m_inv: "frame_inv demo_K demo_inv demo_live {#} demo_m"
  using demo_pages_inv by (simp add: frame_inv_def demo_m_def)

definition demo_m1 :: "(64 word, nat list page_allocator) machine" where
  "demo_m1 = fst (the (allocate_zeroed demo_K demo_m))"

lemma demo_allocate: "allocate_zeroed demo_K demo_m = Some (demo_m1, Some 0x80001000)"
proof -
  have "\<exists>s'. allocate_zeroed demo_K demo_m = Some (s', Some 0x80001000)"
    by (simp add: allocate_zeroed_def demo_K_def demo_m_def demo_G_def sv39_def handler_alloc_frame_def
        alloc_pages_def demo_pages_def std_bits_def index_address_def MAX_ALIGN_1GB_def page_alignment PAGE_SIZE_4K_def
        is_power_of_two_power [of 0, simplified] virt_to_phys_def usize_sub_def usize_bound_def db_metadata_def checked_sub_def meta_claim_def)
  then show ?thesis by (auto simp: demo_m1_def)
qed

lemma demo_run: "(frame_step demo_K)\<^sup>*\<^sup>* ({#}, demo_m) ({#0x80001000#}, demo_m1)"
  using frame_step.allocate [OF demo_allocate, of "{#}"] by blast

theorem frame_counts_exact_witness:
  "ref_count demo_m1 0x80001000 = 1 \<and> (\<exists>s'. frame_drop demo_K 0x80001000 demo_m1 = Some s' \<and>
     demo_live (pt_heap s') = demo_live (pt_heap demo_m1) - {0x80001000})"
  using frame_counts_exact [OF demo_K.kernel_laws_axioms demo_m_inv demo_run] by auto

end
