(* ===== verification/Address_Space.thy ===== *)
theory Address_Space
  imports Frame
begin

text \<open>
  One hardware address space (\<open>xcore/xmm/src/aspace.rs\<close>): a page table, the range of addresses it may map, and the frames its
  entries own. Operations take the machine and return it with a result; \<open>None\<close> is a failed assertion or
  \<open>expect\<close>. A \<open>Frame\<close> argument that an early return drops is dropped explicitly.
\<close>

type_synonym ('p, 'h, 'z, 'a) mstep = "(('p, 'h, 'z) machine_scheme \<times> 'a) option"

record aspace =
  as_range :: va_range
  as_pt :: page_table

section \<open>Flags and errors\<close>

definition has_leaf_access :: "mapping_flags \<Rightarrow> bool" where
  "has_leaf_access flags \<longleftrightarrow> flags \<inter> {READ, WRITE, EXECUTE} \<noteq> {}"

definition pte_flags :: "('p, 'h) kernel \<Rightarrow> frame_kind \<Rightarrow> mapping_flags \<Rightarrow> mapping_flags xresult" where
  "pte_flags K kind flags =
     (let flags = kind_apply kind (flags - {PROT_NONE}) in
      if \<not> has_leaf_access flags then Inr (flags \<union> {PROT_NONE})
      else if k_riscv K \<and> flags \<inter> {READ, EXECUTE} = {} then Inl InvalidInput
      else Inr flags)"

definition xpaging_error :: "paging_error \<Rightarrow> xerror" where
  "xpaging_error e =
     (case e of PtNoMemory \<Rightarrow> NoMemory | AlreadyMapped \<Rightarrow> AlreadyExists | NotMapped \<Rightarrow> BadAddress
      | NotAligned \<Rightarrow> InvalidInput | MappedToHugePage \<Rightarrow> InvalidInput)"

abbreviation k_addr :: "('p, 'h) kernel \<Rightarrow> addr_ops" where
  "k_addr K \<equiv> pg_addr (k_pg K)"

definition page_iter :: "('p, 'h) kernel \<Rightarrow> usize \<Rightarrow> usize \<Rightarrow> page_size \<Rightarrow> usize list option" where
  "page_iter K start finish ps = k_page_iter K start finish (page_bytes ps)"

section \<open>Construction\<close>

definition as_contains_range :: "('p, 'h) kernel \<Rightarrow> aspace \<Rightarrow> usize \<Rightarrow> usize \<Rightarrow> bool" where
  "as_contains_range K a start n =
     (case try_from_start_size (k_addr K) start n of
        None \<Rightarrow> False
      | Some r \<Rightarrow> contains_range (k_addr K) (as_range a) r)"

definition as_new_empty ::
    "('p, 'h) kernel \<Rightarrow> usize \<Rightarrow> usize \<Rightarrow> ('p, 'h, 'z) machine_scheme \<Rightarrow> ('p, 'h, 'z) machine_scheme \<times> aspace xresult" where
  "as_new_empty K base n s =
     (case try_from_start_size (k_addr K) base n of
        None \<Rightarrow> (s, Inl InvalidInput)
      | Some r \<Rightarrow>
          (case pt_try_new (k_pg K) s of
             (s', Inl err) \<Rightarrow> (s', Inl (xpaging_error err))
           | (s', Inr pt) \<Rightarrow> (s', Inr \<lparr>as_range = r, as_pt = pt\<rparr>)))"

definition as_new_user ::
    "('p, 'h) kernel \<Rightarrow> usize \<Rightarrow> usize \<Rightarrow> ('p, 'h, 'z) machine_scheme \<Rightarrow> ('p, 'h, 'z) machine_scheme \<times> aspace xresult" where
  "as_new_user K base n s = (if k_smp K \<noteq> 1 then (s, Inl Unsupported) else as_new_empty K base n s)"

definition has_alloc_leaf :: "leaf_visit list \<Rightarrow> bool" where
  "has_alloc_leaf vs = list_ex (\<lambda>(_, _, flags, _). kind_from_flags flags = AllocKind) vs"

definition copy_static_mappings_from ::
    "('p, 'h) kernel \<Rightarrow> aspace \<Rightarrow> aspace \<Rightarrow> ('p, 'h, 'z) machine_scheme \<Rightarrow> ('p, 'h, 'z, aspace \<times> unit xresult) mstep" where
  "copy_static_mappings_from K a other s =
     (if overlaps (k_addr K) (as_range a) (as_range other) then Some (s, a, Inl InvalidInput)
      else case walk_leaf_range (k_pg K) s (as_pt other) (va_start (as_range other)) (range_size (k_addr K) (as_range other)) of
        (_, Inl err) \<Rightarrow> Some (s, a, Inl (xpaging_error err))
      | (vs, Inr _) \<Rightarrow>
          if has_alloc_leaf vs then Some (s, a, Inl BadState)
          else map_option (\<lambda>(s', pt'). (s', a\<lparr>as_pt := pt'\<rparr>, Inr ()))
            (pt_copy_from (k_pg K) s (as_pt a) (as_pt other) (va_start (as_range other)) (range_size (k_addr K) (as_range other))))"

definition validate_range :: "('p, 'h) kernel \<Rightarrow> aspace \<Rightarrow> usize \<Rightarrow> usize \<Rightarrow> page_size \<Rightarrow> unit xresult" where
  "validate_range K a start n ps =
     (if n = 0 \<or> \<not> is_aligned (k_addr K) start (page_bytes ps) \<or> \<not> is_aligned (k_addr K) n (page_bytes ps) \<or>
        \<not> as_contains_range K a start n
      then Inl InvalidInput else Inr ())"

section \<open>Mapping\<close>

fun remove_installed ::
    "('p, 'h) kernel \<Rightarrow> page_table \<Rightarrow> usize list \<Rightarrow> ('p, 'h, 'z) machine_scheme \<Rightarrow> ('p, 'h, 'z) machine_scheme option" where
  "remove_installed K pt [] s = Some s"
| "remove_installed K pt (x # xs) s =
     (case pt_unmap (k_pg K) s pt x of (s', Inl _) \<Rightarrow> None | (s', Inr _) \<Rightarrow> remove_installed K pt xs s')"

fun map_static_pages ::
    "('p, 'h) kernel \<Rightarrow> page_table \<Rightarrow> usize \<Rightarrow> usize \<Rightarrow> page_size \<Rightarrow> mapping_flags \<Rightarrow> usize list \<Rightarrow> ('p, 'h, 'z) machine_scheme \<Rightarrow>
      ('p, 'h, 'z, unit xresult) mstep" where
  "map_static_pages K pt start phys ps flags [] s = Some (s, Inr ())"
| "map_static_pages K pt start phys ps flags (x # xs) s =
     (case pt_map (k_pg K) s pt x (usize_add phys (usize_sub x start)) ps flags of
        None \<Rightarrow> None
      | Some (s', Inr _) \<Rightarrow> map_static_pages K pt start phys ps flags xs s'
      | Some (s', Inl err) \<Rightarrow>
          (case page_iter K start x ps of
             None \<Rightarrow> None
           | Some installed \<Rightarrow> map_option (\<lambda>s''. (s'', Inl (xpaging_error err))) (remove_installed K pt installed s')))"

definition map_static_range ::
    "('p, 'h) kernel \<Rightarrow> aspace \<Rightarrow> usize \<Rightarrow> static_frames \<Rightarrow> mapping_flags \<Rightarrow> page_size \<Rightarrow> ('p, 'h, 'z) machine_scheme \<Rightarrow>
      ('p, 'h, 'z, unit xresult) mstep" where
  "map_static_range K a start frames flags ps s =
     (case validate_range K a start (sf_size frames) ps of
        Inl err \<Rightarrow> Some (s, Inl err)
      | Inr _ \<Rightarrow>
          if \<not> is_aligned (k_addr K) (sf_start frames) (page_bytes ps) \<or> \<not> static_allows frames flags then Some (s, Inl InvalidInput)
          else case checked_add start (sf_size frames) of
            None \<Rightarrow> Some (s, Inl InvalidInput)
          | Some finish \<Rightarrow>
              (case page_iter K start finish ps of
                 None \<Rightarrow> Some (s, Inl InvalidInput)
               | Some pages \<Rightarrow>
                   if list_ex (\<lambda>x. is_ok (pt_query (k_pg K) s (as_pt a) x)) pages then Some (s, Inl AlreadyExists)
                   else case pte_flags K StaticKind flags of
                     Inl err \<Rightarrow> Some (s, Inl err)
                   | Inr flags' \<Rightarrow> map_static_pages K (as_pt a) start (sf_start frames) ps flags' pages s))"

definition drop_and_fail ::
    "('p, 'h) kernel \<Rightarrow> usize \<Rightarrow> xerror \<Rightarrow> ('p, 'h, 'z) machine_scheme \<Rightarrow> ('p, 'h, 'z, unit xresult) mstep" where
  "drop_and_fail K frame err s = map_option (\<lambda>s'. (s', Inl err)) (frame_drop K frame s)"

definition map_frame ::
    "('p, 'h) kernel \<Rightarrow> aspace \<Rightarrow> usize \<Rightarrow> usize \<Rightarrow> mapping_flags \<Rightarrow> ('p, 'h, 'z) machine_scheme \<Rightarrow> ('p, 'h, 'z, unit xresult) mstep" where
  "map_frame K a address frame flags s =
     (case validate_range K a address (page_bytes Size4K) Size4K of
        Inl err \<Rightarrow> drop_and_fail K frame err s
      | Inr _ \<Rightarrow>
          if is_ok (pt_query (k_pg K) s (as_pt a) address) then drop_and_fail K frame AlreadyExists s
          else case pte_flags K AllocKind flags of
            Inl err \<Rightarrow> drop_and_fail K frame err s
          | Inr flags' \<Rightarrow>
              (case pt_map (k_pg K) s (as_pt a) address frame Size4K flags' of
                 None \<Rightarrow> None
               | Some (s', Inl err) \<Rightarrow> drop_and_fail K frame (xpaging_error err) s'
               | Some (s', Inr _) \<Rightarrow> Some (s', Inr ())))"

definition replace_frame ::
    "('p, 'h) kernel \<Rightarrow> aspace \<Rightarrow> usize \<Rightarrow> usize \<Rightarrow> usize \<Rightarrow> mapping_flags \<Rightarrow> ('p, 'h, 'z) machine_scheme \<Rightarrow> ('p, 'h, 'z, unit xresult) mstep" where
  "replace_frame K a addr expected replacement flags s =
     (let address = align_down (k_addr K) addr (page_bytes Size4K) in
      case pt_query (k_pg K) s (as_pt a) address of
        Inl err \<Rightarrow> drop_and_fail K replacement (xpaging_error err) s
      | Inr (mapped, current_flags, ps) \<Rightarrow>
          if mapped \<noteq> expected \<or> ps \<noteq> Size4K \<or> ALLOC_FRAME \<notin> current_flags then drop_and_fail K replacement BadState s
          else case pte_flags K AllocKind flags of
            Inl err \<Rightarrow> drop_and_fail K replacement err s
          | Inr flags' \<Rightarrow>
              (case pt_remap (k_pg K) s (as_pt a) address replacement flags' of
                 None \<Rightarrow> None
               | Some (s', Inl err) \<Rightarrow> drop_and_fail K replacement (xpaging_error err) s'
               | Some (s', Inr _) \<Rightarrow>
                   (case take_from_pte K mapped s' of
                      Inl _ \<Rightarrow> None
                    | Inr old \<Rightarrow> map_option (\<lambda>s''. (s'', Inr ())) (frame_drop K old s'))))"

section \<open>Unmapping and protecting\<close>

definition preflight_error ::
    "('p, 'h) kernel \<Rightarrow> ('p, 'h, 'z) machine_scheme \<Rightarrow> usize \<Rightarrow> usize \<Rightarrow> frame_kind \<Rightarrow> page_size \<Rightarrow> leaf_visit \<Rightarrow> xerror option" where
  "preflight_error K s start finish kind expected v =
     (let (address, physical, flags, ps) = v in
      case checked_add address (page_bytes ps) of
        None \<Rightarrow> Some InvalidInput
      | Some leaf_end \<Rightarrow>
          if address < start \<or> leaf_end > finish then Some InvalidInput
          else if kind_from_flags flags \<noteq> kind \<or> ps \<noteq> expected then Some BadState
          else if kind = AllocKind then (case validate_pte K physical s of Inl err \<Rightarrow> Some err | Inr _ \<Rightarrow> None)
          else None)"

text \<open>The visitor overwrites an earlier error, so the last one is reported.\<close>

definition preflight_range ::
    "('p, 'h) kernel \<Rightarrow> aspace \<Rightarrow> usize \<Rightarrow> usize \<Rightarrow> frame_kind \<Rightarrow> page_size \<Rightarrow> ('p, 'h, 'z) machine_scheme \<Rightarrow> nat xresult" where
  "preflight_range K a start n kind ps s =
     rbind (validate_range K a start n ps) (\<lambda>_.
     rbind (ok_or (checked_add start n) InvalidInput) (\<lambda>finish.
     case walk_leaf_range (k_pg K) s (as_pt a) start n of
       (_, Inl err) \<Rightarrow> Inl (xpaging_error err)
     | (vs, Inr _) \<Rightarrow>
         (case fold (\<lambda>v e. case preflight_error K s start finish kind ps v of None \<Rightarrow> e | Some e' \<Rightarrow> Some e') vs None of
            Some err \<Rightarrow> Inl err
          | None \<Rightarrow> Inr (length vs))))"

fun unmap_pages ::
    "('p, 'h) kernel \<Rightarrow> page_table \<Rightarrow> frame_kind \<Rightarrow> page_size \<Rightarrow> usize list \<Rightarrow> ('p, 'h, 'z) machine_scheme \<Rightarrow>
      ('p, 'h, 'z) machine_scheme option" where
  "unmap_pages K pt kind ps [] s = Some s"
| "unmap_pages K pt kind ps (x # xs) s =
     (case pt_unmap (k_pg K) s pt x of
        (s', Inr (physical, actual)) \<Rightarrow>
          if actual \<noteq> ps then None
          else if kind = AllocKind then
            (case take_from_pte K physical s' of
               Inl _ \<Rightarrow> None
             | Inr old \<Rightarrow> Option.bind (frame_drop K old s') (unmap_pages K pt kind ps xs))
          else unmap_pages K pt kind ps xs s'
      | (s', Inl err) \<Rightarrow> if err = NotMapped then unmap_pages K pt kind ps xs s' else None)"

definition unmap_range ::
    "('p, 'h) kernel \<Rightarrow> aspace \<Rightarrow> usize \<Rightarrow> usize \<Rightarrow> frame_kind \<Rightarrow> page_size \<Rightarrow> ('p, 'h, 'z) machine_scheme \<Rightarrow> ('p, 'h, 'z, unit xresult) mstep" where
  "unmap_range K a start n kind ps s =
     (case preflight_range K a start n kind ps s of
        Inl err \<Rightarrow> Some (s, Inl err)
      | Inr _ \<Rightarrow>
          (case checked_add start n of
             None \<Rightarrow> Some (s, Inl InvalidInput)
           | Some finish \<Rightarrow>
               (case page_iter K start finish ps of
                  None \<Rightarrow> Some (s, Inl InvalidInput)
                | Some pages \<Rightarrow> map_option (\<lambda>s'. (s', Inr ())) (unmap_pages K (as_pt a) kind ps pages s))))"

definition unmap_static_range ::
    "('p, 'h) kernel \<Rightarrow> aspace \<Rightarrow> usize \<Rightarrow> usize \<Rightarrow> page_size \<Rightarrow> ('p, 'h, 'z) machine_scheme \<Rightarrow> ('p, 'h, 'z, unit xresult) mstep" where
  "unmap_static_range K a start n ps s = unmap_range K a start n StaticKind ps s"

definition unmap_alloc_range ::
    "('p, 'h) kernel \<Rightarrow> aspace \<Rightarrow> usize \<Rightarrow> usize \<Rightarrow> ('p, 'h, 'z) machine_scheme \<Rightarrow> ('p, 'h, 'z, unit xresult) mstep" where
  "unmap_alloc_range K a start n s = unmap_range K a start n AllocKind Size4K s"

definition validate_alloc_range ::
    "('p, 'h) kernel \<Rightarrow> aspace \<Rightarrow> usize \<Rightarrow> usize \<Rightarrow> ('p, 'h, 'z) machine_scheme \<Rightarrow> unit xresult" where
  "validate_alloc_range K a start n s = rbind (preflight_range K a start n AllocKind Size4K s) (\<lambda>_. Inr ())"

fun protect_pages ::
    "('p, 'h) kernel \<Rightarrow> page_table \<Rightarrow> mapping_flags \<Rightarrow> usize list \<Rightarrow> ('p, 'h, 'z) machine_scheme \<Rightarrow> ('p, 'h, 'z) machine_scheme option" where
  "protect_pages K pt flags [] s = Some s"
| "protect_pages K pt flags (x # xs) s =
     (case pt_protect (k_pg K) s pt x flags of
        None \<Rightarrow> None
      | Some (s', Inr actual) \<Rightarrow> if actual \<noteq> Size4K then None else protect_pages K pt flags xs s'
      | Some (s', Inl err) \<Rightarrow> if err = NotMapped then protect_pages K pt flags xs s' else None)"

definition as_protect_alloc_range ::
    "('p, 'h) kernel \<Rightarrow> aspace \<Rightarrow> usize \<Rightarrow> usize \<Rightarrow> mapping_flags \<Rightarrow> ('p, 'h, 'z) machine_scheme \<Rightarrow> ('p, 'h, 'z, unit xresult) mstep" where
  "as_protect_alloc_range K a start n flags s =
     (case preflight_range K a start n AllocKind Size4K s of
        Inl err \<Rightarrow> Some (s, Inl err)
      | Inr _ \<Rightarrow>
          (case pte_flags K AllocKind flags of
             Inl err \<Rightarrow> Some (s, Inl err)
           | Inr flags' \<Rightarrow>
               (case checked_add start n of
                  None \<Rightarrow> Some (s, Inl InvalidInput)
                | Some finish \<Rightarrow>
                    (case page_iter K start finish Size4K of
                       None \<Rightarrow> Some (s, Inl InvalidInput)
                     | Some pages \<Rightarrow> map_option (\<lambda>s'. (s', Inr ())) (protect_pages K (as_pt a) flags' pages s)))))"

definition protect_alloc_page ::
    "('p, 'h) kernel \<Rightarrow> aspace \<Rightarrow> usize \<Rightarrow> mapping_flags \<Rightarrow> ('p, 'h, 'z) machine_scheme \<Rightarrow> ('p, 'h, 'z, unit xresult) mstep" where
  "protect_alloc_page K a address flags s =
     as_protect_alloc_range K a (align_down (k_addr K) address (page_bytes Size4K)) (page_bytes Size4K) flags s"

section \<open>Looking at mappings\<close>

definition frame_if_shared ::
    "('p, 'h) kernel \<Rightarrow> aspace \<Rightarrow> usize \<Rightarrow> ('p, 'h, 'z) machine_scheme \<Rightarrow> ('p, 'h, 'z) machine_scheme \<times> usize option xresult" where
  "frame_if_shared K a address s =
     (case pt_query (k_pg K) s (as_pt a) address of
        Inl err \<Rightarrow> (s, Inl (xpaging_error err))
      | Inr (physical, flags, ps) \<Rightarrow>
          if kind_from_flags flags \<noteq> AllocKind \<or> ps \<noteq> Size4K then (s, Inl BadState)
          else let p = align_down (k_addr K) physical (page_bytes ps) in
            case pte_is_unique K p s of
              Inl err \<Rightarrow> (s, Inl err)
            | Inr True \<Rightarrow> (s, Inr None)
            | Inr False \<Rightarrow> (case clone_from_pte K p s of (s', Inl err) \<Rightarrow> (s', Inl err) | (s', Inr f) \<Rightarrow> (s', Inr (Some f))))"

fun clone_leaves ::
    "('p, 'h) kernel \<Rightarrow> leaf_visit list \<Rightarrow> (usize \<times> usize \<times> mapping_flags) list \<Rightarrow> ('p, 'h, 'z) machine_scheme \<Rightarrow>
      ('p, 'h, 'z) machine_scheme \<times> (usize \<times> usize \<times> mapping_flags) list \<times> xerror option" where
  "clone_leaves K [] frames s = (s, frames, None)"
| "clone_leaves K ((address, physical, flags, ps) # vs) frames s =
     (if kind_from_flags flags \<noteq> AllocKind \<or> ps \<noteq> Size4K then (s, frames, Some BadState)
      else case clone_from_pte K physical s of
        (s', Inl err) \<Rightarrow> (s', frames, Some err)
      | (s', Inr frame) \<Rightarrow> clone_leaves K vs (frames @ [(address, frame, flags - {ALLOC_FRAME} - {PROT_NONE})]) s')"

fun drop_frames ::
    "('p, 'h) kernel \<Rightarrow> usize list \<Rightarrow> ('p, 'h, 'z) machine_scheme \<Rightarrow> ('p, 'h, 'z) machine_scheme option" where
  "drop_frames K [] s = Some s"
| "drop_frames K (p # ps) s = Option.bind (frame_drop K p s) (drop_frames K ps)"

definition mapped_frames ::
    "('p, 'h) kernel \<Rightarrow> aspace \<Rightarrow> va_range \<Rightarrow> ('p, 'h, 'z) machine_scheme \<Rightarrow>
      ('p, 'h, 'z, (usize \<times> usize \<times> mapping_flags) list xresult) mstep" where
  "mapped_frames K a r s =
     (let (vs, res) = walk_leaf_range (k_pg K) s (as_pt a) (va_start r) (range_size (k_addr K) r);
          (s', frames, err) = clone_leaves K vs [] s;
          fail = (\<lambda>e. map_option (\<lambda>s''. (s'', Inl e)) (drop_frames K (map (fst \<circ> snd) frames) s')) in
      case res of
        Inl e \<Rightarrow> fail (xpaging_error e)
      | Inr _ \<Rightarrow> (case err of Some e \<Rightarrow> fail e | None \<Rightarrow> Some (s', Inr frames)))"

definition as_mapping_flags :: "('p, 'h) kernel \<Rightarrow> aspace \<Rightarrow> usize \<Rightarrow> ('p, 'h, 'z) machine_scheme \<Rightarrow> mapping_flags option" where
  "as_mapping_flags K a address s =
     (case pt_query (k_pg K) s (as_pt a) address of Inl _ \<Rightarrow> None | Inr (_, flags, _) \<Rightarrow> Some flags)"

section \<open>Copying bytes\<close>

text \<open>\<open>process_bytes\<close> as the chunks it copies, each a physical address, an offset into the buffer and a count, with its
  result. The loop is a partial function: the outer \<open>None\<close> is a loop that does not return.\<close>

partial_function (option) process_chunks ::
    "('p, 'h) kernel \<Rightarrow> aspace \<Rightarrow> usize \<Rightarrow> usize \<Rightarrow> mapping_flags \<Rightarrow> frame_kind option \<Rightarrow> ('p, 'h, 'z) machine_scheme \<Rightarrow> usize \<Rightarrow>
      ((usize \<times> usize \<times> usize) list \<times> unit xresult) option" where
  "process_chunks K a start n access kind s copied =
     (if \<not> copied < n then Some ([], Inr ())
      else let address = usize_add start copied in
        case pt_query (k_pg K) s (as_pt a) address of
          Inl err \<Rightarrow> Some ([], Inl (xpaging_error err))
        | Inr (physical, flags, ps) \<Rightarrow>
            if \<not> access \<subseteq> flags \<or> DEVICE \<in> flags \<or> (kind \<noteq> None \<and> Some (kind_from_flags flags) \<noteq> kind)
            then Some ([], Inl PermissionDenied)
            else let available = usize_sub (page_bytes ps) (align_offset (k_addr K) address (page_bytes ps));
                     cnt = min available (n - copied) in
              Option.bind (process_chunks K a start n access kind s (usize_add copied cnt))
                (\<lambda>(cs, r). Some ((physical, copied, cnt) # cs, r)))"

definition process_bytes ::
    "('p, 'h) kernel \<Rightarrow> aspace \<Rightarrow> usize \<Rightarrow> usize \<Rightarrow> mapping_flags \<Rightarrow> frame_kind option \<Rightarrow> ('p, 'h, 'z) machine_scheme \<Rightarrow>
      ((usize \<times> usize \<times> usize) list \<times> unit xresult) option" where
  "process_bytes K a start n access kind s =
     (if n = 0 then Some ([], Inr ())
      else if \<not> as_contains_range K a start n then Some ([], Inl InvalidInput)
      else process_chunks K a start n access kind s 0)"

definition read_chunk :: "('p, 'h, 'z) machine_scheme \<Rightarrow> usize \<times> usize \<times> usize \<Rightarrow> 8 word list \<Rightarrow> 8 word list" where
  "read_chunk s c out = (let (p, off, cnt) = c in take off out @ get_bytes p cnt (phys_bytes s) @ drop (off + cnt) out)"

definition write_chunk :: "8 word list \<Rightarrow> usize \<times> usize \<times> usize \<Rightarrow> ('p, 'h, 'z) machine_scheme \<Rightarrow> ('p, 'h, 'z) machine_scheme" where
  "write_chunk input c s =
     (let (p, off, cnt) = c in s\<lparr>phys_bytes := put_bytes p (take cnt (drop off input)) (phys_bytes s)\<rparr>)"

definition as_read_bytes ::
    "('p, 'h) kernel \<Rightarrow> aspace \<Rightarrow> usize \<Rightarrow> 8 word list \<Rightarrow> ('p, 'h, 'z) machine_scheme \<Rightarrow> (8 word list \<times> unit xresult) option" where
  "as_read_bytes K a start output s =
     map_option (\<lambda>(cs, r). (fold (read_chunk s) cs output, r)) (process_bytes K a start (length output) {READ} None s)"

definition write_alloc_bytes ::
    "('p, 'h) kernel \<Rightarrow> aspace \<Rightarrow> usize \<Rightarrow> 8 word list \<Rightarrow> ('p, 'h, 'z) machine_scheme \<Rightarrow> ('p, 'h, 'z, unit xresult) mstep" where
  "write_alloc_bytes K a start input s =
     map_option (\<lambda>(cs, r). (fold (write_chunk input) cs s, r)) (process_bytes K a start (length input) {WRITE} (Some AllocKind) s)"

section \<open>Protection transactions\<close>

type_synonym protection_change = "usize \<times> mapping_flags \<times> mapping_flags"

fun prepare_changes ::
    "('p, 'h) kernel \<Rightarrow> frame_kind \<Rightarrow> (usize \<Rightarrow> usize \<Rightarrow> mapping_flags xresult) \<Rightarrow> leaf_visit list \<Rightarrow>
      protection_change list \<times> xerror option" where
  "prepare_changes K kind new_flags [] = ([], None)"
| "prepare_changes K kind new_flags ((address, physical, old_flags, ps) # vs) =
     (case rbind (new_flags address physical) (pte_flags K kind) of
        Inl err \<Rightarrow> ([], Some err)
      | Inr new \<Rightarrow> (let (cs, e) = prepare_changes K kind new_flags vs in ((address, old_flags, new) # cs, e)))"

fun apply_changes ::
    "('p, 'h) kernel \<Rightarrow> page_table \<Rightarrow> (usize \<times> mapping_flags) list \<Rightarrow> ('p, 'h, 'z) machine_scheme \<Rightarrow> ('p, 'h, 'z) machine_scheme option" where
  "apply_changes K pt [] s = Some s"
| "apply_changes K pt ((address, flags) # cs) s =
     (case pt_protect (k_pg K) s pt address flags of
        Some (s', Inr _) \<Rightarrow> apply_changes K pt cs s'
      | _ \<Rightarrow> None)"

text \<open>\<open>reserve\<close> is whether the journal could be extended. The journal of the transaction is \<open>changes\<close>.\<close>

definition tx_protect_range ::
    "('p, 'h) kernel \<Rightarrow> aspace \<Rightarrow> bool \<Rightarrow> usize \<Rightarrow> usize \<Rightarrow> frame_kind \<Rightarrow> page_size \<Rightarrow> nat option \<Rightarrow>
      (usize \<Rightarrow> usize \<Rightarrow> mapping_flags xresult) \<Rightarrow> protection_change list \<Rightarrow> ('p, 'h, 'z) machine_scheme \<Rightarrow>
      ('p, 'h, 'z, protection_change list \<times> unit xresult) mstep" where
  "tx_protect_range K a reserve start n kind ps expected new_flags changes s =
     (case preflight_range K a start n kind ps s of
        Inl err \<Rightarrow> Some (s, changes, Inl err)
      | Inr leaf_count \<Rightarrow>
          if expected \<noteq> None \<and> expected \<noteq> Some leaf_count then Some (s, changes, Inl BadState)
          else if \<not> reserve then Some (s, changes, Inl NoMemory)
          else case walk_leaf_range (k_pg K) s (as_pt a) start n of
            (vs, Inl err) \<Rightarrow> Some (s, changes @ fst (prepare_changes K kind new_flags vs), Inl (xpaging_error err))
          | (vs, Inr _) \<Rightarrow>
              (case prepare_changes K kind new_flags vs of
                 (_, Some err) \<Rightarrow> Some (s, changes, Inl err)
               | (cs, None) \<Rightarrow> map_option (\<lambda>s'. (s', changes @ cs, Inr ()))
                   (apply_changes K (as_pt a) (map (\<lambda>(address, old, new). (address, new)) cs) s)))"

definition tx_protect_alloc_range ::
    "('p, 'h) kernel \<Rightarrow> aspace \<Rightarrow> bool \<Rightarrow> usize \<Rightarrow> usize \<Rightarrow> mapping_flags \<Rightarrow> protection_change list \<Rightarrow> ('p, 'h, 'z) machine_scheme \<Rightarrow>
      ('p, 'h, 'z, protection_change list \<times> unit xresult) mstep" where
  "tx_protect_alloc_range K a reserve start n flags changes s =
     tx_protect_range K a reserve start n AllocKind Size4K None (\<lambda>_ _. Inr flags) changes s"

definition tx_protect_alloc_range_with ::
    "('p, 'h) kernel \<Rightarrow> aspace \<Rightarrow> bool \<Rightarrow> usize \<Rightarrow> usize \<Rightarrow> (bool \<Rightarrow> mapping_flags) \<Rightarrow> protection_change list \<Rightarrow> ('p, 'h, 'z) machine_scheme \<Rightarrow>
      ('p, 'h, 'z, protection_change list \<times> unit xresult) mstep" where
  "tx_protect_alloc_range_with K a reserve start n flags changes s =
     tx_protect_range K a reserve start n AllocKind Size4K None
       (\<lambda>_ physical. rbind (pte_is_unique K physical s) (\<lambda>u. Inr (flags u))) changes s"

definition tx_protect_static_range ::
    "('p, 'h) kernel \<Rightarrow> aspace \<Rightarrow> bool \<Rightarrow> usize \<Rightarrow> static_frames \<Rightarrow> mapping_flags \<Rightarrow> page_size \<Rightarrow> protection_change list \<Rightarrow>
      ('p, 'h, 'z) machine_scheme \<Rightarrow> ('p, 'h, 'z, protection_change list \<times> unit xresult) mstep" where
  "tx_protect_static_range K a reserve start frames flags ps changes s =
     (case validate_range K a start (sf_size frames) ps of
        Inl err \<Rightarrow> Some (s, changes, Inl err)
      | Inr _ \<Rightarrow>
          if \<not> static_allows frames flags then Some (s, changes, Inl PermissionDenied)
          else tx_protect_range K a reserve start (sf_size frames) StaticKind ps (Some (sf_size frames div page_bytes ps))
            (\<lambda>address physical. if physical = usize_add (sf_start frames) (usize_sub address start) then Inr flags else Inl BadState)
            changes s)"

definition tx_drop ::
    "('p, 'h) kernel \<Rightarrow> aspace \<Rightarrow> bool \<Rightarrow> protection_change list \<Rightarrow> ('p, 'h, 'z) machine_scheme \<Rightarrow> ('p, 'h, 'z) machine_scheme option" where
  "tx_drop K a committed changes s =
     (if committed then Some s
      else apply_changes K (as_pt a) (map (\<lambda>(address, old, new). (address, old)) (rev changes)) s)"

definition as_drop ::
    "('p, 'h) kernel \<Rightarrow> aspace \<Rightarrow> ('p, 'h, 'z) machine_scheme \<Rightarrow> ('p, 'h, 'z) machine_scheme option" where
  "as_drop K a s =
     (case walk_leaf_range (k_pg K) s (as_pt a) (va_start (as_range a)) (range_size (k_addr K) (as_range a)) of
        (_, Inl _) \<Rightarrow> None
      | (vs, Inr _) \<Rightarrow>
          if has_alloc_leaf vs then None else map_option (\<lambda>h. s\<lparr>pt_heap := h\<rparr>) (pt_drop (k_pg K) s (as_pt a)))"

section \<open>The kernel's own address space\<close>

datatype mem_region_flag = RegRead | RegWrite | RegExecute | RegDevice | RegUncached | RegReserved | RegFree

record mem_region =
  mr_paddr :: usize
  mr_size :: usize
  mr_flags :: "mem_region_flag set"

definition region_mapping_flags :: "mem_region_flag set \<Rightarrow> mapping_flags" where
  "region_mapping_flags f =
     (if RegRead \<in> f then {READ} else {}) \<union> (if RegWrite \<in> f then {WRITE} else {}) \<union>
     (if RegExecute \<in> f then {EXECUTE} else {}) \<union> (if RegDevice \<in> f then {DEVICE} else {}) \<union>
     (if RegUncached \<in> f then {UNCACHED} else {})"

text \<open>An error drops the half-built address space. \<open>off\<close> is \<open>PHYS_VIRT_OFFSET\<close>.\<close>

fun map_regions ::
    "('p, 'h) kernel \<Rightarrow> usize \<Rightarrow> aspace \<Rightarrow> mem_region list \<Rightarrow> ('p, 'h, 'z) machine_scheme \<Rightarrow> ('p, 'h, 'z, aspace xresult) mstep" where
  "map_regions K off a [] s = Some (s, Inr a)"
| "map_regions K off a (r # rs) s =
     (let flags = region_mapping_flags (mr_flags r) in
      case static_new (mr_paddr r) (mr_size r) flags of
        Inl _ \<Rightarrow> None
      | Inr frames \<Rightarrow>
          (case map_static_range K a (phys_to_virt off (mr_paddr r)) frames flags Size4K s of
             None \<Rightarrow> None
           | Some (s', Inl err) \<Rightarrow> map_option (\<lambda>s''. (s'', Inl err)) (as_drop K a s')
           | Some (s', Inr _) \<Rightarrow> map_regions K off a rs s'))"

definition new_kernel_aspace ::
    "('p, 'h) kernel \<Rightarrow> usize \<Rightarrow> usize \<Rightarrow> usize \<Rightarrow> mem_region list \<Rightarrow> ('p, 'h, 'z) machine_scheme \<Rightarrow> ('p, 'h, 'z, aspace xresult) mstep" where
  "new_kernel_aspace K off base n regions s =
     (case as_new_empty K base n s of
        (s', Inl err) \<Rightarrow> Some (s', Inl err)
      | (s', Inr a) \<Rightarrow> map_regions K off a regions s')"

definition copy_kernel_mappings ::
    "('p, 'h) kernel \<Rightarrow> aspace \<Rightarrow> aspace \<Rightarrow> ('p, 'h, 'z) machine_scheme \<Rightarrow> ('p, 'h, 'z, aspace \<times> unit xresult) mstep" where
  "copy_kernel_mappings K kernel_aspace destination s = copy_static_mappings_from K destination kernel_aspace s"

end
