(* ===== verification/Address_Map.thy ===== *)
theory Address_Map
  imports Address_Space
begin

text \<open>
  What an address space promises. Its abstract state is the page map of its range together with the multiset \<open>own\<close> of
  frame owners: every handle and every leaf with the allocated-frame bit owns one reference.
  \<open>as_inv\<close> ties both to the machine. The lemmas give the effect of the operations of \<open>Address_Space\<close> on this state.
\<close>

section \<open>The invariant\<close>

abbreviation as_view :: "('p, 'h) kernel \<Rightarrow> ('p, 'h, 'z) machine_scheme \<Rightarrow> aspace \<Rightarrow> page_map" where
  "as_view K s a \<equiv> page_view (k_pg K) s (as_pt a)"

definition as_addrs :: "aspace \<Rightarrow> usize set" where
  "as_addrs a = {va_start (as_range a)..<va_end (as_range a)}"

definition alloc_leaf :: "(usize \<times> mapping_flags \<times> page_size) option \<Rightarrow> bool" where
  "alloc_leaf x = (case x of None \<Rightarrow> False | Some (pa, fl, ps) \<Rightarrow> ALLOC_FRAME \<in> fl \<and> ps = Size4K)"

text \<open>The references that the leaves at the addresses \<open>X\<close> own.\<close>

definition pte_frames :: "page_map \<Rightarrow> usize set \<Rightarrow> usize multiset" where
  "pte_frames V X = image_mset (\<lambda>va. fst (the (V va))) (mset_set {va \<in> X. va mod 4096 = 0 \<and> alloc_leaf (V va)})"

definition leaf_fine :: "nat \<Rightarrow> (mapping_flags \<Rightarrow> bool) \<Rightarrow> (mapping_flags \<Rightarrow> mapping_flags) \<Rightarrow> usize \<times> mapping_flags \<times> page_size \<Rightarrow> bool" where
  "leaf_fine pa_bits ok st x = (let (pa, fl, ps) = x in pa mod page_bytes ps = 0 \<and> pa < 2 ^ pa_bits \<and> ok fl \<and> st fl = fl)"

definition as_inv ::
    "('p, 'h) kernel \<Rightarrow> nat \<Rightarrow> (mapping_flags \<Rightarrow> bool) \<Rightarrow> (mapping_flags \<Rightarrow> mapping_flags) \<Rightarrow> ('h \<Rightarrow> bool) \<Rightarrow> ('h \<Rightarrow> usize set) \<Rightarrow>
      usize multiset \<Rightarrow> ('p, 'h, 'z) machine_scheme \<Rightarrow> aspace \<Rightarrow> bool" where
  "as_inv K pa_bits ok st hi lv own s a \<longleftrightarrow>
     pt_valid (k_pg K) hi lv s (as_pt a) \<and> frame_inv K hi lv own s \<and> (\<forall>p \<in># own. frame_addr pa_bits p) \<and>
     pt_tabs (k_pg K) s (as_pt a) \<inter> set_mset own = {} \<and>
     va_start (as_range a) \<le> va_end (as_range a) \<and> va_end (as_range a) \<le> 2 ^ (pg_va_bits (k_pg K) - 1) \<and>
     va_start (as_range a) mod 4096 = 0 \<and> va_end (as_range a) mod 4096 = 0 \<and>
     (\<forall>va \<in> as_addrs a. owned (k_pg K) (as_pt a) va) \<and>
     (\<forall>va \<in> as_addrs a. \<forall>x. as_view K s a va = Some x \<longrightarrow> leaf_fine pa_bits ok st x) \<and>
     pte_frames (as_view K s a) (as_addrs a) \<subseteq># own"

lemma pte_frames_cong: "(\<And>va. va \<in> X \<Longrightarrow> V va = W va) \<Longrightarrow> pte_frames V X = pte_frames W X"
proof -
  assume eq: "\<And>va. va \<in> X \<Longrightarrow> V va = W va"
  then have "{va \<in> X. va mod 4096 = 0 \<and> alloc_leaf (V va)} = {va \<in> X. va mod 4096 = 0 \<and> alloc_leaf (W va)}" by auto
  then show ?thesis using eq by (cases "finite {va \<in> X. va mod 4096 = 0 \<and> alloc_leaf (W va)}")
      (auto simp: pte_frames_def intro!: image_mset_cong)
qed

lemma pte_frames_split:
  assumes "finite X"
  shows "pte_frames V X = pte_frames V (X \<inter> Y) + pte_frames V (X - Y)"
proof -
  let ?S = "\<lambda>Z. {va \<in> Z. va mod 4096 = 0 \<and> alloc_leaf (V va)}"
  have "?S X = ?S (X \<inter> Y) \<union> ?S (X - Y)" by auto
  moreover have "?S (X \<inter> Y) \<inter> ?S (X - Y) = {}" by auto
  moreover have "finite (?S (X \<inter> Y))" "finite (?S (X - Y))" using assms by auto
  ultimately have "mset_set (?S X) = mset_set (?S (X \<inter> Y)) + mset_set (?S (X - Y))" by (simp add: mset_set_Union)
  then show ?thesis by (simp add: pte_frames_def)
qed

lemma pte_frames_mono: "finite X \<Longrightarrow> Y \<subseteq> X \<Longrightarrow> pte_frames V Y \<subseteq># pte_frames V X"
  using pte_frames_split [of X V Y] by (simp add: Int_absorb1)

lemma pte_frames_none: "(\<And>va. va \<in> X \<Longrightarrow> va mod 4096 = 0 \<Longrightarrow> \<not> alloc_leaf (V va)) \<Longrightarrow> pte_frames V X = {#}"
proof -
  assume "\<And>va. va \<in> X \<Longrightarrow> va mod 4096 = 0 \<Longrightarrow> \<not> alloc_leaf (V va)"
  then have "{va \<in> X. va mod 4096 = 0 \<and> alloc_leaf (V va)} = {}" by auto
  then show ?thesis by (simp only: pte_frames_def mset_set.empty image_mset_empty)
qed

lemma pte_frames_one:
  assumes "va \<in> X" "va mod 4096 = 0" "V va = Some (pa, fl, Size4K)" "ALLOC_FRAME \<in> fl" "X \<subseteq> {va..<va + 4096}"
  shows "pte_frames V X = {#pa#}"
proof -
  have only: "w = va" if "w \<in> X" "w mod 4096 = 0" for w
  proof (rule ccontr)
    assume "w \<noteq> va"
    then have "w + 4096 \<le> va \<or> va + 4096 \<le> w" by (rule frames_apart [OF that(2) assms(2)])
    moreover have "w \<in> {va..<va + 4096}" by (rule subsetD [OF assms(5) that(1)])
    ultimately show False by simp
  qed
  have "alloc_leaf (V va)" unfolding assms(3) alloc_leaf_def by (simp add: assms(4))
  then have "va \<in> {w \<in> X. w mod 4096 = 0 \<and> alloc_leaf (V w)}" using assms(1,2) by simp
  moreover have "{w \<in> X. w mod 4096 = 0 \<and> alloc_leaf (V w)} \<subseteq> {va}"
  proof
    fix w
    assume "w \<in> {w \<in> X. w mod 4096 = 0 \<and> alloc_leaf (V w)}"
    then have "w \<in> X" "w mod 4096 = 0" by simp_all
    then have "w = va" by (rule only)
    then show "w \<in> {va}" by simp
  qed
  ultimately have "{w \<in> X. w mod 4096 = 0 \<and> alloc_leaf (V w)} = {va}" by (intro equalityI) simp_all
  then show ?thesis using assms(3) by (simp add: pte_frames_def)
qed

lemma pte_frames_in:
  assumes "finite X" "va \<in> X" "va mod 4096 = 0" "V va = Some (pa, fl, Size4K)" "ALLOC_FRAME \<in> fl"
  shows "pa \<in># pte_frames V X"
  using assms by (auto simp: pte_frames_def alloc_leaf_def intro!: image_eqI [of _ _ va])

lemma finite_as_addrs [simp]: "finite (as_addrs a)"
  by (simp add: as_addrs_def)

section \<open>Leaves cover pages\<close>

context paging_laws
begin

lemma leaf_at_prefix:
  "leaf_at G s t q = Some (e, m) \<Longrightarrow> length q' = length q \<Longrightarrow> take (length q - m) q' = take (length q - m) q \<Longrightarrow>
    leaf_at G s t q' = Some (e, m)"
proof (induction q arbitrary: t q')
  case (Cons i q)
  obtain i' r where q': "q' = i' # r" "length r = length q" using Cons.prems(2) by (cases q') auto
  have m: "m \<le> length q" using leaf_at_level [OF Cons.prems(1)] by simp
  then have tk: "i' = i" "take (length q - m) r = take (length q - m) q"
    using Cons.prems(3) q' by (auto simp: Suc_diff_le)
  show ?case
  proof (cases "q = [] \<or> is_huge (pg_pte G) (entry s (t, i)) \<and> length q \<le> 2")
    case True
    then show ?thesis using Cons.prems(1) q' tk by (auto simp: leaf_at.simps split: if_splits)
  next
    case False
    then obtain t' where c: "child G s t i = Some t'" "leaf_at G s t' q = Some (e, m)"
      using Cons.prems(1) by (auto simp: leaf_at.simps split: option.splits)
    show ?thesis using Cons.IH [OF c(2) q'(2) tk(2)] False c(1) q' tk(1) by (auto simp: leaf_at.simps)
  qed
qed simp

text \<open>A leaf translates all addresses of its page.\<close>

lemma view_page:
  assumes "page_view G s pt va = Some (pa, fl, ps)" "same_page ps va va'" "va < 2 ^ pg_va_bits G" "va' < 2 ^ pg_va_bits G"
  shows "page_view G s pt va' = Some (pa, fl, ps)"
proof -
  obtain e m where e: "pt_leaf G s pt va = Some (e, m)" "pte_view G (e, m) = (pa, fl, ps)"
    using assms(1) by (auto simp: page_view_def)
  have m: "m < pg_levels G" "m \<le> 2" using leaf_at_level [OF e(1) [unfolded pt_leaf_def]] by simp_all
  have ps: "ps = level_size m" using e(2) by (simp add: pte_view_def)
  have "va' div 2 ^ (12 + 9 * m) = va div 2 ^ (12 + 9 * m)"
    using assms(2) unfolding same_page_def ps level_bytes [OF m(2)] by (rule sym)
  then have tk: "take (pg_levels G - m) (va_path (pg_levels G) va') = take (pg_levels G - m) (va_path (pg_levels G) va)"
    unfolding same_page_path [OF less_imp_le [OF m(1)] assms(4,3) [unfolded va_bits]] .
  have "pt_leaf G s pt va' = Some (e, m)"
    unfolding pt_leaf_def by (rule leaf_at_prefix [OF e(1) [unfolded pt_leaf_def]]) (simp_all only: length_va_path tk)
  then show ?thesis using e(2) by (simp add: page_view_def)
qed

end

section \<open>Changing the machine under an address space\<close>

lemma tables_only:
  assumes "pt_tables s' = pt_tables s"
  shows "page_view G s' pt = page_view G s pt" "pt_tabs G s' pt = pt_tabs G s pt"
    "pt_wf G s' k I t = pt_wf G s k I t"
proof -
  have l: "leaf_at G s' u q = leaf_at G s u q" for u q
    using assms by (induction q arbitrary: u) (simp_all add: leaf_at.simps entry_def child_def cong: option.case_cong)
  then show "page_view G s' pt = page_view G s pt" by (simp add: page_view_def pt_leaf_def fun_eq_iff)
  have tb: "tabs G s' k I t = tabs G s k I t" for k I t
    by (rule tabs_cong) (simp add: assms)
  then show "pt_tabs G s' pt = pt_tabs G s pt" by (simp add: pt_tabs_def)
  show "pt_wf G s' k I t = pt_wf G s k I t"
    using pt_wf_cong [of G s k I t s'] pt_wf_cong [of G s' k I t s] assms by auto
qed

lemma pt_more: "pt_state.more s' = pt_state.more s \<Longrightarrow> ref_count s' = ref_count s \<and> phys_bytes s' = phys_bytes s \<and> machine.more s' = machine.more s"
  by (cases s; cases s') (simp add: pt_state.defs machine.defs)

text \<open>The page-table entries of an address space keep the kind of their frame and the permissions they were given.\<close>

locale aspace_laws = kernel_laws K pa_bits leaf_ok stored heap_inv live
  for K :: "('p, 'h) kernel" and pa_bits leaf_ok stored heap_inv live +
  assumes stored_ok: "leaf_ok fl \<Longrightarrow> leaf_ok (stored fl) \<and> stored (stored fl) = stored fl \<and> (ALLOC_FRAME \<in> stored fl \<longleftrightarrow> ALLOC_FRAME \<in> fl)"
    and pte_flags_ok: "pte_flags K kind fl = Inr fl' \<Longrightarrow> leaf_ok fl'"
begin

abbreviation ainv :: "usize multiset \<Rightarrow> ('p, 'h, 'z) machine_scheme \<Rightarrow> aspace \<Rightarrow> bool" where
  "ainv \<equiv> as_inv K pa_bits leaf_ok stored heap_inv live"

abbreviation fine :: "usize \<times> mapping_flags \<times> page_size \<Rightarrow> bool" where
  "fine \<equiv> leaf_fine pa_bits leaf_ok stored"

lemma ainvD:
  assumes "ainv own s a"
  shows "pt_valid (k_pg K) heap_inv live s (as_pt a)" "finv own s" "\<And>p. p \<in># own \<Longrightarrow> frame_addr pa_bits p"
    "pt_tabs (k_pg K) s (as_pt a) \<inter> set_mset own = {}" "\<And>va. va \<in> as_addrs a \<Longrightarrow> owned (k_pg K) (as_pt a) va"
    "\<And>va x. va \<in> as_addrs a \<Longrightarrow> as_view K s a va = Some x \<Longrightarrow> fine x"
    "pte_frames (as_view K s a) (as_addrs a) \<subseteq># own" "va_end (as_range a) \<le> 2 ^ (pg_va_bits (k_pg K) - 1)"
    "va_start (as_range a) mod 4096 = 0" "va_start (as_range a) \<le> va_end (as_range a)"
    "va_end (as_range a) mod 4096 = 0"
  using assms unfolding as_inv_def by blast+

lemma half_bounds: "(2::nat) ^ (pg_va_bits (k_pg K) - 1) < 2 ^ pg_va_bits (k_pg K)" "(2::nat) ^ pg_va_bits (k_pg K) < usize_bound"
  using levels va_bits by (auto simp: usize_bound_def)

lemma ainv_becomes:
  assumes i: "ainv own s a" and b: "pt_becomes (k_pg K) heap_inv live s s' (as_pt a) V"
    and fine: "\<forall>va \<in> as_addrs a. \<forall>x. V va = Some x \<longrightarrow> fine x" and own: "pte_frames V (as_addrs a) \<subseteq># own"
  shows "ainv own s' a" "\<And>va. va \<in> as_addrs a \<Longrightarrow> as_view K s' a va = V va" "ref_count s' = ref_count s" "phys_bytes s' = phys_bytes s"
proof -
  note D = ainvD [OF i] and b = b [unfolded pt_becomes_def]
  have m: "ref_count s' = ref_count s" "phys_bytes s' = phys_bytes s" using pt_more [of s' s] b by simp_all
  then show "ref_count s' = ref_count s" "phys_bytes s' = phys_bytes s" .
  show v: "as_view K s' a va = V va" if "va \<in> as_addrs a" for va using b D(5) [OF that] by blast
  have "finv own s'" using D(2) b m by (auto simp: frame_inv_def pt_valid_def)
  moreover have "pt_tabs (k_pg K) s' (as_pt a) \<inter> set_mset own = {}"
    using b D(2,4) by (fastforce simp: frame_inv_def)
  moreover have "pte_frames (as_view K s' a) (as_addrs a) \<subseteq># own" using own pte_frames_cong [OF v] by simp
  ultimately show "ainv own s' a" using i b v fine by (auto simp: as_inv_def)
qed

lemma ainv_same:
  assumes i: "ainv own s a" and b: "pt_becomes (k_pg K) heap_inv live s s' (as_pt a) (as_view K s a)"
  shows "ainv own s' a" "\<And>va. va \<in> as_addrs a \<Longrightarrow> as_view K s' a va = as_view K s a va" "ref_count s' = ref_count s" "phys_bytes s' = phys_bytes s"
  using ainv_becomes [OF i b] ainvD(6,7) [OF i] by blast+

lemma ainv_frame:
  assumes i: "ainv own s a" and t: "pt_tables s' = pt_tables s" and f: "finv own' s'"
    and lv: "live (pt_heap s) - set_mset own \<subseteq> live (pt_heap s')" and fa: "\<And>p. p \<in># own' \<Longrightarrow> frame_addr pa_bits p"
    and own: "pte_frames (as_view K s a) (as_addrs a) \<subseteq># own'" and new: "pt_tabs (k_pg K) s (as_pt a) \<inter> set_mset own' = {}"
  shows "ainv own' s' a" "as_view K s' a = as_view K s a"
proof -
  note D = ainvD [OF i] and T = tables_only [OF t]
  show "as_view K s' a = as_view K s a" by (rule T)
  have "pt_tabs (k_pg K) s (as_pt a) \<subseteq> live (pt_heap s) - set_mset own" using D(1,4) by (auto simp: pt_valid_def)
  then have "pt_valid (k_pg K) heap_inv live s' (as_pt a)"
    using D(1) lv f by (auto simp: pt_valid_def T frame_inv_def)
  then show "ainv own' s' a" using i f fa own new by (simp add: as_inv_def T)
qed

lemma ainv_drop:
  assumes i: "ainv own s a" and own: "add_mset p (pte_frames (as_view K s a) (as_addrs a)) \<subseteq># own"
  shows "\<exists>s'. frame_drop K p s = Some s' \<and> ainv (own - {#p#}) s' a \<and> as_view K s' a = as_view K s a \<and> phys_bytes s' = phys_bytes s \<and>
    machine.more s' = machine.more s"
proof -
  note D = ainvD [OF i]
  have p: "p \<in># own" using own by (meson insert_subset_eq_iff)
  then obtain s' where s': "frame_drop K p s = Some s'" "finv (own - {#p#}) s'" "pt_tables s' = pt_tables s"
    "phys_bytes s' = phys_bytes s" "machine.more s' = machine.more s"
    "live (pt_heap s') = (if count own p = 1 then live (pt_heap s) - {p} else live (pt_heap s))"
    using release_spec [OF D(2)] by blast
  have "live (pt_heap s) - set_mset own \<subseteq> live (pt_heap s')" using s'(6) p by auto
  moreover have "pte_frames (as_view K s a) (as_addrs a) \<subseteq># own - {#p#}" using own by (simp add: insert_subset_eq_iff)
  moreover have "pt_tabs (k_pg K) s (as_pt a) \<inter> set_mset (own - {#p#}) = {}" using D(4) by (auto dest: in_diffD)
  ultimately have "ainv (own - {#p#}) s' a" "as_view K s' a = as_view K s a"
    using D(3) by (intro ainv_frame [OF i s'(3,2)]; auto dest: in_diffD)+
  then show ?thesis using s' by blast
qed

end

section \<open>Validating a range\<close>

definition range_ok :: "aspace \<Rightarrow> usize \<Rightarrow> usize \<Rightarrow> page_size \<Rightarrow> bool" where
  "range_ok a start n ps \<longleftrightarrow> 0 < n \<and> start mod page_bytes ps = 0 \<and> n mod page_bytes ps = 0 \<and>
     va_start (as_range a) \<le> start \<and> start + n \<le> va_end (as_range a)"

definition uniform :: "page_map \<Rightarrow> frame_kind \<Rightarrow> page_size \<Rightarrow> usize set \<Rightarrow> bool" where
  "uniform V kind ps X \<longleftrightarrow> (\<forall>va \<in> X. \<forall>pa fl ps'. V va = Some (pa, fl, ps') \<longrightarrow> kind_from_flags fl = kind \<and> ps' = ps)"

lemma last_error_None:
  "fold (\<lambda>v e. case f v of None \<Rightarrow> e | Some e' \<Rightarrow> Some e') vs e0 = None \<longleftrightarrow> e0 = None \<and> (\<forall>v \<in> set vs. f v = None)"
  by (induction vs arbitrary: e0) (auto split: option.splits)

lemma page_base:
  fixes va :: nat
  shows "same_page ps va (va - va mod page_bytes ps)" "(va - va mod page_bytes ps) mod page_bytes ps = 0"
    "va - va mod page_bytes ps \<le> va" "va < va - va mod page_bytes ps + page_bytes ps"
proof -
  have b: "va - va mod page_bytes ps = va div page_bytes ps * page_bytes ps" by (simp add: minus_mod_eq_div_mult)
  have p: "0 < page_bytes ps" by (rule page_bytes_dvd)
  show "same_page ps va (va - va mod page_bytes ps)" using p unfolding b by (simp add: same_page_def)
  show "(va - va mod page_bytes ps) mod page_bytes ps = 0" unfolding b by simp
  show "va - va mod page_bytes ps \<le> va" by simp
  have "va mod page_bytes ps < page_bytes ps" "va mod page_bytes ps \<le> va" using p by simp_all
  then show "va < va - va mod page_bytes ps + page_bytes ps" by linarith
qed

lemma page_max:
  fixes va x :: nat
  assumes "va mod page_bytes ps = 0" "x < va + page_bytes ps"
  shows "same_page ps va (max va x)"
proof -
  obtain k where k: "va = page_bytes ps * k" using assms(1) by auto
  have "max va x div page_bytes ps = k" using assms(2) k page_bytes_dvd(2) [of ps] by (intro div_nat_eqI) auto
  then show ?thesis using k page_bytes_dvd(2) [of ps] by (simp add: same_page_def)
qed

context aspace_laws
begin

lemma page_align [simp]:
  "is_aligned (k_addr K) x (page_bytes ps) \<longleftrightarrow> x mod page_bytes ps = 0"
  "align_down (k_addr K) x (page_bytes ps) = x - x mod page_bytes ps"
  "align_offset (k_addr K) x (page_bytes ps) = x mod page_bytes ps"
  by (simp_all only: page_bytes_level is_aligned align_down align_offset)

lemma range_fits:
  assumes "ainv own s a" "x \<le> va_end (as_range a)"
  shows "x < usize_bound" "x < 2 ^ pg_va_bits (k_pg K)"
  using ainvD(8) [OF assms(1)] half_bounds assms(2) by linarith+

lemma contains_range_iff:
  assumes "ainv own s a"
  shows "as_contains_range K a start n \<longleftrightarrow> va_start (as_range a) \<le> start \<and> start + n \<le> va_end (as_range a)"
  using range_fits(1) [OF assms] by (auto simp: as_contains_range_def try_from_start_size contains_range)

lemma validate_range_spec:
  assumes "ainv own s a"
  shows "validate_range K a start n ps = (if range_ok a start n ps then Inr () else Inl InvalidInput)"
  using contains_range_iff [OF assms] by (auto simp: validate_range_def range_ok_def)

lemma range_addrs: "range_ok a start n ps \<Longrightarrow> {start..<start + n} \<subseteq> as_addrs a"
  by (auto simp: range_ok_def as_addrs_def)

lemma walk_range:
  assumes i: "ainv own s a" and r: "va_start (as_range a) \<le> start" "start + n \<le> va_end (as_range a)"
  shows "\<exists>vs. walk_leaf_range (k_pg K) s (as_pt a) start n = (vs, Inr ()) \<and> sorted_wrt before vs \<and>
    set vs = {(va, pa, fl, ps). va mod page_bytes ps = 0 \<and> as_view K s a va = Some (pa, fl, ps) \<and>
      start < va + page_bytes ps \<and> va < start + n \<and> 0 < n}"
  using ainvD(5,8) [OF i] r by (intro walk_spec ainvD(1) [OF i]) (auto simp: as_addrs_def)

lemma alloc_live:
  assumes i: "ainv own s a" and v: "va \<in> as_addrs a" "va mod 4096 = 0" "as_view K s a va = Some (pa, fl, Size4K)" "ALLOC_FRAME \<in> fl"
  shows "pa \<in># own" "live_metadata K pa s = Inr (count own pa)" "validate_pte K pa s = Inr ()" "take_from_pte K pa s = Inr pa"
proof -
  show p: "pa \<in># own" by (rule mset_subset_eqD [OF ainvD(7) [OF i]], rule pte_frames_in [where V = "as_view K s a", OF finite_as_addrs v])
  then show "live_metadata K pa s = Inr (count own pa)" using ainvD(2) [OF i] by (auto simp: live_metadata_def frame_inv_def)
  then show "validate_pte K pa s = Inr ()" "take_from_pte K pa s = Inr pa" by (simp_all add: validate_pte_def take_from_pte_def)
qed

lemma leaf_inside:
  fixes va start n :: nat
  assumes "va mod page_bytes ps = 0" "start mod page_bytes ps = 0" "n mod page_bytes ps = 0" "start < va + page_bytes ps" "va < start + n"
  shows "start \<le> va" "va + page_bytes ps \<le> start + n"
proof -
  have d: "page_bytes ps dvd va" "page_bytes ps dvd start" "page_bytes ps dvd start + n" using assms by (auto simp: mod_eq_0_iff_dvd)
  show "start \<le> va" using aligned_below [OF d(1,2)] assms(4) by (cases "va < start") auto
  show "va + page_bytes ps \<le> start + n" by (rule aligned_below [OF d(1,3) assms(5)])
qed

lemma preflight_spec:
  assumes i: "ainv own s a" and k: "kind = AllocKind \<longrightarrow> ps = Size4K"
  shows "(\<exists>c. preflight_range K a start n kind ps s = Inr c) \<longleftrightarrow>
    range_ok a start n ps \<and> uniform (as_view K s a) kind ps {start..<start + n}"
proof (cases "range_ok a start n ps")
  case True
  note D = ainvD [OF i]
  have r: "va_start (as_range a) \<le> start" "start + n \<le> va_end (as_range a)" "0 < n" "start mod page_bytes ps = 0" "n mod page_bytes ps = 0"
    using True by (auto simp: range_ok_def)
  note bd = range_fits(2,1) [OF i r(2)]
  obtain vs where w: "walk_leaf_range (k_pg K) s (as_pt a) start n = (vs, Inr ())"
    "set vs = {(va, pa, fl, ps). va mod page_bytes ps = 0 \<and> as_view K s a va = Some (pa, fl, ps) \<and>
      start < va + page_bytes ps \<and> va < start + n \<and> 0 < n}"
    using walk_range [OF i r(1,2)] by blast
  let ?f = "preflight_error K s start (start + n) kind ps"
  have "(\<forall>v \<in> set vs. ?f v = None) \<longleftrightarrow> uniform (as_view K s a) kind ps {start..<start + n}"
  proof
    assume ok: "\<forall>v \<in> set vs. ?f v = None"
    show "uniform (as_view K s a) kind ps {start..<start + n}"
      unfolding uniform_def
    proof (intro ballI allI impI)
      fix va pa fl ps' assume va: "va \<in> {start..<start + n}" and v: "as_view K s a va = Some (pa, fl, ps')"
      let ?b = "va - va mod page_bytes ps'"
      note B = page_base [where va = va and ps = ps']
      have "as_view K s a ?b = Some (pa, fl, ps')" using va bd(1) B(3) by (intro view_page [OF v B(1)]) auto
      then have "(?b, pa, fl, ps') \<in> set vs" unfolding w(2) using B(2-4) va r(3) by auto
      then show "kind_from_flags fl = kind \<and> ps' = ps" using ok
        by (auto simp: preflight_error_def Let_def split: option.splits if_splits)
    qed
  next
    assume u: "uniform (as_view K s a) kind ps {start..<start + n}"
    show "\<forall>v \<in> set vs. ?f v = None"
    proof
      fix v assume "v \<in> set vs"
      then obtain va pa fl ps' where v: "v = (va, pa, fl, ps')" "va mod page_bytes ps' = 0" "as_view K s a va = Some (pa, fl, ps')"
        "start < va + page_bytes ps'" "va < start + n" using w(2) by auto
      have "as_view K s a (max va start) = Some (pa, fl, ps')"
        using v(5) r(3) bd(1) by (intro view_page [OF v(3) page_max [OF v(2,4)]]) auto
      moreover have "max va start \<in> {start..<start + n}" using v(5) r(3) by simp
      ultimately have e: "kind_from_flags fl = kind" "ps' = ps" using u unfolding uniform_def by blast+
      note L = leaf_inside [OF v(2) [unfolded e] r(4,5) v(4) [unfolded e] v(5)]
      have "validate_pte K pa s = Inr ()" if a: "kind = AllocKind"
      proof -
        have "ps = Size4K" using k a by simp
        moreover have "ALLOC_FRAME \<in> fl" using e(1) a by (simp add: kind_from_flags_def split: if_splits)
        moreover have "va \<in> as_addrs a" using L(1) v(5) r(1,2) by (auto simp: as_addrs_def)
        ultimately show ?thesis using v(2,3) e(2) by (intro alloc_live [OF i]) (auto simp: page_bytes_def)
      qed
      then show "?f v = None" using L bd(2) e by (auto simp: v(1) preflight_error_def Let_def checked_add_def)
    qed
  qed
  then show ?thesis
    using True w(1) bd(2) last_error_None [of ?f vs None] validate_range_spec [OF i, of start n ps]
    by (auto simp: preflight_range_def checked_add_def ok_or_def split: option.splits)
next
  case False
  then show ?thesis using validate_range_spec [OF i] by (simp add: preflight_range_def)
qed

end

section \<open>Unmapping\<close>

abbreviation frame_page :: "usize \<Rightarrow> usize set" where
  "frame_page x \<equiv> {x..<x + 4096}"

definition pages_of :: "usize list \<Rightarrow> usize set" where
  "pages_of xs = (\<Union>x \<in> set xs. frame_page x)"

definition clear_addrs :: "usize set \<Rightarrow> page_map \<Rightarrow> page_map" where
  "clear_addrs X V = (\<lambda>va. if va \<in> X then None else V va)"

lemma pages_of_simps [simp]: "pages_of [] = {}" "pages_of (x # xs) = frame_page x \<union> pages_of xs"
  by (simp_all add: pages_of_def)

lemma set_page_4K:
  assumes "x mod 4096 = 0"
  shows "set_page Size4K x v V = (\<lambda>va. if va \<in> frame_page x then v else V va)"
  using same_page_aligned [of Size4K x] assms by (auto simp: set_page_def page_bytes_def fun_eq_iff mod_eq_0_iff_dvd)

lemma pte_frames_clear: "finite X \<Longrightarrow> pte_frames (clear_addrs Y V) X = pte_frames V (X - Y)"
proof -
  assume "finite X"
  have "{va \<in> X. va mod 4096 = 0 \<and> alloc_leaf (clear_addrs Y V va)} = {va \<in> X - Y. va mod 4096 = 0 \<and> alloc_leaf (V va)}"
    by (auto simp: clear_addrs_def alloc_leaf_def split: if_splits)
  then show ?thesis using \<open>finite X\<close> by (auto simp: pte_frames_def clear_addrs_def intro!: image_mset_cong)
qed

lemma uniform_clear:
  "uniform V k ps Y \<Longrightarrow> X \<subseteq> Y \<Longrightarrow> (\<And>va. va \<in> X \<Longrightarrow> W va = clear_addrs Z V va) \<Longrightarrow> uniform W k ps X"
  unfolding uniform_def clear_addrs_def by (metis option.distinct(1) subsetD)

lemma page_addrs_pages:
  assumes "0 < N" "(b - a) mod N = 0" "a \<le> b"
  shows "(\<Union>x \<in> set (page_addrs a b N). {x..<x + N}) = {a..<b::nat}" "x \<in> set (page_addrs a b N) \<Longrightarrow> a \<le> x \<and> x + N \<le> b \<and> (x - a) mod N = 0"
proof -
  obtain k where k: "b = a + k * N" using assms(2,3) by (metis dvd_div_mult_self le_add_diff_inverse mod_eq_0_iff_dvd)
  have s: "set (page_addrs a b N) = (\<lambda>i. a + i * N) ` {..<k}" using assms(1) by (auto simp: page_addrs_def k)
  have le: "i * N + N \<le> k * N" if "i < k" for i
    using mult_le_mono1 [of "Suc i" k N] that by simp
  have "va \<in> (\<Union>i<k. {a + i * N..<a + i * N + N}) \<longleftrightarrow> va \<in> {a..<b}" for va
  proof
    assume "va \<in> (\<Union>i<k. {a + i * N..<a + i * N + N})"
    then show "va \<in> {a..<b}" using le by (fastforce simp: k)
  next
    assume v: "va \<in> {a..<b}"
    let ?i = "(va - a) div N"
    have "?i < k" using v by (auto simp: k less_mult_imp_div_less)
    moreover have "?i * N \<le> va - a" "va - a < ?i * N + N"
      using div_mult_mod_eq [of "va - a" N] mod_less_divisor [OF assms(1), of "va - a"] by linarith+
    moreover have "a \<le> va" using v by simp
    ultimately have "?i \<in> {..<k}" "va \<in> {a + ?i * N..<a + ?i * N + N}" unfolding atLeastLessThan_iff lessThan_iff by linarith+
    then show "va \<in> (\<Union>i<k. {a + i * N..<a + i * N + N})" by (rule UN_I)
  qed
  then show "(\<Union>x \<in> set (page_addrs a b N). {x..<x + N}) = {a..<b}" unfolding s image_image [symmetric] by (intro set_eqI) simp
  show "x \<in> set (page_addrs a b N) \<Longrightarrow> a \<le> x \<and> x + N \<le> b \<and> (x - a) mod N = 0" unfolding s using le by (auto simp: k)
qed

context aspace_laws
begin

lemma page_iter_spec:
  "page_iter K a b ps = (if a mod page_bytes ps = 0 \<and> b mod page_bytes ps = 0 then Some (page_addrs a b (page_bytes ps)) else None)"
  by (simp only: page_iter_def page_bytes_level page_iter)

text \<open>The leaf of a 4 KiB page decides about all its addresses.\<close>

lemma frame_page_view:
  assumes i: "ainv own s a" and x: "x mod 4096 = 0" "frame_page x \<subseteq> as_addrs a"
    and u: "uniform (as_view K s a) AllocKind Size4K (frame_page x)" and w: "w \<in> frame_page x"
  shows "as_view K s a w = as_view K s a x"
proof -
  have bd: "v < 2 ^ pg_va_bits (k_pg K)" if "v \<in> frame_page x" for v
    using ainvD(5) [OF i] x(2) that by (auto simp: owned_def)
  have sp: "same_page Size4K w x" "same_page Size4K x w"
    using same_page_aligned [of Size4K x w] x(1) w by (auto simp: page_bytes_def same_page_def mod_eq_0_iff_dvd)
  have xx: "x \<in> frame_page x" by simp
  show ?thesis
  proof (cases "as_view K s a w")
    case None
    show ?thesis
    proof (cases "as_view K s a x")
      case (Some y)
      obtain pa fl ps where y: "as_view K s a x = Some (pa, fl, ps)" using Some by (cases y) auto
      then have "ps = Size4K" using u xx unfolding uniform_def by blast
      then show ?thesis using view_page [OF y _ bd [OF xx] bd [OF w]] sp y by simp
    qed (simp add: None)
  next
    case (Some y)
    obtain pa fl ps where y: "as_view K s a w = Some (pa, fl, ps)" using Some by (cases y) auto
    then have "ps = Size4K" using u w unfolding uniform_def by blast
    then show ?thesis using view_page [OF y _ bd [OF w] bd [OF xx]] sp y by simp
  qed
qed

lemma unmap_alloc_leaf:
  assumes i: "ainv own s a" and x: "x mod 4096 = 0" "frame_page x \<subseteq> as_addrs a"
    and v: "as_view K s a x = Some (pa, fl, Size4K)" "ALLOC_FRAME \<in> fl" and un: "pt_unmap (k_pg K) s (as_pt a) x = (s1, r)"
  shows "r = Inr (pa, Size4K)" "take_from_pte K pa s1 = Inr pa"
    "\<exists>s2. frame_drop K pa s1 = Some s2 \<and> ainv (own - {#pa#}) s2 a \<and> (\<forall>va \<in> as_addrs a. as_view K s2 a va = clear_addrs (frame_page x) (as_view K s a) va)"
    "pte_frames (as_view K s a) (frame_page x) = {#pa#}"
proof -
  note D = ainvD [OF i]
  let ?V = "as_view K s a"
  have xa: "x \<in> as_addrs a" using x(2) by auto
  have U: "r = Inr (pa, Size4K)" "pt_becomes (k_pg K) heap_inv live s s1 (as_pt a) (clear_addrs (frame_page x) ?V)"
    using unmap_spec [OF D(1) D(5) [OF xa] un] v by (auto simp: set_page_4K [OF x(1)] clear_addrs_def)
  then show "r = Inr (pa, Size4K)" by simp
  show one: "pte_frames ?V (frame_page x) = {#pa#}" by (rule pte_frames_one [where V = ?V, OF _ x(1) v]) simp_all
  have sp: "pte_frames ?V (as_addrs a) = add_mset pa (pte_frames ?V (as_addrs a - frame_page x))"
    using pte_frames_split [OF finite_as_addrs, of ?V a "frame_page x"] one x(2) by (simp add: Int_absorb1)
  have pf: "pte_frames (clear_addrs (frame_page x) ?V) (as_addrs a) = pte_frames ?V (as_addrs a - frame_page x)"
    by (rule pte_frames_clear) simp
  have le: "add_mset pa (pte_frames (clear_addrs (frame_page x) ?V) (as_addrs a)) \<subseteq># own" unfolding pf using D(7) sp by simp
  then have le': "pte_frames (clear_addrs (frame_page x) ?V) (as_addrs a) \<subseteq># own"
    by (meson mset_subset_eq_add_left subset_mset.order_trans mset_subset_eq_insertD subset_mset.less_imp_le)
  have A: "ainv own s1 a" "\<And>va. va \<in> as_addrs a \<Longrightarrow> as_view K s1 a va = clear_addrs (frame_page x) ?V va" "ref_count s1 = ref_count s"
    using D(6) le' by (intro ainv_becomes [OF i U(2)]; auto simp: clear_addrs_def split: if_splits)+
  have "live_metadata K pa s1 = live_metadata K pa s" using A(3) by (simp add: live_metadata_def)
  then show "take_from_pte K pa s1 = Inr pa" using alloc_live(2) [OF i xa x(1) v] by (simp add: take_from_pte_def validate_pte_def)
  have "add_mset pa (pte_frames (as_view K s1 a) (as_addrs a)) \<subseteq># own" using le pte_frames_cong [OF A(2)] by simp
  from ainv_drop [OF A(1) this]
  show "\<exists>s2. frame_drop K pa s1 = Some s2 \<and> ainv (own - {#pa#}) s2 a \<and> (\<forall>va \<in> as_addrs a. as_view K s2 a va = clear_addrs (frame_page x) ?V va)"
    using A(2) by auto
qed

lemma unmap_pages_spec:
  fixes s :: "('p, 'h, 'z) machine_scheme"
  assumes "ainv own s a" "\<And>x. x \<in> set xs \<Longrightarrow> x mod 4096 = 0" "pages_of xs \<subseteq> as_addrs a"
    "uniform (as_view K s a) AllocKind Size4K (pages_of xs)"
  shows "\<exists>s'. unmap_pages K (as_pt a) AllocKind Size4K xs s = Some s' \<and> ainv (own - pte_frames (as_view K s a) (pages_of xs)) s' a \<and>
    (\<forall>va \<in> as_addrs a. as_view K s' a va = clear_addrs (pages_of xs) (as_view K s a) va)"
  using assms
proof (induction xs arbitrary: own s)
  case Nil
  then show ?case by (auto simp: clear_addrs_def pte_frames_def)
next
  case (Cons x xs)
  let ?V = "as_view K s a"
  have x: "x mod 4096 = 0" "frame_page x \<subseteq> as_addrs a" "x \<in> as_addrs a" using Cons.prems(2,3) by auto
  have ux: "uniform ?V AllocKind Size4K (frame_page x)" using Cons.prems(4) by (auto simp: uniform_def)
  obtain s1 r where un: "pt_unmap (k_pg K) s (as_pt a) x = (s1, r)" by (cases "pt_unmap (k_pg K) s (as_pt a) x")
  note D = ainvD [OF Cons.prems(1)]
  have split: "pte_frames ?V (pages_of (x # xs)) = pte_frames ?V (frame_page x) + pte_frames ?V (pages_of xs - frame_page x)"
    using pte_frames_split [of "pages_of (x # xs)" ?V "frame_page x"] by (simp add: pages_of_def Int_Un_distrib Un_Diff)
  have step: "\<exists>s'. unmap_pages K (as_pt a) AllocKind Size4K xs s2 = Some s' \<and> ainv (own - pte_frames ?V (pages_of (x # xs))) s' a \<and>
      (\<forall>va \<in> as_addrs a. as_view K s' a va = clear_addrs (pages_of (x # xs)) ?V va)"
    if s2: "ainv (own - pte_frames ?V (frame_page x)) s2 a" "\<And>va. va \<in> as_addrs a \<Longrightarrow> as_view K s2 a va = clear_addrs (frame_page x) ?V va" for s2 :: "('p, 'h, 'z) machine_scheme"
  proof -
    have xs: "pages_of xs \<subseteq> as_addrs a" "\<And>x. x \<in> set xs \<Longrightarrow> x mod 4096 = 0" using Cons.prems(2,3) by auto
    have "uniform (as_view K s2 a) AllocKind Size4K (pages_of xs)"
      using s2(2) xs(1) by (intro uniform_clear [OF Cons.prems(4)]) auto
    from Cons.IH [OF s2(1) xs(2,1) this]
    obtain s' where s': "unmap_pages K (as_pt a) AllocKind Size4K xs s2 = Some s'"
      "ainv (own - pte_frames ?V (frame_page x) - pte_frames (as_view K s2 a) (pages_of xs)) s' a"
      "\<forall>va \<in> as_addrs a. as_view K s' a va = clear_addrs (pages_of xs) (as_view K s2 a) va" by blast
    have "pte_frames (as_view K s2 a) (pages_of xs) = pte_frames (clear_addrs (frame_page x) ?V) (pages_of xs)"
      using s2(2) xs(1) by (intro pte_frames_cong) blast
    also have "\<dots> = pte_frames ?V (pages_of xs - frame_page x)" by (rule pte_frames_clear) (simp add: pages_of_def)
    finally have "ainv (own - pte_frames ?V (pages_of (x # xs))) s' a" using s'(2) unfolding split by simp
    then show ?thesis using s' s2(2) by (auto simp: clear_addrs_def)
  qed
  show ?case
  proof (cases "?V x")
    case None
    have pv: "?V w = None" if "w \<in> frame_page x" for w
      using frame_page_view [OF Cons.prems(1) x(1,2) ux that] None by simp
    have U: "r = Inl NotMapped" "pt_becomes (k_pg K) heap_inv live s s1 (as_pt a) ?V"
      using unmap_spec [OF D(1) D(5) [OF x(3)] un] None by auto
    have "pte_frames ?V (frame_page x) = {#}" using pv by (intro pte_frames_none) (simp add: alloc_leaf_def)
    moreover have "as_view K s1 a va = clear_addrs (frame_page x) ?V va" if "va \<in> as_addrs a" for va
      using ainv_same(2) [OF Cons.prems(1) U(2) that] pv by (simp add: clear_addrs_def)
    ultimately show ?thesis using step [of s1] ainv_same(1) [OF Cons.prems(1) U(2)] un U(1) by simp
  next
    case (Some y)
    obtain pa fl ps where y': "?V x = Some (pa, fl, ps)" using Some by (cases y) auto
    moreover have "x \<in> frame_page x" by simp
    ultimately have "kind_from_flags fl = AllocKind" "ps = Size4K" using ux unfolding uniform_def by blast+
    then have y: "?V x = Some (pa, fl, Size4K)" "ALLOC_FRAME \<in> fl" using y' by (auto simp: kind_from_flags_def split: if_splits)
    note U = unmap_alloc_leaf [OF Cons.prems(1) x(1,2) y un]
    then obtain s2 where "frame_drop K pa s1 = Some s2" "ainv (own - {#pa#}) s2 a"
      "\<forall>va \<in> as_addrs a. as_view K s2 a va = clear_addrs (frame_page x) ?V va" by blast
    then show ?thesis using step [of s2] U(1,2,4) un by simp
  qed
qed

lemma page_split:
  assumes i: "ainv own s a" and ok: "range_ok a start n Size4K"
  shows "checked_add start n = Some (start + n)" "page_iter K start (start + n) Size4K = Some (page_addrs start (start + n) 4096)"
    "pages_of (page_addrs start (start + n) 4096) = {start..<start + n}" "\<And>x. x \<in> set (page_addrs start (start + n) 4096) \<Longrightarrow> x mod 4096 = 0"
proof -
  have r: "0 < n" "start mod 4096 = 0" "n mod 4096 = 0" "start + n \<le> va_end (as_range a)" using ok by (auto simp: range_ok_def page_bytes_def)
  show "checked_add start n = Some (start + n)" using range_fits(1) [OF i r(4)] by (simp add: checked_add_def)
  show "page_iter K start (start + n) Size4K = Some (page_addrs start (start + n) 4096)"
    using r by (simp add: page_iter_spec page_bytes_def mod_add_eq [symmetric, of start n])
  show "pages_of (page_addrs start (start + n) 4096) = {start..<start + n}"
    unfolding pages_of_def by (rule page_addrs_pages) (use r in simp_all)
  fix x
  assume "x \<in> set (page_addrs start (start + n) 4096)"
  then have "start \<le> x" "(x - start) mod 4096 = 0" using page_addrs_pages(2) [of 4096 "start + n" start x] r(3) by simp_all
  then have "(x - start + start) mod 4096 = 0" using r(2) by (metis dvd_add mod_eq_0_iff_dvd)
  then show "x mod 4096 = 0" using \<open>start \<le> x\<close> by simp
qed

lemma unmap_alloc_spec:
  assumes i: "ainv own s a"
  shows "\<exists>s' r. unmap_alloc_range K a start n s = Some (s', r) \<and>
    (if range_ok a start n Size4K \<and> uniform (as_view K s a) AllocKind Size4K {start..<start + n} then
       r = Inr () \<and> ainv (own - pte_frames (as_view K s a) {start..<start + n}) s' a \<and>
       (\<forall>va \<in> as_addrs a. as_view K s' a va = clear_addrs {start..<start + n} (as_view K s a) va)
     else s' = s \<and> (\<exists>e. r = Inl e))"
proof (cases "range_ok a start n Size4K \<and> uniform (as_view K s a) AllocKind Size4K {start..<start + n}")
  case True
  then obtain c where c: "preflight_range K a start n AllocKind Size4K s = Inr c" using preflight_spec [OF i] by blast
  note S = page_split [OF i conjunct1 [OF True]]
  show ?thesis
    using unmap_pages_spec [where xs = "page_addrs start (start + n) 4096", OF i S(4), unfolded S(3)] True range_addrs [of a start n Size4K] c S(1,2)
    by (auto simp: unmap_alloc_range_def unmap_range_def simp del: checked_add_Some)
next
  case False
  then have "\<nexists>c. preflight_range K a start n AllocKind Size4K s = Inr c" using preflight_spec [OF i] by blast
  then obtain e where "preflight_range K a start n AllocKind Size4K s = Inl e"
    by (cases "preflight_range K a start n AllocKind Size4K s") auto
  then show ?thesis using False by (auto simp: unmap_alloc_range_def unmap_range_def)
qed

end

section \<open>Mapping and replacing frames\<close>

text \<open>Installing a leaf for a frame: the page map gains exactly this page.\<close>

definition put_page :: "usize \<Rightarrow> usize \<Rightarrow> mapping_flags \<Rightarrow> page_map \<Rightarrow> page_map" where
  "put_page x p fl V = (\<lambda>va. if va \<in> frame_page x then Some (p, fl, Size4K) else V va)"

context aspace_laws
begin

lemma range_page:
  assumes "range_ok a x (page_bytes Size4K) Size4K"
  shows "x mod 4096 = 0" "frame_page x \<subseteq> as_addrs a" "x \<in> as_addrs a"
  using assms by (auto simp: range_ok_def page_bytes_def as_addrs_def)

lemma drop_and_fail_spec:
  assumes "ainv own s a" "add_mset p (pte_frames (as_view K s a) (as_addrs a)) \<subseteq># own"
  shows "\<exists>s'. drop_and_fail K p e s = Some (s', Inl e) \<and> ainv (own - {#p#}) s' a \<and> as_view K s' a = as_view K s a"
  using ainv_drop [OF assms] by (auto simp: drop_and_fail_def)

lemma put_page_facts:
  assumes i: "ainv own s a" and x: "x mod 4096 = 0" "frame_page x \<subseteq> as_addrs a" and p: "frame_addr pa_bits p"
    and fl: "pte_flags K AllocKind flags = Inr fl"
  shows "leaf_ok fl" "ALLOC_FRAME \<in> stored fl"
    "\<forall>va \<in> as_addrs a. \<forall>y. put_page x p (stored fl) (as_view K s a) va = Some y \<longrightarrow> fine y"
    "pte_frames (put_page x p (stored fl) (as_view K s a)) (as_addrs a) = add_mset p (pte_frames (as_view K s a) (as_addrs a - frame_page x))"
proof -
  let ?V = "as_view K s a" and ?W = "put_page x p (stored fl) (as_view K s a)"
  show ok: "leaf_ok fl" by (rule pte_flags_ok [OF fl])
  have "ALLOC_FRAME \<in> fl" using fl by (auto simp: pte_flags_def kind_apply_def Let_def split: if_splits)
  then show al: "ALLOC_FRAME \<in> stored fl" using stored_ok [OF ok] by simp
  show "\<forall>va \<in> as_addrs a. \<forall>y. ?W va = Some y \<longrightarrow> fine y"
    using ainvD(6) [OF i] stored_ok [OF ok] p
    by (auto simp: put_page_def leaf_fine_def frame_addr_def page_bytes_def split: if_splits)
  have "pte_frames ?W (as_addrs a) = pte_frames ?W (frame_page x) + pte_frames ?W (as_addrs a - frame_page x)"
    using pte_frames_split [OF finite_as_addrs, of ?W a "frame_page x"] x(2) by (simp add: Int_absorb1)
  also have "pte_frames ?W (frame_page x) = {#p#}"
    by (rule pte_frames_one [of x, where V = ?W, OF _ x(1) _ al]) (simp_all add: put_page_def)
  also have "pte_frames ?W (as_addrs a - frame_page x) = pte_frames ?V (as_addrs a - frame_page x)"
    by (intro pte_frames_cong) (auto simp: put_page_def)
  finally show "pte_frames ?W (as_addrs a) = add_mset p (pte_frames ?V (as_addrs a - frame_page x))" by simp
qed

lemma map_frame_spec:
  assumes i: "ainv own s a" and h: "add_mset p (pte_frames (as_view K s a) (as_addrs a)) \<subseteq># own"
  shows "\<exists>s' r. map_frame K a x p flags s = Some (s', r) \<and>
    (case r of
       Inl _ \<Rightarrow> ainv (own - {#p#}) s' a \<and> (\<forall>va \<in> as_addrs a. as_view K s' a va = as_view K s a va)
     | Inr _ \<Rightarrow> \<exists>fl. pte_flags K AllocKind flags = Inr fl \<and> range_ok a x 4096 Size4K \<and> (\<forall>va \<in> frame_page x. as_view K s a va = None) \<and>
         ainv own s' a \<and> (\<forall>va \<in> as_addrs a. as_view K s' a va = put_page x p (stored fl) (as_view K s a) va))"
proof -
  let ?V = "as_view K s a"
  note D = ainvD [OF i] and fail = drop_and_fail_spec [OF i h] and val = validate_range_spec [OF i]
  have b: "page_bytes Size4K = 4096" by (simp add: page_bytes_def)
  show ?thesis
  proof (cases "range_ok a x (page_bytes Size4K) Size4K \<and> \<not> is_ok (pt_query (k_pg K) s (as_pt a) x) \<and> is_ok (pte_flags K AllocKind flags)")
    case False
    then show ?thesis
      using fail [where e = InvalidInput] fail [where e = AlreadyExists] fail [where e = "projl (pte_flags K AllocKind flags)"] val [of x "page_bytes Size4K" Size4K]
      by (cases "pte_flags K AllocKind flags") (auto simp: map_frame_def is_ok_def split: if_splits sum.splits)
  next
    case True
    then obtain fl where fl: "pte_flags K AllocKind flags = Inr fl" by (auto simp: is_ok_def split: sum.splits)
    note x = range_page [OF conjunct1 [OF True]]
    have p: "frame_addr pa_bits p" using D(3) h by (meson insert_subset_eq_iff)
    note P = put_page_facts [OF i x(1,2) p fl]
    obtain s1 r where m: "pt_map (k_pg K) s (as_pt a) x p Size4K fl = Some (s1, r)"
      "case r of
        Inl err \<Rightarrow> pt_becomes (k_pg K) heap_inv live s s1 (as_pt a) ?V
      | Inr _ \<Rightarrow> (\<forall>va'. owned (k_pg K) (as_pt a) va' \<longrightarrow> same_page Size4K x va' \<longrightarrow> ?V va' = None) \<and>
          pt_becomes (k_pg K) heap_inv live s s1 (as_pt a)
            (set_page Size4K x (Some (align_down (k_addr K) p (page_bytes Size4K), stored fl, Size4K)) ?V)"
      using map_spec [OF D(1) D(5) [OF x(3)] P(1), of p Size4K] p by (fastforce simp: frame_addr_def split: sum.splits)
    have mf: "map_frame K a x p flags s = (case r of Inl err \<Rightarrow> drop_and_fail K p (xpaging_error err) s1 | Inr _ \<Rightarrow> Some (s1, Inr ()))"
      using True fl m(1) val by (auto simp: map_frame_def is_ok_def split: sum.splits)
    show ?thesis
    proof (cases r)
      case (Inl err)
      then have B: "pt_becomes (k_pg K) heap_inv live s s1 (as_pt a) ?V" using m(2) by simp
      note A = ainv_same [OF i B]
      have "add_mset p (pte_frames (as_view K s1 a) (as_addrs a)) \<subseteq># own" using h pte_frames_cong [OF A(2)] by simp
      from drop_and_fail_spec [where e = "xpaging_error err", OF A(1) this] show ?thesis using mf Inl A(2) by auto
    next
      case (Inr u)
      have none: "\<forall>va \<in> frame_page x. ?V va = None"
        using m(2) Inr D(5) x same_page_aligned [of Size4K x] by (auto simp: b mod_eq_0_iff_dvd)
      have "p mod 4096 = 0" using p by (simp add: frame_addr_def)
      then have B: "pt_becomes (k_pg K) heap_inv live s s1 (as_pt a) (put_page x p (stored fl) ?V)"
        using m(2) Inr by (simp add: set_page_4K [OF x(1)] put_page_def align_4k b)
      have "pte_frames ?V (as_addrs a - frame_page x) \<subseteq># pte_frames ?V (as_addrs a)" by (rule pte_frames_mono) auto
      then have "pte_frames (put_page x p (stored fl) ?V) (as_addrs a) \<subseteq># own"
        using h unfolding P(4) by (meson mset_subset_eq_add_mset_cancel subset_mset.order_trans)
      from ainv_becomes [OF i B P(3) this] show ?thesis using mf Inr fl none True by (auto simp: b)
    qed
  qed
qed

lemma page_inside:
  assumes i: "ainv own s a" and va: "va \<in> as_addrs a" and x: "x = va - va mod 4096"
  shows "x mod 4096 = 0" "frame_page x \<subseteq> as_addrs a" "x \<in> as_addrs a" "va \<in> frame_page x"
proof -
  note B = page_base [where va = va and ps = Size4K, unfolded page_bytes_def page_size.case]
  show al: "x mod 4096 = 0" using B(2) by (simp add: x)
  have le: "x \<le> va" "va < x + 4096" using B(3,4) by (simp_all add: x)
  then show "va \<in> frame_page x" by simp
  have d: "4096 dvd x" "4096 dvd va_start (as_range a)" "4096 dvd va_end (as_range a)"
    using al ainvD(9,11) [OF i] by (simp_all add: mod_eq_0_iff_dvd)
  have "va_start (as_range a) \<le> x" using aligned_below [OF d(1,2)] le va by (cases "x < va_start (as_range a)") (auto simp: as_addrs_def)
  moreover have "x + 4096 \<le> va_end (as_range a)" using le va by (intro aligned_below [OF d(1,3)]) (auto simp: as_addrs_def)
  ultimately show "frame_page x \<subseteq> as_addrs a" "x \<in> as_addrs a" by (auto simp: as_addrs_def)
qed

lemma query_4K:
  assumes i: "ainv own s a" and x: "x \<in> as_addrs a" "x mod 4096 = 0"
  shows "pt_query (k_pg K) s (as_pt a) x = (case as_view K s a x of None \<Rightarrow> Inl NotMapped
    | Some (pa, fl, ps) \<Rightarrow> Inr (if ps = Size4K then pa else usize_add pa (x mod page_bytes ps), fl, ps))"
proof (cases "as_view K s a x")
  case None
  then show ?thesis using query_spec [OF ainvD(1) [OF i] ainvD(5) [OF i x(1)]] by simp
next
  case (Some y)
  obtain pa fl ps where y: "y = (pa, fl, ps)" by (cases y)
  have "pa < 2 ^ pa_bits" using ainvD(6) [OF i x(1) Some] by (simp add: y leaf_fine_def)
  moreover have "(2::nat) ^ pa_bits \<le> 2 ^ 63" using pa_reach by (intro power_increasing) simp_all
  ultimately have "pa < usize_bound" by (simp add: usize_bound_def)
  then have "usize_add pa (x mod page_bytes Size4K) = pa" using x(2) by (simp add: page_bytes_def usize_add_def)
  then show ?thesis using query_spec [OF ainvD(1) [OF i] ainvD(5) [OF i x(1)]] Some y by auto
qed

lemma replace_frame_spec:
  assumes i: "ainv own s a" and h: "add_mset q (pte_frames (as_view K s a) (as_addrs a)) \<subseteq># own"
    and va: "va \<in> as_addrs a" and x: "x = va - va mod 4096"
  shows "\<exists>s' r. replace_frame K a va p0 q flags s = Some (s', r) \<and>
    (case r of
       Inl _ \<Rightarrow> ainv (own - {#q#}) s' a \<and> (\<forall>va \<in> as_addrs a. as_view K s' a va = as_view K s a va)
     | Inr _ \<Rightarrow> \<exists>fl cur. pte_flags K AllocKind flags = Inr fl \<and> as_view K s a x = Some (p0, cur, Size4K) \<and> ALLOC_FRAME \<in> cur \<and>
         ainv (own - {#p0#}) s' a \<and> (\<forall>va \<in> as_addrs a. as_view K s' a va = put_page x q (stored fl) (as_view K s a) va))"
proof -
  let ?V = "as_view K s a"
  note D = ainvD [OF i] and fail = drop_and_fail_spec [OF i h] and X = page_inside [OF i va x]
  have ad: "va - va mod page_bytes Size4K = x" by (simp add: x page_bytes_def)
  note Q = query_4K [OF i X(3,1)]
  show ?thesis
  proof (cases "\<exists>cur. ?V x = Some (p0, cur, Size4K) \<and> ALLOC_FRAME \<in> cur \<and> is_ok (pte_flags K AllocKind flags)")
    case False
    then show ?thesis
      using fail [where e = BadState] fail [where e = BadAddress] fail [where e = "projl (pte_flags K AllocKind flags)"] Q
      by (cases "?V x"; cases "pte_flags K AllocKind flags")
        (auto simp: replace_frame_def ad Let_def is_ok_def xpaging_error_def split: if_splits)
  next
    case True
    then obtain cur fl where c: "?V x = Some (p0, cur, Size4K)" "ALLOC_FRAME \<in> cur" "pte_flags K AllocKind flags = Inr fl"
      by (auto simp: is_ok_def split: sum.splits)
    have q: "frame_addr pa_bits q" using D(3) h by (meson insert_subset_eq_iff)
    note P = put_page_facts [OF i X(1,2) q c(3)]
    obtain s1 where m: "pt_remap (k_pg K) s (as_pt a) x q fl = Some (s1, Inr Size4K)"
      "pt_becomes (k_pg K) heap_inv live s s1 (as_pt a) (put_page x q (stored fl) ?V)"
      using remap_spec [OF D(1) D(5) [OF X(3)] P(1) q] c(1)
      by (fastforce simp: set_page_4K [OF X(1)] put_page_def split: sum.splits)
    have "pte_frames ?V (as_addrs a) = add_mset p0 (pte_frames ?V (as_addrs a - frame_page x))"
      using pte_frames_split [OF finite_as_addrs, of ?V a "frame_page x"] X(2)
        pte_frames_one [where V = ?V, OF _ X(1) c(1,2) order_refl] by (simp add: Int_absorb1)
    then have le: "add_mset p0 (pte_frames (put_page x q (stored fl) ?V) (as_addrs a)) \<subseteq># own"
      using h unfolding P(4) by (simp add: add_mset_commute)
    then have "pte_frames (put_page x q (stored fl) ?V) (as_addrs a) \<subseteq># own"
      by (meson mset_subset_eq_insertD subset_mset.less_imp_le)
    note A = ainv_becomes [OF i m(2) P(3) this]
    have "live_metadata K p0 s1 = live_metadata K p0 s" using A(3) by (simp add: live_metadata_def)
    then have tk: "take_from_pte K p0 s1 = Inr p0"
      using alloc_live(2) [OF i X(3,1) c(1,2)] by (simp add: take_from_pte_def validate_pte_def)
    have "add_mset p0 (pte_frames (as_view K s1 a) (as_addrs a)) \<subseteq># own" using le pte_frames_cong [OF A(2)] by simp
    from ainv_drop [OF A(1) this] show ?thesis
      using Q c m(1) tk A(2) by (auto simp: replace_frame_def ad Let_def)
  qed
qed

end

end
