(* ===== verification/Address_Safety.thy ===== *)
theory Address_Safety
  imports Address_Map
begin

text \<open>
  The guarantees of an address space: protection transactions roll back exactly, unmapping releases exactly the frames of its
  range, bytes copied through the page table arrive, and over every sequence of operations no mapped frame is ever free.
\<close>

section \<open>Changing the flags of leaves\<close>

text \<open>\<open>as_map\<close> is the page map of the range. \<open>retag\<close> gives the page at \<open>x\<close> new flags. A journal is a \<open>chain\<close> when
  each entry records the flags its leaf had when it was changed.\<close>

definition as_map :: "('p, 'h) kernel \<Rightarrow> ('p, 'h, 'z) machine_scheme \<Rightarrow> aspace \<Rightarrow> page_map" where
  "as_map K s a = as_view K s a |` as_addrs a"

definition retag :: "(mapping_flags \<Rightarrow> mapping_flags) \<Rightarrow> usize \<Rightarrow> mapping_flags \<Rightarrow> page_map \<Rightarrow> page_map" where
  "retag st x flags V = (case V x of None \<Rightarrow> V | Some (pa, _, ps) \<Rightarrow>
     (\<lambda>va. if same_page ps x va \<and> V va \<noteq> None then Some (pa, st flags, ps) else V va))"

definition covered :: "page_map \<Rightarrow> bool" where
  "covered V \<longleftrightarrow> (\<forall>x pa fl ps va. V x = Some (pa, fl, ps) \<longrightarrow> same_page ps x va \<longrightarrow> V va = None \<or> V va = V x)"

fun changed :: "(mapping_flags \<Rightarrow> mapping_flags) \<Rightarrow> page_map \<Rightarrow> protection_change list \<Rightarrow> page_map" where
  "changed st V [] = V"
| "changed st V ((x, old, new) # cs) = changed st (retag st x new V) cs"

fun chain :: "(mapping_flags \<Rightarrow> bool) \<Rightarrow> (mapping_flags \<Rightarrow> mapping_flags) \<Rightarrow> page_map \<Rightarrow> protection_change list \<Rightarrow> bool" where
  "chain ok st V [] \<longleftrightarrow> True"
| "chain ok st V ((x, old, new) # cs) \<longleftrightarrow> (\<exists>pa ps. V x = Some (pa, old, ps)) \<and> covered V \<and> ok new \<and>
     (ALLOC_FRAME \<in> new \<longleftrightarrow> ALLOC_FRAME \<in> old) \<and> chain ok st (retag st x new V) cs"

lemma changed_append [simp]: "changed st V (cs @ ds) = changed st (changed st V cs) ds"
  by (induction st V cs rule: changed.induct) auto

lemma chain_append: "chain ok st V (cs @ ds) \<longleftrightarrow> chain ok st V cs \<and> chain ok st (changed st V cs) ds"
  by (induction ok st V cs rule: chain.induct) auto

lemma coveredD: "covered V \<Longrightarrow> V x = Some (pa, fl, ps) \<Longrightarrow> same_page ps x va \<Longrightarrow> V va = Some y \<Longrightarrow> y = (pa, fl, ps)"
  unfolding covered_def by (metis option.distinct(1) option.inject)

lemma retag_back:
  assumes "V x = Some (pa, old, ps)" "covered V" "st old = old"
  shows "retag st x old (retag st x new V) = V"
proof
  fix va
  have "same_page ps x x" by (simp add: same_page_def)
  then have x: "retag st x new V x = Some (pa, st new, ps)" using assms(1) by (simp add: retag_def)
  show "retag st x old (retag st x new V) va = V va"
    using coveredD [OF assms(2,1), of va] assms(1,3) x by (auto simp: retag_def)
qed

lemma pte_frames_retag:
  assumes "V x = Some (pa, old, ps)" "covered V" "ALLOC_FRAME \<in> st new \<longleftrightarrow> ALLOC_FRAME \<in> old"
  shows "pte_frames (retag st x new V) X = pte_frames V X"
proof -
  have c: "V va = Some (pa, old, ps)" if "same_page ps x va" "V va = Some y" for va y
    using coveredD [OF assms(2,1) that] that(2) by simp
  have "alloc_leaf (retag st x new V va) = alloc_leaf (V va)" "fst (the (retag st x new V va)) = fst (the (V va))" for va
    using assms(1,3) c [of va] by (auto simp: retag_def alloc_leaf_def)
  then show ?thesis by (simp add: pte_frames_def)
qed

lemma pte_frames_map: "pte_frames (as_map K s a) (as_addrs a) = pte_frames (as_view K s a) (as_addrs a)"
  by (rule pte_frames_cong) (simp add: as_map_def)

context aspace_laws
begin

lemma covered_map: "ainv own s a \<Longrightarrow> covered (as_map K s a)"
  unfolding covered_def as_map_def
proof (intro allI impI)
  fix x pa fl ps va
  assume i: "ainv own s a" and v: "(as_view K s a |` as_addrs a) x = Some (pa, fl, ps)" and sp: "same_page ps x va"
  have x: "x \<in> as_addrs a" "as_view K s a x = Some (pa, fl, ps)" using v by (auto simp: restrict_map_def split: if_splits)
  show "(as_view K s a |` as_addrs a) va = None \<or> (as_view K s a |` as_addrs a) va = (as_view K s a |` as_addrs a) x"
  proof (cases "va \<in> as_addrs a")
    case True
    have "as_view K s a va = Some (pa, fl, ps)"
      using ainvD(5) [OF i x(1)] ainvD(5) [OF i True] by (intro view_page [OF x(2) sp]) (auto simp: owned_def)
    then show ?thesis using x True by simp
  qed simp
qed

lemma protect_leaf:
  assumes i: "ainv own s a" and v: "as_map K s a x = Some (pa, old, ps)" and fl: "leaf_ok new"
    and al: "ALLOC_FRAME \<in> new \<longleftrightarrow> ALLOC_FRAME \<in> old"
  shows "\<exists>s'. pt_protect (k_pg K) s (as_pt a) x new = Some (s', Inr ps) \<and> ainv own s' a \<and> as_map K s' a = retag stored x new (as_map K s a) \<and>
    ref_count s' = ref_count s \<and> phys_bytes s' = phys_bytes s"
proof -
  note D = ainvD [OF i] and c = covered_map [OF i]
  have x: "x \<in> as_addrs a" "as_view K s a x = Some (pa, old, ps)" using v by (auto simp: as_map_def restrict_map_def split: if_splits)
  let ?W = "set_page ps x (Some (pa, stored new, ps)) (as_view K s a)"
  obtain s' where s': "pt_protect (k_pg K) s (as_pt a) x new = Some (s', Inr ps)"
    "pt_becomes (k_pg K) heap_inv live s s' (as_pt a) ?W"
    using protect_spec [OF D(1) D(5) [OF x(1)] fl] x(2) by auto
  note st = stored_ok [OF fl]
  have full: "as_view K s a va = Some (pa, old, ps)" if "same_page ps x va" "va \<in> as_addrs a" for va
    using D(5) [OF x(1)] D(5) [OF that(2)] by (intro view_page [OF x(2) that(1)]) (auto simp: owned_def)
  have fx: "fine (pa, old, ps)" by (rule D(6) [OF x])
  have "fine (pa, stored new, ps)" using fx st by (simp add: leaf_fine_def)
  then have fine: "\<forall>va \<in> as_addrs a. \<forall>y. ?W va = Some y \<longrightarrow> fine y" using D(6) by (auto simp: set_page_def)
  have W: "?W |` as_addrs a = retag stored x new (as_map K s a)"
    using x full by (auto simp: fun_eq_iff set_page_def retag_def as_map_def restrict_map_def)
  have "pte_frames ?W (as_addrs a) = pte_frames (?W |` as_addrs a) (as_addrs a)" by (rule pte_frames_cong) simp
  also have "\<dots> = pte_frames (as_map K s a) (as_addrs a)" unfolding W by (rule pte_frames_retag [OF v c]) (use st al in simp)
  finally have "pte_frames ?W (as_addrs a) \<subseteq># own" using D(7) by (simp add: pte_frames_map)
  note A = ainv_becomes [OF i s'(2) fine this]
  have "as_map K s' a = ?W |` as_addrs a" using A(2) by (auto simp: as_map_def restrict_map_def)
  then show ?thesis using s'(1) A W by simp
qed

lemma apply_chain:
  fixes s :: "('p, 'h, 'z) machine_scheme"
  assumes "ainv own s a" "chain leaf_ok stored (as_map K s a) cs"
  shows "\<exists>s'. apply_changes K (as_pt a) (map (\<lambda>(x, old, new). (x, new)) cs) s = Some s' \<and> ainv own s' a \<and>
    as_map K s' a = changed stored (as_map K s a) cs \<and> ref_count s' = ref_count s \<and> phys_bytes s' = phys_bytes s"
  using assms
proof (induction cs arbitrary: s)
  case (Cons c cs)
  obtain x old new where c: "c = (x, old, new)" by (cases c)
  obtain pa ps where v: "as_map K s a x = Some (pa, old, ps)" "leaf_ok new" "ALLOC_FRAME \<in> new \<longleftrightarrow> ALLOC_FRAME \<in> old"
    "chain leaf_ok stored (retag stored x new (as_map K s a)) cs" using Cons.prems(2) c by auto
  obtain s1 where s1: "pt_protect (k_pg K) s (as_pt a) x new = Some (s1, Inr ps)" "ainv own s1 a"
    "as_map K s1 a = retag stored x new (as_map K s a)" "ref_count s1 = ref_count s" "phys_bytes s1 = phys_bytes s"
    using protect_leaf [OF Cons.prems(1) v(1-3)] by blast
  show ?case using Cons.IH [OF s1(2)] v(4) s1 c by auto
qed simp

text \<open>Restoring the recorded flags in reverse order undoes a chain.\<close>

lemma revert_chain:
  fixes s :: "('p, 'h, 'z) machine_scheme"
  assumes "ainv own s a" "chain leaf_ok stored V cs" "as_map K s a = changed stored V cs"
    and fine: "\<forall>va y. V va = Some y \<longrightarrow> fine y"
  shows "\<exists>s'. apply_changes K (as_pt a) (map (\<lambda>(x, old, new). (x, old)) (rev cs)) s = Some s' \<and> ainv own s' a \<and>
    as_map K s' a = V \<and> ref_count s' = ref_count s \<and> phys_bytes s' = phys_bytes s"
  using assms(1-3)
proof (induction cs arbitrary: s rule: rev_induct)
  case (snoc c cs)
  obtain x old new where c: "c = (x, old, new)" by (cases c)
  let ?U = "changed stored V cs"
  have ch: "chain leaf_ok stored V cs" "chain leaf_ok stored ?U [c]" using snoc.prems(2) by (simp_all add: chain_append)
  obtain pa ps where u: "?U x = Some (pa, old, ps)" "covered ?U" "leaf_ok new" "ALLOC_FRAME \<in> new \<longleftrightarrow> ALLOC_FRAME \<in> old"
    using ch(2) c by auto
  have f: "\<forall>va y. changed stored V cs va = Some y \<longrightarrow> fine y" if "chain leaf_ok stored V cs" "\<forall>va y. V va = Some y \<longrightarrow> fine y" for V cs
    using that
  proof (induction cs arbitrary: V)
    case (Cons d ds)
    obtain y o' n' where d: "d = (y, o', n')" by (cases d)
    obtain pa' ps' where w: "V y = Some (pa', o', ps')" "leaf_ok n'" "chain leaf_ok stored (retag stored y n' V) ds" using Cons.prems(1) d by auto
    have "fine (pa', stored n', ps')" using Cons.prems(2) w(1) stored_ok [OF w(2)] by (fastforce simp: leaf_fine_def)
    then have "\<forall>va z. retag stored y n' V va = Some z \<longrightarrow> fine z" using Cons.prems(2) w(1) by (auto simp: retag_def)
    from Cons.IH [OF w(3) this] show ?case by (simp add: d)
  qed simp
  have fo: "leaf_ok old" "stored old = old" using f [OF ch(1) fine] u(1) by (fastforce simp: leaf_fine_def)+
  have m: "as_map K s a = retag stored x new ?U" using snoc.prems(3) c by simp
  have "as_map K s a x = Some (pa, stored new, ps)" unfolding m using u(1) by (simp add: retag_def same_page_def)
  moreover have "ALLOC_FRAME \<in> old \<longleftrightarrow> ALLOC_FRAME \<in> stored new" using u(4) stored_ok [OF u(3)] by simp
  ultimately obtain s1 where s1: "pt_protect (k_pg K) s (as_pt a) x old = Some (s1, Inr ps)" "ainv own s1 a"
    "as_map K s1 a = retag stored x old (as_map K s a)" "ref_count s1 = ref_count s" "phys_bytes s1 = phys_bytes s"
    using protect_leaf [OF snoc.prems(1) _ fo(1)] by blast
  have "as_map K s1 a = ?U" unfolding s1(3) m by (rule retag_back [where V = ?U and st = stored, OF u(1,2) fo(2)])
  from snoc.IH [OF s1(2) ch(1) this] show ?case using s1 c by auto
qed simp

end

section \<open>Protection transactions\<close>

lemma covered_retag:
  assumes c: "covered V" and x: "V x = Some (pa, old, ps)"
  shows "covered (retag st x new V)"
  unfolding covered_def
proof (intro allI impI)
  fix y qa fl qs va
  assume y: "retag st x new V y = Some (qa, fl, qs)" and sp: "same_page qs y va"
  have R: "retag st x new V w = (if same_page ps x w \<and> V w \<noteq> None then Some (pa, st new, ps) else V w)" for w
    using x by (simp add: retag_def)
  show "retag st x new V va = None \<or> retag st x new V va = retag st x new V y"
  proof (cases "same_page ps x y \<and> V y \<noteq> None")
    case True
    then have "qs = ps" using y R by simp
    then have "same_page ps x va" using True sp by (simp add: same_page_def)
    then show ?thesis using True by (cases "V va") (simp_all add: R)
  next
    case False
    then have vy: "V y = Some (qa, fl, qs)" using y by (simp add: R split: if_splits)
    show ?thesis
    proof (cases "V va")
      case None
      then show ?thesis by (simp add: R)
    next
      case (Some z)
      then have z: "z = (qa, fl, qs)" using coveredD [OF c vy sp] by simp
      have "\<not> same_page ps x va"
      proof
        assume s: "same_page ps x va"
        then have "z = (pa, old, ps)" using coveredD [OF c x s Some] by simp
        then have "same_page ps x y" using s sp z by (simp add: same_page_def)
        then show False using False vy by simp
      qed
      then show ?thesis using Some z vy False by (simp add: R)
    qed
  qed
qed

lemma before_apart:
  assumes "va mod page_bytes ps = 0" "va + page_bytes ps \<le> w"
  shows "\<not> same_page ps va w"
  using assms same_page_aligned [of ps va w] by (simp add: mod_eq_0_iff_dvd)

context aspace_laws
begin

lemma pte_flags_kind: "pte_flags K kind fl = Inr fl' \<Longrightarrow> ALLOC_FRAME \<in> fl' \<longleftrightarrow> kind = AllocKind"
  by (cases kind) (auto simp: pte_flags_def kind_apply_def Let_def split: if_splits)

lemma prepare_chain:
  assumes "prepare_changes K kind nf vs = (cs, None)" "sorted_wrt before vs" "covered V"
    "\<And>va pa fl ps. (va, pa, fl, ps) \<in> set vs \<Longrightarrow> V va = Some (pa, fl, ps) \<and> va mod page_bytes ps = 0 \<and> kind_from_flags fl = kind"
  shows "chain leaf_ok stored V cs"
  using assms
proof (induction vs arbitrary: cs V)
  case (Cons v vs)
  obtain va pa fl ps where v: "v = (va, pa, fl, ps)" by (cases v)
  obtain new cs' where n: "rbind (nf va pa) (pte_flags K kind) = Inr new" "prepare_changes K kind nf vs = (cs', None)" "cs = (va, fl, new) # cs'"
    using Cons.prems(1) v by (auto split: sum.splits prod.splits)
  obtain f where f: "pte_flags K kind f = Inr new" using n(1) by (cases "nf va pa") auto
  have hv: "V va = Some (pa, fl, ps)" "va mod page_bytes ps = 0" "kind_from_flags fl = kind" using Cons.prems(4) v by auto
  have al: "ALLOC_FRAME \<in> new \<longleftrightarrow> ALLOC_FRAME \<in> fl" using pte_flags_kind [OF f] hv(3) by (auto simp: kind_from_flags_def split: if_splits)
  have keep: "retag stored va new V w = V w" if w: "(w, qa, gl, qs) \<in> set vs" for w qa gl qs
  proof -
    have "before v (w, qa, gl, qs)" using Cons.prems(2) w by auto
    then have "va + page_bytes ps \<le> w" by (simp add: before_def v)
    then show ?thesis using before_apart [OF hv(2)] hv(1) by (simp add: retag_def)
  qed
  have "chain leaf_ok stored (retag stored va new V) cs'"
  proof (rule Cons.IH [OF n(2)])
    show "sorted_wrt before vs" using Cons.prems(2) by simp
    show "covered (retag stored va new V)" by (rule covered_retag [OF Cons.prems(3) hv(1)])
    show "retag stored va new V w = Some (qa, gl, qs) \<and> w mod page_bytes qs = 0 \<and> kind_from_flags gl = kind"
      if "(w, qa, gl, qs) \<in> set vs" for w qa gl qs
      using Cons.prems(4) [of w qa gl qs] keep [OF that] that by simp
  qed
  then show ?case using n(3) hv(1) Cons.prems(3) pte_flags_ok [OF f] al by simp
qed simp

lemma tx_protect_spec:
  fixes s :: "('p, 'h, 'z) machine_scheme"
  assumes i: "ainv own s a" and k: "kind = AllocKind \<longrightarrow> ps = Size4K"
  shows "\<exists>s' cs r. tx_protect_range K a rsv start n kind ps ex nf changes s = Some (s', changes @ cs, r) \<and>
    chain leaf_ok stored (as_map K s a) cs \<and> as_map K s' a = changed stored (as_map K s a) cs \<and> ainv own s' a \<and>
    ref_count s' = ref_count s \<and> phys_bytes s' = phys_bytes s"
proof (cases "preflight_range K a start n kind ps s")
  case (Inl e)
  then show ?thesis using i by (intro exI [of _ s] exI [of _ "[]"]) (simp add: tx_protect_range_def)
next
  case (Inr c)
  then have r: "range_ok a start n ps" "uniform (as_view K s a) kind ps {start..<start + n}" using preflight_spec [OF i k] by blast+
  obtain vs where w: "walk_leaf_range (k_pg K) s (as_pt a) start n = (vs, Inr ())" "sorted_wrt before vs"
    "set vs = {(va, pa, fl, ps). va mod page_bytes ps = 0 \<and> as_view K s a va = Some (pa, fl, ps) \<and>
      start < va + page_bytes ps \<and> va < start + n \<and> 0 < n}"
    using walk_range [OF i, of start n] r(1) by (auto simp: range_ok_def)
  have leaf: "as_map K s a va = Some (pa, fl, qs) \<and> va mod page_bytes qs = 0 \<and> kind_from_flags fl = kind"
    if "(va, pa, fl, qs) \<in> set vs" for va pa fl qs
  proof -
    have v: "va mod page_bytes qs = 0" "as_view K s a va = Some (pa, fl, qs)" "start < va + page_bytes qs" "va < start + n" "0 < n"
      using that w(3) by auto
    have m: "max va start \<in> {start..<start + n}" using v(4,5) by simp
    have "as_view K s a (max va start) = Some (pa, fl, qs)"
      using range_fits(2) [OF i, of "start + n"] r(1) m v(4)
      by (intro view_page [OF v(2) page_max [OF v(1,3)]]) (auto simp: range_ok_def)
    then have e: "kind_from_flags fl = kind" "qs = ps" using r(2) m unfolding uniform_def by blast+
    have "start \<le> va" by (rule leaf_inside [OF v(1) [unfolded e] _ _ v(3) [unfolded e] v(4)]) (use r(1) in \<open>simp_all add: range_ok_def\<close>)
    then have "va \<in> as_addrs a" using range_addrs [OF r(1)] v(4) by auto
    then show ?thesis using v e by (simp add: as_map_def)
  qed
  obtain cs e where p: "prepare_changes K kind nf vs = (cs, e)" by (cases "prepare_changes K kind nf vs")
  show ?thesis
  proof (cases "(ex \<noteq> None \<and> ex \<noteq> Some c) \<or> \<not> rsv \<or> e \<noteq> None")
    case True
    then show ?thesis using i Inr w(1) p by (intro exI [of _ s] exI [of _ "[]"]) (auto simp: tx_protect_range_def)
  next
    case False
    then have "chain leaf_ok stored (as_map K s a) cs" using p by (intro prepare_chain [OF _ w(2) covered_map [OF i] leaf]) auto
    then show ?thesis using apply_chain [OF i] False Inr w(1) p by (fastforce simp: tx_protect_range_def)
  qed
qed

end

text \<open>The operations of a transaction on its journal; \<open>rsv\<close> is whether the journal could be extended. An operation may fail.\<close>

inductive tx_step :: "('p, 'h) kernel \<Rightarrow> aspace \<Rightarrow> ('p, 'h) machine \<times> protection_change list \<Rightarrow> ('p, 'h) machine \<times> protection_change list \<Rightarrow> bool"
  for K :: "('p, 'h) kernel" and a where
  alloc: "tx_protect_alloc_range K a rsv start n fl cs s = Some (s', cs', r) \<Longrightarrow> tx_step K a (s, cs) (s', cs')"
| alloc_with: "tx_protect_alloc_range_with K a rsv start n f cs s = Some (s', cs', r) \<Longrightarrow> tx_step K a (s, cs) (s', cs')"
| static: "tx_protect_static_range K a rsv start frames fl ps cs s = Some (s', cs', r) \<Longrightarrow> tx_step K a (s, cs) (s', cs')"

context aspace_laws
begin

lemma tx_step_chain:
  assumes "tx_step K a (s, cs) (s', cs')" "ainv own s a"
  shows "\<exists>ds. cs' = cs @ ds \<and> chain leaf_ok stored (as_map K s a) ds \<and> as_map K s' a = changed stored (as_map K s a) ds \<and> ainv own s' a \<and>
    ref_count s' = ref_count s \<and> phys_bytes s' = phys_bytes s"
  using assms(1)
proof (cases rule: tx_step.cases)
  case (alloc rsv start n fl r)
  then show ?thesis using tx_protect_spec [OF assms(2), of AllocKind Size4K rsv start n None "\<lambda>_ _. Inr fl" cs]
    by (auto simp: tx_protect_alloc_range_def)
next
  case (alloc_with rsv start n f r)
  then show ?thesis
    using tx_protect_spec [OF assms(2), of AllocKind Size4K rsv start n None "\<lambda>_ physical. rbind (pte_is_unique K physical s) (\<lambda>u. Inr (f u))" cs]
    by (auto simp: tx_protect_alloc_range_with_def)
next
  case (static rsv start frames fl ps r)
  have none: ?thesis if "s' = s" "cs' = cs" using that assms(2) by (intro exI [of _ "[]"]) simp
  show ?thesis
  proof (cases "range_ok a start (sf_size frames) ps \<and> static_allows frames fl")
    case True
    then show ?thesis
      using static validate_range_spec [OF assms(2), of start "sf_size frames" ps]
        tx_protect_spec [OF assms(2), of StaticKind ps rsv start "sf_size frames" "Some (sf_size frames div page_bytes ps)"
          "\<lambda>address physical. if physical = usize_add (sf_start frames) (usize_sub address start) then Inr fl else Inl BadState" cs]
      by (auto simp: tx_protect_static_range_def)
  next
    case False
    then show ?thesis using none static validate_range_spec [OF assms(2), of start "sf_size frames" ps]
      by (auto simp: tx_protect_static_range_def split: if_splits)
  qed
qed

lemma tx_run_chain:
  assumes "(tx_step K a)\<^sup>*\<^sup>* (s, []) (s', cs)" "ainv own s a"
  shows "chain leaf_ok stored (as_map K s a) cs \<and> as_map K s' a = changed stored (as_map K s a) cs \<and> ainv own s' a \<and>
    ref_count s' = ref_count s \<and> phys_bytes s' = phys_bytes s"
  using assms(1)
proof (induction rule: rtranclp_induct2)
  case refl
  then show ?case using assms(2) by simp
next
  case (step s1 c1 s2 c2)
  then show ?case using tx_step_chain [OF step(2)] by (fastforce simp: chain_append)
qed

end

section \<open>Copying bytes\<close>

definition phys_at :: "page_map \<Rightarrow> usize \<Rightarrow> usize" where
  "phys_at V va = (case V va of None \<Rightarrow> 0 | Some (pa, fl, ps) \<Rightarrow> pa + va mod page_bytes ps)"

definition may_access :: "page_map \<Rightarrow> mapping_flags \<Rightarrow> frame_kind option \<Rightarrow> usize \<Rightarrow> bool" where
  "may_access V access kind va = (case V va of None \<Rightarrow> False | Some (pa, fl, ps) \<Rightarrow>
     access \<subseteq> fl \<and> DEVICE \<notin> fl \<and> (kind = None \<or> Some (kind_from_flags fl) = kind))"

text \<open>Chunks that cover the offsets from \<open>off\<close> to \<open>e\<close>, each physically contiguous.\<close>

fun chunks :: "page_map \<Rightarrow> usize \<Rightarrow> usize \<Rightarrow> (usize \<times> usize \<times> usize) list \<Rightarrow> usize \<Rightarrow> bool" where
  "chunks V start off [] e \<longleftrightarrow> off = e"
| "chunks V start off ((p, o', c) # cs) e \<longleftrightarrow> o' = off \<and> (\<forall>j < c. phys_at V (start + off + j) = p + j) \<and> chunks V start (off + c) cs e"

lemma chunks_le: "chunks V start off cs e \<Longrightarrow> off \<le> e"
  by (induction V start off cs e rule: chunks.induct) auto

lemma read_chunks:
  assumes "chunks V start off cs e" "e \<le> length out"
  shows "length (fold (read_chunk s) cs out) = length out \<and>
    (\<forall>i < length out. fold (read_chunk s) cs out ! i = (if off \<le> i \<and> i < e then phys_bytes s (phys_at V (start + i)) else out ! i))"
  using assms
proof (induction V start off cs e arbitrary: out rule: chunks.induct)
  case (2 V start off p o' c cs e)
  have o: "o' = off" "\<forall>j < c. phys_at V (start + off + j) = p + j" "chunks V start (off + c) cs e" using 2(2) by auto
  have le: "off + c \<le> length out" using chunks_le [OF o(3)] 2(3) by simp
  let ?out = "read_chunk s (p, off, c) out"
  have len: "length ?out = length out" using le by (simp add: read_chunk_def)
  have nth: "?out ! i = (if off \<le> i \<and> i < off + c then phys_bytes s (phys_at V (start + i)) else out ! i)" if "i < length out" for i
  proof (cases "off \<le> i \<and> i < off + c")
    case True
    then obtain j where j: "i = off + j" "j < c" by (metis add_less_cancel_left le_Suc_ex)
    then show ?thesis using o(2) le by (auto simp: read_chunk_def nth_append get_bytes_def add.assoc)
  next
    case False
    then show ?thesis using that le by (auto simp: read_chunk_def nth_append)
  qed
  show ?case using 2(1) [OF o(3), of ?out] 2(3) len nth o(1) chunks_le [OF o(3)] by auto
qed auto

lemma write_chunks:
  assumes "chunks V start off cs e" "e \<le> length input" "inj_on (\<lambda>i. phys_at V (start + i)) {..<length input}"
  shows "\<exists>P. fold (write_chunk input) cs s = s\<lparr>phys_bytes := P\<rparr> \<and> (\<forall>i. off \<le> i \<and> i < e \<longrightarrow> P (phys_at V (start + i)) = input ! i) \<and>
    (\<forall>b. b \<notin> (\<lambda>i. phys_at V (start + i)) ` {off..<e} \<longrightarrow> P b = phys_bytes s b)"
  using assms
proof (induction V start off cs e arbitrary: s rule: chunks.induct)
  case (1 V start off e)
  then show ?case by (intro exI [of _ "phys_bytes s"]) auto
next
  case (2 V start off p o' c cs e)
  have o: "o' = off" "\<forall>j < c. phys_at V (start + off + j) = p + j" "chunks V start (off + c) cs e" using 2(2) by auto
  have le: "off + c \<le> e" by (rule chunks_le [OF o(3)])
  let ?P1 = "put_bytes p (take c (drop off input)) (phys_bytes s)"
  have len: "length (take c (drop off input)) = c" using le 2(3) by simp
  obtain P where P: "fold (write_chunk input) cs (s\<lparr>phys_bytes := ?P1\<rparr>) = s\<lparr>phys_bytes := P\<rparr>"
    "\<forall>i. off + c \<le> i \<and> i < e \<longrightarrow> P (phys_at V (start + i)) = input ! i"
    "\<forall>b. b \<notin> (\<lambda>i. phys_at V (start + i)) ` {off + c..<e} \<longrightarrow> P b = ?P1 b"
    using 2(1) [OF o(3) 2(3,4), of "s\<lparr>phys_bytes := ?P1\<rparr>"] by auto
  have "P (phys_at V (start + i)) = input ! i" if i: "off \<le> i" "i < e" for i
  proof (cases "i < off + c")
    case True
    then obtain j where j: "i = off + j" "j < c" using i(1) by (metis add_less_cancel_left le_Suc_ex)
    have "phys_at V (start + i) \<notin> (\<lambda>i. phys_at V (start + i)) ` {off + c..<e}"
      using 2(3,4) i True by (fastforce simp: inj_on_def)
    moreover have "phys_at V (start + i) = p + j" using o(2) j by (simp add: add.assoc)
    ultimately show ?thesis using P(3) j len le i 2(3) by (auto simp: put_bytes_def)
  next
    case False
    then show ?thesis using P(2) i by simp
  qed
  moreover have "P b = phys_bytes s b" if b: "b \<notin> (\<lambda>i. phys_at V (start + i)) ` {off..<e}" for b
  proof -
    have "\<not> (p \<le> b \<and> b < p + c)"
    proof
      assume "p \<le> b \<and> b < p + c"
      then obtain j where "b = p + j" "j < c" by (metis add_less_cancel_left le_Suc_ex)
      then have "b = phys_at V (start + (off + j))" "off + j \<in> {off..<e}" using o(2) le by (auto simp: add.assoc)
      then show False using b by blast
    qed
    moreover have "b \<notin> (\<lambda>i. phys_at V (start + i)) ` {off + c..<e}" using b by auto
    ultimately show ?thesis using P(3) len by (auto simp: put_bytes_def)
  qed
  moreover have "write_chunk input (p, o', c) s = s\<lparr>phys_bytes := ?P1\<rparr>" using o(1) by (simp add: write_chunk_def)
  ultimately show ?case using P(1) by (intro exI [of _ P]) auto
qed

lemma same_page_step:
  fixes va j :: nat
  assumes "va mod B + j < B"
  shows "(va + j) div B = va div B" "(va + j) mod B = va mod B + j"
proof -
  have "va + j = B * (va div B) + (va mod B + j)" by simp
  then show "(va + j) div B = va div B" "(va + j) mod B = va mod B + j" using assms by (metis div_mult_self4 mod_mult_self4 div_less mod_less add.right_neutral add.commute gr_implies_not0)+
qed

context aspace_laws
begin

lemma process_chunks_spec:
  assumes i: "ainv own s a" and r: "va_start (as_range a) \<le> start" "start + n \<le> va_end (as_range a)" and "pos \<le> n"
  shows "\<exists>cs r e. process_chunks K a start n access kind s pos = Some (cs, r) \<and> chunks (as_view K s a) start pos cs e \<and>
    e \<le> n \<and> (\<forall>j. pos \<le> j \<and> j < e \<longrightarrow> may_access (as_view K s a) access kind (start + j)) \<and>
    (r = Inr () \<and> e = n \<or> (\<exists>x. r = Inl x) \<and> e < n \<and> \<not> may_access (as_view K s a) access kind (start + e))"
  using assms(4)
proof (induction "n - pos" arbitrary: pos rule: less_induct)
  case less
  let ?V = "as_view K s a" and ?va = "start + pos"
  note D = ainvD [OF i]
  show ?case
  proof (cases "pos < n")
    case False
    then show ?thesis using less.prems by (intro exI [of _ "[]"] exI [of _ "Inr ()"] exI [of _ n]) (auto simp: process_chunks.simps)
  next
    case True
    have va: "?va \<in> as_addrs a" "?va < usize_bound" using True r range_fits(1) [OF i, of ?va] by (auto simp: as_addrs_def)
    have ad: "usize_add start pos = ?va" using va(2) by (simp add: usize_add_id)
    note Q = query_spec [OF D(1) D(5) [OF va(1)]]
    show ?thesis
    proof (cases "may_access ?V access kind ?va")
      case False
      then have "\<exists>x. process_chunks K a start n access kind s pos = Some ([], Inl x)"
      proof (cases "?V ?va")
        case None
        then show ?thesis using True Q by (subst process_chunks.simps) (simp add: ad)
      next
        case (Some y)
        then obtain pa fl ps where y: "?V ?va = Some (pa, fl, ps)" by (cases y) auto
        then have "\<not> access \<subseteq> fl \<or> DEVICE \<in> fl \<or> (kind \<noteq> None \<and> Some (kind_from_flags fl) \<noteq> kind)"
          using False by (auto simp: may_access_def)
        then show ?thesis using True Q y by (subst process_chunks.simps) (simp add: ad)
      qed
      then show ?thesis using True False by fastforce
    next
      case m: True
      then obtain pa fl ps where v: "?V ?va = Some (pa, fl, ps)" by (auto simp: may_access_def split: option.splits)
      let ?B = "page_bytes ps" and ?m = "?va mod page_bytes ps"
      have mB: "?m < ?B" "?B \<le> 2 ^ 30" using page_bytes_dvd(2) [of ps] by (simp, cases ps, simp_all add: page_bytes_def)
      have "pa < 2 ^ pa_bits" using D(6) [OF va(1) v] by (simp add: leaf_fine_def)
      moreover have "(2::nat) ^ pa_bits \<le> 2 ^ 63" using pa_reach by (intro power_increasing) simp_all
      ultimately have nw: "usize_add pa ?m = pa + ?m" using mB by (intro usize_add_id) (simp add: usize_bound_def)
      let ?c = "min (?B - ?m) (n - pos)"
      have sub: "usize_sub ?B ?m = ?B - ?m" using mB by (intro usize_sub_id) (auto simp: usize_bound_def)
      have c: "0 < ?c" "pos + ?c \<le> n" "?c \<le> ?B - ?m" using mB(1) True by auto
      have "pos + ?c < usize_bound" using c(2) r(2) range_fits(1) [OF i r(2)] by simp
      then have ac: "usize_add pos ?c = pos + ?c" by (rule usize_add_id)
      have step: "?V (?va + j) = Some (pa, fl, ps)" "phys_at ?V (?va + j) = pa + ?m + j" if "j < ?c" for j
      proof -
        have "?m + j < ?B" using that c(3) mB(1) by linarith
        note S = same_page_step [OF this]
        have le: "?va + j \<le> va_end (as_range a)" "?va \<le> va_end (as_range a)" using that c(2) r(2) by linarith+
        show v': "?V (?va + j) = Some (pa, fl, ps)" using S(1) le [THEN range_fits(2) [OF i]] by (intro view_page [OF v]) (simp_all add: same_page_def)
        then show "phys_at ?V (?va + j) = pa + ?m + j" using S(2) by (simp add: phys_at_def)
      qed
      have may: "may_access ?V access kind (start + j)" if j: "pos \<le> j" "j < pos + ?c" for j
      proof -
        have "j - pos < ?c" using j by linarith
        from step(1) [OF this] have "?V (start + j) = Some (pa, fl, ps)" using j(1) by simp
        then show ?thesis using m v by (simp add: may_access_def)
      qed
      have lt: "n - (pos + ?c) < n - pos" using c True by simp
      obtain cs x e where R: "process_chunks K a start n access kind s (pos + ?c) = Some (cs, x)" "chunks ?V start (pos + ?c) cs e"
        "e \<le> n" "\<forall>j. pos + ?c \<le> j \<and> j < e \<longrightarrow> may_access ?V access kind (start + j)"
        "x = Inr () \<and> e = n \<or> (\<exists>y. x = Inl y) \<and> e < n \<and> \<not> may_access ?V access kind (start + e)"
        using less.hyps [OF lt c(2)] by blast
      have "process_chunks K a start n access kind s pos = Some ((pa + ?m, pos, ?c) # cs, x)"
        using True Q v m R(1) by (subst process_chunks.simps) (auto simp: ad Let_def may_access_def nw sub ac simp del: not_None_eq)
      moreover have "chunks ?V start pos ((pa + ?m, pos, ?c) # cs) e" using step(2) R(2) by simp
      moreover have "\<forall>j. pos \<le> j \<and> j < e \<longrightarrow> may_access ?V access kind (start + j)" using may R(4) by (meson not_le)
      ultimately show ?thesis using R(3,5) by blast
    qed
  qed
qed

lemma process_chunks_ok:
  assumes i: "ainv own s a" and r: "va_start (as_range a) \<le> start" "start + n \<le> va_end (as_range a)"
    and ok: "\<And>j. j < n \<Longrightarrow> may_access (as_view K s a) access kind (start + j)"
  shows "\<exists>cs. process_chunks K a start n access kind s 0 = Some (cs, Inr ()) \<and> chunks (as_view K s a) start 0 cs n"
proof -
  from process_chunks_spec [OF i r le0, of access kind]
  obtain cs x e where c: "process_chunks K a start n access kind s 0 = Some (cs, x)" "chunks (as_view K s a) start 0 cs e"
    and x: "x = Inr () \<and> e = n \<or> (\<exists>y. x = Inl y) \<and> e < n \<and> \<not> may_access (as_view K s a) access kind (start + e)"
    by (elim exE conjE)
  from x have "x = Inr () \<and> e = n" using ok [of e] by (elim disjE conjE) simp_all
  then show ?thesis using c by simp
qed

end

section \<open>Every operation of an address space\<close>

text \<open>The page map after new flags for the leaves at the addresses \<open>X\<close>.\<close>

definition reflag :: "mapping_flags \<Rightarrow> usize set \<Rightarrow> page_map \<Rightarrow> page_map" where
  "reflag fl X V = (\<lambda>va. if va \<in> X then map_option (\<lambda>(pa, _, ps). (pa, fl, ps)) (V va) else V va)"

context aspace_laws
begin

lemma protect_pages_spec:
  fixes s :: "('p, 'h, 'z) machine_scheme"
  assumes "ainv own s a" "\<And>x. x \<in> set xs \<Longrightarrow> x mod 4096 = 0" "pages_of xs \<subseteq> as_addrs a"
    "uniform (as_view K s a) AllocKind Size4K (pages_of xs)" and fl: "pte_flags K AllocKind fl0 = Inr fl"
  shows "\<exists>s'. protect_pages K (as_pt a) fl xs s = Some s' \<and> ainv own s' a \<and> as_map K s' a = reflag (stored fl) (pages_of xs) (as_map K s a) \<and>
    ref_count s' = ref_count s \<and> phys_bytes s' = phys_bytes s"
  using assms(1-4)
proof (induction xs arbitrary: s)
  case Nil
  then show ?case by (simp add: reflag_def)
next
  case (Cons x xs)
  have x: "x mod 4096 = 0" "frame_page x \<subseteq> as_addrs a" "x \<in> as_addrs a" using Cons.prems(2,3) by auto
  have ux: "uniform (as_view K s a) AllocKind Size4K (frame_page x)" using Cons.prems(4) by (auto simp: uniform_def)
  note pv = frame_page_view [OF Cons.prems(1) x(1,2) ux]
  have ok: "leaf_ok fl" "ALLOC_FRAME \<in> fl" using pte_flags_ok [OF fl] pte_flags_kind [OF fl] by auto
  have "\<exists>s1. (\<exists>r. pt_protect (k_pg K) s (as_pt a) x fl = Some (s1, r) \<and> (r = Inr Size4K \<or> r = Inl NotMapped)) \<and> ainv own s1 a \<and>
      as_map K s1 a = reflag (stored fl) (frame_page x) (as_map K s a) \<and> ref_count s1 = ref_count s \<and> phys_bytes s1 = phys_bytes s"
  proof (cases "as_view K s a x")
    case None
    have "as_map K s a va = None" if "va \<in> frame_page x" for va using pv [OF that] None by (simp add: as_map_def restrict_map_def)
    then have "reflag (stored fl) (frame_page x) (as_map K s a) = as_map K s a"
      by (auto simp: reflag_def fun_eq_iff)
    then show ?thesis
      using protect_spec [OF ainvD(1) [OF Cons.prems(1)] ainvD(5) [OF Cons.prems(1) x(3)] ok(1)] None Cons.prems(1) by auto
  next
    case (Some y)
    obtain pa old ps where y: "as_view K s a x = Some (pa, old, ps)" using Some by (cases y) auto
    moreover have "x \<in> frame_page x" by simp
    ultimately have k: "kind_from_flags old = AllocKind" "ps = Size4K" using ux unfolding uniform_def by blast+
    then have "ALLOC_FRAME \<in> old" by (simp add: kind_from_flags_def split: if_splits)
    then obtain s1 where s1: "pt_protect (k_pg K) s (as_pt a) x fl = Some (s1, Inr ps)" "ainv own s1 a"
      "as_map K s1 a = retag stored x fl (as_map K s a)" "ref_count s1 = ref_count s" "phys_bytes s1 = phys_bytes s"
      using protect_leaf [OF Cons.prems(1), of x pa old ps fl] y x(3) ok by (auto simp: as_map_def)
    have "retag stored x fl (as_map K s a) = reflag (stored fl) (frame_page x) (as_map K s a)"
    proof
      fix va
      have sp: "same_page Size4K x va \<longleftrightarrow> va \<in> frame_page x"
        using same_page_aligned [of Size4K x va] x(1) by (simp add: page_bytes_def mod_eq_0_iff_dvd)
      show "retag stored x fl (as_map K s a) va = reflag (stored fl) (frame_page x) (as_map K s a) va"
      proof (cases "va \<in> frame_page x")
        case True
        then have "as_map K s a va = Some (pa, old, Size4K)" using pv [OF True] y k(2) x(2) by (auto simp: as_map_def)
        then show ?thesis using y k(2) x(3) sp True by (simp add: retag_def reflag_def as_map_def)
      next
        case False
        then show ?thesis using y k(2) x(3) sp by (auto simp: retag_def reflag_def as_map_def)
      qed
    qed
    then show ?thesis using s1 k(2) by auto
  qed
  then obtain s1 r where s1: "pt_protect (k_pg K) s (as_pt a) x fl = Some (s1, r)" "r = Inr Size4K \<or> r = Inl NotMapped" "ainv own s1 a"
    "as_map K s1 a = reflag (stored fl) (frame_page x) (as_map K s a)" "ref_count s1 = ref_count s" "phys_bytes s1 = phys_bytes s" by blast
  have "uniform (as_view K s1 a) AllocKind Size4K (pages_of xs)"
    unfolding uniform_def
  proof (intro ballI allI impI)
    fix va pa f ps assume va: "va \<in> pages_of xs" and v: "as_view K s1 a va = Some (pa, f, ps)"
    have va': "va \<in> as_addrs a" using va Cons.prems(3) by auto
    have al: "ALLOC_FRAME \<in> stored fl" using stored_ok [OF ok(1)] ok(2) by simp
    have "as_map K s1 a va = Some (pa, f, ps)" using v va' by (simp add: as_map_def)
    then have "reflag (stored fl) (frame_page x) (as_map K s a) va = Some (pa, f, ps)" unfolding s1(4) .
    then show "kind_from_flags f = AllocKind \<and> ps = Size4K"
      using Cons.prems(4) va va' al by (auto simp: uniform_def reflag_def as_map_def kind_from_flags_def split: if_splits)
  qed
  from Cons.IH [OF s1(3) _ _ this] Cons.prems(2,3)
  obtain s2 where s2: "protect_pages K (as_pt a) fl xs s1 = Some s2" "ainv own s2 a"
    "as_map K s2 a = reflag (stored fl) (pages_of xs) (as_map K s1 a)" "ref_count s2 = ref_count s1" "phys_bytes s2 = phys_bytes s1" by auto
  have "as_map K s2 a = reflag (stored fl) (pages_of (x # xs)) (as_map K s a)"
    unfolding s2(3) s1(4) by (auto simp: reflag_def fun_eq_iff option.map_comp comp_def split_def)
  then show ?case using s1 s2 by auto
qed

lemma protect_alloc_spec:
  assumes i: "ainv own s a"
  shows "\<exists>s' r. as_protect_alloc_range K a start n fl0 s = Some (s', r) \<and> ainv own s' a \<and> ref_count s' = ref_count s \<and> phys_bytes s' = phys_bytes s \<and>
    (if range_ok a start n Size4K \<and> uniform (as_view K s a) AllocKind Size4K {start..<start + n} \<and> is_ok (pte_flags K AllocKind fl0) then
       r = Inr () \<and> (\<forall>fl. pte_flags K AllocKind fl0 = Inr fl \<longrightarrow> as_map K s' a = reflag (stored fl) {start..<start + n} (as_map K s a))
     else s' = s \<and> (\<exists>e. r = Inl e))"
proof (cases "range_ok a start n Size4K \<and> uniform (as_view K s a) AllocKind Size4K {start..<start + n} \<and> is_ok (pte_flags K AllocKind fl0)")
  case True
  then obtain c fl where c: "preflight_range K a start n AllocKind Size4K s = Inr c" "pte_flags K AllocKind fl0 = Inr fl"
    using preflight_spec [OF i, of AllocKind Size4K start n] by (auto simp: is_ok_def split: sum.splits)
  note S = page_split [OF i conjunct1 [OF True]]
  show ?thesis
    using protect_pages_spec [where xs = "page_addrs start (start + n) 4096", OF i S(4), unfolded S(3), OF _ _ _ c(2)] True
      range_addrs [of a start n Size4K] c S(1,2)
    by (auto simp: as_protect_alloc_range_def simp del: checked_add_Some)
next
  case False
  then show ?thesis using preflight_spec [OF i, of AllocKind Size4K start n] i
    by (cases "preflight_range K a start n AllocKind Size4K s"; cases "pte_flags K AllocKind fl0")
      (auto simp: as_protect_alloc_range_def is_ok_def)
qed

end

text \<open>The operations as steps on the owners and the machine. A reference is free for use as a handle when the leaves do not
  need it. A transaction step may leave the journal open.\<close>

definition is_handle :: "('p, 'h) kernel \<Rightarrow> aspace \<Rightarrow> usize multiset \<Rightarrow> ('p, 'h, 'z) machine_scheme \<Rightarrow> usize \<Rightarrow> bool" where
  "is_handle K a own s p \<longleftrightarrow> add_mset p (pte_frames (as_view K s a) (as_addrs a)) \<subseteq># own"

inductive as_step :: "('p, 'h) kernel \<Rightarrow> aspace \<Rightarrow> usize multiset \<times> ('p, 'h) machine \<Rightarrow> usize multiset \<times> ('p, 'h) machine \<Rightarrow> bool"
  for K :: "('p, 'h) kernel" and a where
  allocate: "allocate_zeroed K s = Some (s', Some p) \<Longrightarrow> as_step K a (own, s) (add_mset p own, s')"
| allocate_fails: "allocate_zeroed K s = Some (s', None) \<Longrightarrow> as_step K a (own, s) (own, s')"
| copy: "deep_copy K p s = Some (s', Some q) \<Longrightarrow> as_step K a (own, s) (add_mset q own, s')"
| copy_fails: "deep_copy K p s = Some (s', None) \<Longrightarrow> as_step K a (own, s) (own, s')"
| clone: "p \<in># own \<Longrightarrow> clone_from_pte K p s = (s', Inr p) \<Longrightarrow> as_step K a (own, s) (add_mset p own, s')"
| drop: "is_handle K a own s p \<Longrightarrow> frame_drop K p s = Some s' \<Longrightarrow> as_step K a (own, s) (own - {#p#}, s')"
| map_ok: "is_handle K a own s p \<Longrightarrow> map_frame K a x p fl s = Some (s', Inr u) \<Longrightarrow> as_step K a (own, s) (own, s')"
| map_err: "is_handle K a own s p \<Longrightarrow> map_frame K a x p fl s = Some (s', Inl e) \<Longrightarrow> as_step K a (own, s) (own - {#p#}, s')"
| replace_ok: "is_handle K a own s q \<Longrightarrow> va \<in> as_addrs a \<Longrightarrow> replace_frame K a va p q fl s = Some (s', Inr u) \<Longrightarrow> as_step K a (own, s) (own - {#p#}, s')"
| replace_err: "is_handle K a own s q \<Longrightarrow> va \<in> as_addrs a \<Longrightarrow> replace_frame K a va p q fl s = Some (s', Inl e) \<Longrightarrow> as_step K a (own, s) (own - {#q#}, s')"
| unmap_ok: "unmap_alloc_range K a start n s = Some (s', Inr u) \<Longrightarrow>
    as_step K a (own, s) (own - pte_frames (as_view K s a) {start..<start + n}, s')"
| unmap_err: "unmap_alloc_range K a start n s = Some (s', Inl e) \<Longrightarrow> as_step K a (own, s) (own, s')"
| protect_page: "protect_alloc_page K a va fl s = Some (s', r) \<Longrightarrow> as_step K a (own, s) (own, s')"
| protect_tx: "tx_step K a (s, cs) (s', cs') \<Longrightarrow> as_step K a (own, s) (own, s')"
| write_bytes: "va_start (as_range a) \<le> start \<Longrightarrow> start + length xs \<le> va_end (as_range a) \<Longrightarrow>
    write_alloc_bytes K a start xs s = Some (s', r) \<Longrightarrow> as_step K a (own, s) (own, s')"

inductive_cases as_stepE: "as_step K a x y"

context aspace_laws
begin

lemma ainv_new_frame:
  assumes i: "ainv own s a" and t: "pt_tables s' = pt_tables s"
    and f: "case r of None \<Rightarrow> finv own s' \<and> live (pt_heap s') = live (pt_heap s)
      | Some p \<Rightarrow> finv (add_mset p own) s' \<and> p \<notin> live (pt_heap s) \<and> frame_addr pa_bits p \<and> live (pt_heap s') = insert p (live (pt_heap s))"
  shows "ainv (case r of None \<Rightarrow> own | Some p \<Rightarrow> add_mset p own) s' a" "as_view K s' a = as_view K s a"
proof -
  note D = ainvD [OF i]
  have tb: "pt_tabs (k_pg K) s (as_pt a) \<subseteq> live (pt_heap s)" using D(1) by (simp add: pt_valid_def)
  have le: "pte_frames (as_view K s a) (as_addrs a) \<subseteq># add_mset p own" for p
    by (rule subset_mset.order_trans [OF D(7)]) simp
  have "ainv (case r of None \<Rightarrow> own | Some p \<Rightarrow> add_mset p own) s' a \<and> as_view K s' a = as_view K s a"
  proof (cases r)
    case None
    then have fi: "finv own s'" "live (pt_heap s') = live (pt_heap s)" using f by auto
    show ?thesis using ainv_frame [OF i t fi(1) _ D(3) D(7,4)] fi(2) None by auto
  next
    case (Some p)
    then have fi: "finv (add_mset p own) s'" "p \<notin> live (pt_heap s)" "frame_addr pa_bits p" "live (pt_heap s') = insert p (live (pt_heap s))"
      using f by auto
    have "pt_tabs (k_pg K) s (as_pt a) \<inter> set_mset (add_mset p own) = {}" using D(4) tb fi(2) by auto
    then show ?thesis using ainv_frame [OF i t fi(1) _ _ le] fi D(3) Some by auto
  qed
  then show "ainv (case r of None \<Rightarrow> own | Some p \<Rightarrow> add_mset p own) s' a" "as_view K s' a = as_view K s a" by blast+
qed

lemma ainv_phys:
  assumes i: "ainv own s a"
  shows "ainv own (s\<lparr>phys_bytes := P\<rparr>) a"
proof -
  have f: "finv own (s\<lparr>phys_bytes := P\<rparr>)" using ainvD(2) [OF i] by (simp add: frame_inv_def)
  show ?thesis by (rule ainv_frame(1) [OF i _ f _ ainvD(3) [OF i] ainvD(7,4) [OF i]]) auto
qed

lemma write_phys: "\<exists>P. fold (write_chunk xs) cs s = s\<lparr>phys_bytes := P\<rparr>"
proof (induction cs arbitrary: s)
  case Nil
  then show ?case by (intro exI [of _ "phys_bytes s"]) simp
next
  case (Cons c cs)
  obtain Q where "write_chunk xs c s = s\<lparr>phys_bytes := Q\<rparr>" by (cases c) (simp add: write_chunk_def)
  moreover obtain P where "fold (write_chunk xs) cs (s\<lparr>phys_bytes := Q\<rparr>) = s\<lparr>phys_bytes := Q, phys_bytes := P\<rparr>" using Cons by blast
  ultimately show ?case by (intro exI [of _ P]) simp
qed

lemma as_step_inv:
  assumes "as_step K a (own, s) (own', s')" "ainv own s a"
  shows "ainv own' s' a"
  using assms(1)
proof (cases rule: as_step.cases)
  case (allocate p)
  then show ?thesis using allocate_spec [OF ainvD(2) [OF assms(2)]] ainv_new_frame(1) [OF assms(2), of s' "Some p"] by auto
next
  case allocate_fails
  then show ?thesis using allocate_spec [OF ainvD(2) [OF assms(2)]] ainv_new_frame(1) [OF assms(2), of s' None] by auto
next
  case (copy p q)
  then show ?thesis using deep_copy_spec [OF ainvD(2) [OF assms(2)], of p] ainv_new_frame(1) [OF assms(2), of s' "Some q"] by auto
next
  case (copy_fails p)
  then show ?thesis using deep_copy_spec [OF ainvD(2) [OF assms(2)], of p] ainv_new_frame(1) [OF assms(2), of s' None] by auto
next
  case (clone p)
  note D = ainvD [OF assms(2)]
  have c: "count own p < u32_max" using clone D(2)
    by (auto simp: clone_from_pte_def meta_try_get_def frame_inv_def split: if_splits intro: le_neq_implies_less)
  have s': "s' = s\<lparr>ref_count := (ref_count s)(p := Suc (ref_count s p))\<rparr>" "finv (add_mset p own) s'"
    using clone_spec [OF D(2) clone(2) c] clone(3) by auto
  have le: "pte_frames (as_view K s a) (as_addrs a) \<subseteq># add_mset p own" by (rule subset_mset.order_trans [OF D(7)]) simp
  show ?thesis unfolding clone(1) by (rule ainv_frame(1) [OF assms(2) _ s'(2) _ _ le]) (use s'(1) D(3,4) clone(2) in auto)
next
  case (drop p)
  then show ?thesis using ainv_drop [OF assms(2), of p] by (auto simp: is_handle_def)
next
  case (map_ok p x fl u)
  then show ?thesis using map_frame_spec [OF assms(2), of p x fl] by (auto simp: is_handle_def)
next
  case (map_err p x fl e)
  then show ?thesis using map_frame_spec [OF assms(2), of p x fl] by (auto simp: is_handle_def)
next
  case (replace_ok q va p fl u)
  then show ?thesis using replace_frame_spec [OF assms(2) _ _ refl, of q va p fl] by (auto simp: is_handle_def)
next
  case (replace_err q va p fl e)
  then show ?thesis using replace_frame_spec [OF assms(2) _ _ refl, of q va p fl] by (auto simp: is_handle_def)
next
  case (unmap_ok start n u)
  then show ?thesis using unmap_alloc_spec [OF assms(2), of start n] by (auto split: if_splits)
next
  case (unmap_err start n e)
  then show ?thesis using unmap_alloc_spec [OF assms(2), of start n] assms(2) by (auto split: if_splits)
next
  case (protect_page va fl r)
  then show ?thesis using protect_alloc_spec [OF assms(2), of "align_down (k_addr K) va (page_bytes Size4K)" "page_bytes Size4K" fl]
    by (auto simp: protect_alloc_page_def simp del: page_align)
next
  case (protect_tx cs cs')
  then show ?thesis using tx_step_chain [OF _ assms(2), of cs s' cs'] by auto
next
  case (write_bytes start xs r)
  then obtain cs where "s' = fold (write_chunk xs) cs s" by (auto simp: write_alloc_bytes_def)
  then show ?thesis using write_phys [of xs cs s] ainv_phys [OF assms(2)] write_bytes(1) by metis
qed

lemma as_run_inv: "(as_step K a)\<^sup>*\<^sup>* (own, s) (own', s') \<Longrightarrow> ainv own s a \<Longrightarrow> ainv own' s' a"
  by (induction rule: rtranclp_induct2) (auto intro: as_step_inv)

end

section \<open>The kernel's page-table formats\<close>

lemma rv_aspace_laws:
  assumes "kernel_laws K 56 rv_leaf_ok rv_stored hi lv" "k_riscv K"
  shows "aspace_laws K 56 rv_leaf_ok rv_stored hi lv"
proof (rule aspace_laws.intro [OF assms(1)], unfold_locales)
  show "rv_leaf_ok (rv_stored fl) \<and> rv_stored (rv_stored fl) = rv_stored fl \<and> (ALLOC_FRAME \<in> rv_stored fl \<longleftrightarrow> ALLOC_FRAME \<in> fl)"
    if "rv_leaf_ok fl" for fl using that by (auto simp: rv_leaf_ok_def rv_stored_def)
  show "rv_leaf_ok fl'" if "pte_flags K kind fl = Inr fl'" for kind fl fl'
    using that assms(2) by (auto simp: pte_flags_def Let_def rv_leaf_ok_def split: if_splits)
qed

lemma la_aspace_laws:
  assumes "kernel_laws K 48 la_leaf_ok la_stored hi lv"
  shows "aspace_laws K 48 la_leaf_ok la_stored hi lv"
proof (rule aspace_laws.intro [OF assms(1)], unfold_locales)
  show "la_leaf_ok (la_stored fl) \<and> la_stored (la_stored fl) = la_stored fl \<and> (ALLOC_FRAME \<in> la_stored fl \<longleftrightarrow> ALLOC_FRAME \<in> fl)"
    if "la_leaf_ok fl" for fl using that by (auto simp: la_leaf_ok_def la_stored_def)
  show "la_leaf_ok fl'" if "pte_flags K kind fl = Inr fl'" for kind fl fl'
    using that by (auto simp: pte_flags_def Let_def la_leaf_ok_def has_leaf_access_def split: if_splits)
qed

interpretation demo_as: aspace_laws demo_K 56 rv_leaf_ok rv_stored demo_inv demo_live
  by (rule rv_aspace_laws [OF demo_K.kernel_laws_axioms]) (simp add: demo_K_def)

section \<open>Properties\<close>

text \<open>C2: no mapped frame is ever free. Over every sequence of allocations, copies, clones, drops of handles, mappings, replacements,
  unmappings, permission changes and byte writes, with their error paths, the page map and the owners stay consistent:
  every allocated page that the address space maps is backed by a frame that is allocated, counted, and not a page table.\<close>

theorem address_space_safe:
  assumes "aspace_laws K pa_bits ok st hi lv" and "as_inv K pa_bits ok st hi lv own s a"
    and "(as_step K a)\<^sup>*\<^sup>* (own, s) (own', s')"
  shows "as_inv K pa_bits ok st hi lv own' s' a \<and>
    (\<forall>va pa fl. va \<in> as_addrs a \<and> va mod 4096 = 0 \<and> as_view K s' a va = Some (pa, fl, Size4K) \<and> ALLOC_FRAME \<in> fl \<longrightarrow>
       pa \<in> lv (pt_heap s') \<and> 0 < ref_count s' pa \<and> pa \<notin> pt_tabs (k_pg K) s' (as_pt a))"
proof -
  have i: "as_inv K pa_bits ok st hi lv own' s' a" by (rule aspace_laws.as_run_inv [OF assms(1,3,2)])
  note D = aspace_laws.ainvD [OF assms(1) i]
  have safe: "pa \<in> lv (pt_heap s') \<and> 0 < ref_count s' pa \<and> pa \<notin> pt_tabs (k_pg K) s' (as_pt a)"
    if v: "va \<in> as_addrs a" "va mod 4096 = 0" "as_view K s' a va = Some (pa, fl, Size4K)" "ALLOC_FRAME \<in> fl" for va pa fl
  proof -
    have "pa \<in># own'" by (rule aspace_laws.alloc_live(1) [OF assms(1) i v])
    then show ?thesis using D(2,4) by (auto simp: frame_inv_def)
  qed
  show ?thesis by (rule conjI [OF i], intro allI impI, elim conjE) (rule safe)
qed

text \<open>C10: unmapping is exact. On a range of pages that are unmapped or allocated, \<open>unmap_alloc_range\<close> succeeds, removes exactly the
  mappings of the range and releases exactly one reference for each; on any other range it fails and changes nothing. It never panics.\<close>

theorem unmap_alloc_range_exact:
  assumes "aspace_laws K pa_bits ok st hi lv" and "as_inv K pa_bits ok st hi lv own s a"
  shows "\<exists>s' r. unmap_alloc_range K a start n s = Some (s', r) \<and>
    (if range_ok a start n Size4K \<and> uniform (as_view K s a) AllocKind Size4K {start..<start + n} then
       r = Inr () \<and> as_inv K pa_bits ok st hi lv (own - pte_frames (as_view K s a) {start..<start + n}) s' a \<and>
       (\<forall>va \<in> as_addrs a. as_view K s' a va = (if va \<in> {start..<start + n} then None else as_view K s a va))
     else s' = s \<and> (\<exists>e. r = Inl e))"
  using aspace_laws.unmap_alloc_spec [OF assms, of start n] unfolding clear_addrs_def .

text \<open>C7: protection transactions are atomic. Whatever permission changes a transaction has made, and whichever of them failed,
  dropping it uncommitted never panics and restores every translation of the address space.\<close>

theorem protection_rollback:
  assumes "aspace_laws K pa_bits ok st hi lv" and "as_inv K pa_bits ok st hi lv own s a"
    and "(tx_step K a)\<^sup>*\<^sup>* (s, []) (s', cs)"
  shows "\<exists>s''. tx_drop K a False cs s' = Some s'' \<and> as_inv K pa_bits ok st hi lv own s'' a \<and>
    (\<forall>va \<in> as_addrs a. as_view K s'' a va = as_view K s a va) \<and> ref_count s'' = ref_count s \<and> phys_bytes s'' = phys_bytes s"
proof -
  note R = aspace_laws.tx_run_chain [OF assms(1,3,2)]
  have "\<forall>va y. as_map K s a va = Some y \<longrightarrow> leaf_fine pa_bits ok st y"
    using aspace_laws.ainvD(6) [OF assms(1,2)] by (auto simp: as_map_def restrict_map_def split: if_splits)
  then obtain s'' where s: "tx_drop K a False cs s' = Some s''" "as_inv K pa_bits ok st hi lv own s'' a" "as_map K s'' a = as_map K s a"
    "ref_count s'' = ref_count s'" "phys_bytes s'' = phys_bytes s'"
    using aspace_laws.revert_chain [OF assms(1), of own s' a "as_map K s a" cs] R by (auto simp: tx_drop_def)
  have "as_view K s'' a va = as_view K s a va" if "va \<in> as_addrs a" for va
    using fun_cong [OF s(3), of va] that by (simp add: as_map_def)
  then show ?thesis using s R by auto
qed


section \<open>Concrete instances\<close>

text \<open>A new user address space in which one zeroed frame is mapped at \<open>0x1000\<close>.\<close>

definition demo_a :: aspace where
  "demo_a = \<lparr>as_range = \<lparr>va_start = 0x1000, va_end = 0x4000\<rparr>, as_pt = demo_pt\<rparr>"

definition demo_m2 :: "(64 word, nat list page_allocator) machine" where
  "demo_m2 = fst (as_new_user demo_K 0x1000 0x3000 demo_m)"

definition demo_m3 :: "(64 word, nat list page_allocator) machine" where
  "demo_m3 = fst (the (allocate_zeroed demo_K demo_m2))"

definition demo_m4 :: "(64 word, nat list page_allocator) machine" where
  "demo_m4 = fst (the (map_frame demo_K demo_a 0x1000 0x80002000 {READ, WRITE, USER} demo_m3))"

lemma demo_pg_alloc:
  "i < 8 \<Longrightarrow> pg_alloc demo_G \<lparr>pa_base = 0x80000000, pa_total_pages = 8, pa_used_pages = u, pa_inner = i # r\<rparr> =
    (Some (0x80000000 + i * 4096), \<lparr>pa_base = 0x80000000, pa_total_pages = 8, pa_used_pages = usize_add u 1, pa_inner = removeAll i r\<rparr>)"
  by (simp add: demo_G_def sv39_def handler_alloc_frame_def
        alloc_pages_def std_bits_def index_address_def MAX_ALIGN_1GB_def page_alignment PAGE_SIZE_4K_def
        is_power_of_two_power [of 0, simplified] virt_to_phys_def usize_sub_def usize_bound_def)

lemma demo_k_pg: "k_pg demo_K = demo_G" "k_smp demo_K = 1"
  by (simp_all add: demo_K_def)

lemma demo_slot:
  assumes "pt_tables s 0x80001000 = replicate 512 0"
    "pt_heap s = \<lparr>pa_base = 0x80000000, pa_total_pages = 8, pa_used_pages = u, pa_inner = [3, 4, 5, 6, 7]\<rparr>"
  shows "\<exists>s' r. get_entry_mut_or_create demo_G s demo_pt 0x1000 Size4K = (s', Inr r) \<and> is_unused (pg_pte demo_G) (entry s' r)"
proof -
  have lv: "pg_levels demo_G = 3" "pg_pte demo_G = rv64_pte" by (simp_all add: demo_G_def sv39_def)
  have idx: "p3_index 0x1000 = 0" "p2_index 0x1000 = 0" "p1_index 0x1000 = 1"
    by (simp_all add: p_index_eq)
  show ?thesis
    by (simp add: get_entry_mut_or_create_def lv idx Let_def next_table_mut_or_create_def alloc_table_def assms demo_pg_alloc demo_pt_def
      entry_def set_entry_def ENTRY_COUNT_def rv64_pte_def rv_is_unused_def)
qed

lemma demo_new_user: "as_new_user demo_K 0x1000 0x3000 demo_m = (demo_m2, Inr demo_a)"
  and demo_m2_heap: "pt_heap demo_m2 = \<lparr>pa_base = 0x80000000, pa_total_pages = 8, pa_used_pages = 2, pa_inner = [2, 3, 4, 5, 6, 7]\<rparr>"
  and demo_m2_root: "pt_tables demo_m2 0x80001000 = replicate 512 0"
  and demo_m2_count: "ref_count demo_m2 = (\<lambda>_. 0)"
proof -
  have a: "pg_addr demo_G = std_addr" "pg_pte demo_G = rv64_pte" by (simp_all add: demo_G_def sv39_def)
  have "try_from_start_size std_addr 0x1000 0x3000 = Some \<lparr>va_start = 0x1000, va_end = 0x4000\<rparr>"
    by (simp add: std_addr_def usize_bound_def)
  then have u: "as_new_user demo_K 0x1000 0x3000 demo_m =
    (demo_m\<lparr>pt_heap := \<lparr>pa_base = 0x80000000, pa_total_pages = 8, pa_used_pages = usize_add 1 1, pa_inner = [2, 3, 4, 5, 6, 7]\<rparr>,
      pt_tables := (pt_tables demo_m)(0x80001000 := replicate 512 0)\<rparr>, Inr demo_a)"
    by (simp add: as_new_user_def as_new_empty_def a demo_k_pg pt_try_new_def alloc_table_def demo_m_def demo_pages_def demo_pg_alloc demo_a_def demo_pt_def
        ENTRY_COUNT_def rv64_pte_def)
  then show "as_new_user demo_K 0x1000 0x3000 demo_m = (demo_m2, Inr demo_a)" by (simp add: demo_m2_def)
  show "pt_heap demo_m2 = \<lparr>pa_base = 0x80000000, pa_total_pages = 8, pa_used_pages = 2, pa_inner = [2, 3, 4, 5, 6, 7]\<rparr>"
    "pt_tables demo_m2 0x80001000 = replicate 512 0" "ref_count demo_m2 = (\<lambda>_. 0)"
    unfolding demo_m2_def u by (simp_all add: usize_add_def usize_bound_def demo_m_def)
qed

lemma demo_allocated: "allocate_zeroed demo_K demo_m2 = Some (demo_m3, Some 0x80002000)"
  and demo_m3_heap: "pt_heap demo_m3 = \<lparr>pa_base = 0x80000000, pa_total_pages = 8, pa_used_pages = 3, pa_inner = [3, 4, 5, 6, 7]\<rparr>"
  and demo_m3_root: "pt_tables demo_m3 = pt_tables demo_m2"
proof -
  have md: "db_metadata demo_K 0x80002000" by (simp add: demo_K_def db_metadata_def checked_sub_def PAGE_SIZE_4K_def)
  have u: "allocate_zeroed demo_K demo_m2 = Some (demo_m2\<lparr>pt_heap := \<lparr>pa_base = 0x80000000, pa_total_pages = 8, pa_used_pages = usize_add 2 1,
      pa_inner = [3, 4, 5, 6, 7]\<rparr>, ref_count := (ref_count demo_m2)(0x80002000 := 1),
      phys_bytes := put_bytes 0x80002000 (replicate PAGE_SIZE_4K 0) (phys_bytes demo_m2)\<rparr>, Some 0x80002000)"
    by (simp add: allocate_zeroed_def demo_k_pg demo_m2_heap demo_pg_alloc md demo_m2_count meta_claim_def)
  then show "allocate_zeroed demo_K demo_m2 = Some (demo_m3, Some 0x80002000)" by (simp add: demo_m3_def)
  show "pt_heap demo_m3 = \<lparr>pa_base = 0x80000000, pa_total_pages = 8, pa_used_pages = 3, pa_inner = [3, 4, 5, 6, 7]\<rparr>"
    "pt_tables demo_m3 = pt_tables demo_m2"
    unfolding demo_m3_def u by (simp_all add: usize_add_def usize_bound_def)
qed

lemma demo_addrs: "as_addrs demo_a = {0x1000..<0x4000}"
  by (simp add: as_addrs_def demo_a_def)

lemma demo_m2_ainv: "demo_as.ainv {#} demo_m2 demo_a" "as_view demo_K demo_m2 demo_a va = None"
proof -
  have n: "pt_try_new demo_G demo_m = (demo_m2, Inr demo_pt)"
    using demo_new_user by (auto simp: as_new_user_def as_new_empty_def demo_k_pg demo_a_def split: option.splits prod.splits sum.splits)
  have h: "demo_inv (pt_heap demo_m)" using demo_pages_inv by (simp add: demo_m_def)
  note N = paging_laws.try_new_spec [OF demo_laws h n]
  show v: "as_view demo_K demo_m2 demo_a va = None" for va using N by (simp add: demo_k_pg demo_a_def)
  have "pte_frames (as_view demo_K demo_m2 demo_a) (as_addrs demo_a) = {#}" by (rule pte_frames_none) (simp add: v alloc_leaf_def)
  moreover have "frame_inv demo_K demo_inv demo_live {#} demo_m2" using N by (simp add: frame_inv_def demo_m2_count pt_valid_def)
  moreover have "owned demo_G demo_pt va" if "va \<in> as_addrs demo_a" for va
    using that demo_owned [of va] by (simp add: demo_addrs)
  moreover have "pg_va_bits demo_G = 39" by (simp add: demo_G_def sv39_def)
  ultimately show "demo_as.ainv {#} demo_m2 demo_a"
    using N v unfolding as_inv_def by (auto simp: demo_k_pg demo_a_def)
qed

lemma demo_m3_ainv: "demo_as.ainv {#0x80002000#} demo_m3 demo_a" "as_view demo_K demo_m3 demo_a va = None"
proof -
  have "as_step demo_K demo_a ({#}, demo_m2) ({#0x80002000#}, demo_m3)" by (rule as_step.allocate [OF demo_allocated])
  then show "demo_as.ainv {#0x80002000#} demo_m3 demo_a" by (rule demo_as.as_step_inv [OF _ demo_m2_ainv(1)])
  show "as_view demo_K demo_m3 demo_a va = None" using tables_only(1) [OF demo_m3_root] demo_m2_ainv(2) by simp
qed

lemma demo_m3_handle: "is_handle demo_K demo_a {#0x80002000#} demo_m3 0x80002000"
proof -
  have "pte_frames (as_view demo_K demo_m3 demo_a) (as_addrs demo_a) = {#}" by (rule pte_frames_none) (simp add: demo_m3_ainv(2) alloc_leaf_def)
  then show ?thesis by (simp add: is_handle_def)
qed

lemma demo_pte_flags: "pte_flags demo_K AllocKind {READ, WRITE, USER} = Inr {READ, WRITE, USER, ALLOC_FRAME}"
  by (auto simp: pte_flags_def kind_apply_def Let_def has_leaf_access_def)

lemma demo_mapped: "map_frame demo_K demo_a 0x1000 0x80002000 {READ, WRITE, USER} demo_m3 = Some (demo_m4, Inr ())"
proof -
  obtain s' r where e: "get_entry_mut_or_create demo_G demo_m3 demo_pt 0x1000 Size4K = (s', Inr r)" "is_unused (pg_pte demo_G) (entry s' r)"
    using demo_slot [OF demo_m2_root [folded demo_m3_root] demo_m3_heap] by blast
  have q: "pt_query demo_G demo_m3 demo_pt 0x1000 = Inl NotMapped"
    using demo_as.query_4K [OF demo_m3_ainv(1), of "0x1000"] by (simp add: demo_addrs demo_m3_ainv(2)) (simp add: demo_k_pg demo_a_def)
  have v: "validate_range demo_K demo_a 0x1000 (page_bytes Size4K) Size4K = Inr ()"
    using demo_as.validate_range_spec [OF demo_m3_ainv(1), of "0x1000" "page_bytes Size4K" Size4K]
    by (simp add: range_ok_def page_bytes_def demo_a_def)
  from demo_as.map_frame_spec [OF demo_m3_ainv(1) demo_m3_handle [unfolded is_handle_def], of "0x1000" "{READ, WRITE, USER}"]
  obtain s1 x where m: "map_frame demo_K demo_a 0x1000 0x80002000 {READ, WRITE, USER} demo_m3 = Some (s1, x)" by blast
  moreover have "x = Inr ()"
    using m e q v demo_pte_flags by (cases x) (auto simp: map_frame_def pt_map_def demo_k_pg demo_a_def is_ok_def split: option.splits)
  ultimately show ?thesis by (simp add: demo_m4_def)
qed

lemma demo_m4_ainv: "demo_as.ainv {#0x80002000#} demo_m4 demo_a"
  and demo_m4_view: "va \<in> {0x1000..<0x4000} \<Longrightarrow> as_view demo_K demo_m4 demo_a va =
    (if va < 0x2000 then Some (0x80002000, {READ, WRITE, USER, ALLOC_FRAME}, Size4K) else None)"
proof -
  have st: "rv_stored {READ, WRITE, USER, ALLOC_FRAME} = {READ, WRITE, USER, ALLOC_FRAME}" by (auto simp: rv_stored_def)
  note M = demo_as.map_frame_spec [OF demo_m3_ainv(1) demo_m3_handle [unfolded is_handle_def], of "0x1000" "{READ, WRITE, USER}"]
  have "demo_as.ainv {#0x80002000#} demo_m4 demo_a \<and> (\<forall>va \<in> as_addrs demo_a. as_view demo_K demo_m4 demo_a va =
      put_page 0x1000 0x80002000 {READ, WRITE, USER, ALLOC_FRAME} (as_view demo_K demo_m3 demo_a) va)"
    using M demo_mapped demo_pte_flags by (auto simp: st)
  then show "demo_as.ainv {#0x80002000#} demo_m4 demo_a"
    "va \<in> {0x1000..<0x4000} \<Longrightarrow> as_view demo_K demo_m4 demo_a va =
      (if va < 0x2000 then Some (0x80002000, {READ, WRITE, USER, ALLOC_FRAME}, Size4K) else None)"
    by (auto simp: demo_addrs put_page_def demo_m3_ainv(2))
qed

theorem address_space_safe_witness:
  "0x80002000 \<in> demo_live (pt_heap demo_m4) \<and> 0 < ref_count demo_m4 0x80002000"
proof -
  have "(as_step demo_K demo_a)\<^sup>*\<^sup>* ({#}, demo_m2) ({#0x80002000#}, demo_m4)"
    using as_step.allocate [OF demo_allocated, of demo_a "{#}"] as_step.map_ok [OF demo_m3_handle demo_mapped]
    by (meson rtranclp.rtrancl_into_rtrancl r_into_rtranclp)
  from address_space_safe [OF demo_as.aspace_laws_axioms demo_m2_ainv(1) this] demo_m4_view [of "0x1000"]
  show ?thesis by (force simp: demo_addrs)
qed

theorem unmap_alloc_range_exact_witness:
  "\<exists>s'. unmap_alloc_range demo_K demo_a 0x1000 0x2000 demo_m4 = Some (s', Inr ()) \<and> demo_as.ainv {#} s' demo_a \<and>
     as_view demo_K s' demo_a 0x1234 = None"
proof -
  have "range_ok demo_a 0x1000 0x2000 Size4K" by (simp add: range_ok_def demo_a_def page_bytes_def)
  moreover have "uniform (as_view demo_K demo_m4 demo_a) AllocKind Size4K {0x1000..<0x1000 + 0x2000}"
    using demo_m4_view by (auto simp: uniform_def kind_from_flags_def split: if_splits)
  moreover have "pte_frames (as_view demo_K demo_m4 demo_a) {0x1000..<0x1000 + 0x2000} = {#0x80002000#}"
  proof -
    have "pte_frames (as_view demo_K demo_m4 demo_a) ({0x1000..<0x3000} \<inter> {0x1000..<0x2000}) = {#0x80002000#}"
      by (rule pte_frames_one [where V = "as_view demo_K demo_m4 demo_a" and va = "0x1000" and fl = "{READ, WRITE, USER, ALLOC_FRAME}"])
        (simp_all add: demo_m4_view)
    moreover have "pte_frames (as_view demo_K demo_m4 demo_a) ({0x1000..<0x3000} - {0x1000..<0x2000}) = {#}"
      by (rule pte_frames_none) (simp add: demo_m4_view alloc_leaf_def)
    ultimately show ?thesis
      using pte_frames_split [of "{0x1000..<0x3000}" "as_view demo_K demo_m4 demo_a" "{0x1000..<0x2000}"] by simp
  qed
  ultimately show ?thesis
    using unmap_alloc_range_exact [OF demo_as.aspace_laws_axioms demo_m4_ainv, of "0x1000" "0x2000"] by (auto simp: demo_addrs)
qed


text \<open>A transaction that takes the write permission away from the mapped page.\<close>

theorem protection_rollback_witness:
  "\<exists>s' cs r s''. tx_protect_alloc_range demo_K demo_a True 0x1000 0x1000 {READ, USER} [] demo_m4 = Some (s', cs, r) \<and>
     tx_drop demo_K demo_a False cs s' = Some s'' \<and>
     as_view demo_K s'' demo_a 0x1000 = Some (0x80002000, {READ, WRITE, USER, ALLOC_FRAME}, Size4K)"
proof -
  obtain s' cs r where t: "tx_protect_alloc_range demo_K demo_a True 0x1000 0x1000 {READ, USER} [] demo_m4 = Some (s', cs, r)"
    using demo_as.tx_protect_spec [OF demo_m4_ainv, of AllocKind Size4K True "0x1000" "0x1000" None "\<lambda>_ _. Inr {READ, USER}" "[]"]
    by (auto simp: tx_protect_alloc_range_def)
  have "(tx_step demo_K demo_a)\<^sup>*\<^sup>* (demo_m4, []) (s', cs)" by (rule r_into_rtranclp) (rule tx_step.alloc [OF t])
  from protection_rollback [OF demo_as.aspace_laws_axioms demo_m4_ainv this] t demo_m4_view [of "0x1000"]
  show ?thesis by (auto simp: demo_addrs)
qed

end
