(* ===== verification/Spec2Isabelle.thy ===== *)
theory Spec2Isabelle
  imports Prelude Errno Sched Ipc Assembler Packet_Buffer Address_Safety
begin

text \<open>
  A verification library for the StarryX kernel. Paths below are relative to \<open>src/\<close>.

  \<^bold>\<open>Program.\<close> StarryX is a Linux-compatible kernel in Rust. \<open>crates/\<close> holds libraries such as the page tables, the allocators and
  the TCP/IP stack; \<open>xcore/\<close> the hardware layer, memory management, tasks, file systems and network; \<open>xmodules/\<close> the
  hardware-independent subsystems (schedulers, errors, virtual memory areas, processes, signals, paths, page cache); \<open>xkernel/\<close> builds
  the system calls on them. Three groups of components are modelled: the physical side of memory management, from the page
  allocator up to hardware address spaces; System V IPC with its system calls; and the storage of the TCP/IP stack. The
  schedulers and the error codes stand alone. The memory components call each other as in the code: an address space owns a page
  table and counted frames, and both take their frames from the page allocator.

  \<^bold>\<open>Conventions.\<close> Operations are functions from the state to the new state and a result. \<open>Result\<close> is a sum with \<open>Inl\<close> for the error.
  \<open>None\<close> is a panic, a failed assertion or an \<open>expect\<close>. Arithmetic is that of the release profile: \<open>usize_add\<close>, \<open>usize_sub\<close> and the
  narrower operations wrap. A trait is a record of operations, its contract a locale, and the implementations of the code
  interpret the locale. Third-party code is an argument; a locale states its documented behaviour and an executable
  instance satisfies it: \<open>memory_addr\<close> (address arithmetic), \<open>bit_allocator\<close> (the bitmap), \<open>intrusive_list\<close> (the linked list).

  \<^bold>\<open>Theories.\<close>
  \<^item> \<open>Prelude\<close>: fixed-width integers, results, ordered maps as sorted association lists.
  \<^item> \<open>Errno\<close> (\<open>xmodules/xerrno\<close>): \<open>XError\<close>, its codes and its conversion to \<open>LinuxError\<close>.
  \<^item> \<open>Sched\<close> (\<open>xmodules/xsched\<close>): the trait \<open>BaseScheduler\<close> and the FIFO, round-robin and completely-fair schedulers. No task is lost or
    duplicated, the fair scheduler picks a task of least virtual runtime, a round-robin quantum lasts its ticks.
  \<^item> \<open>Ipc_Base\<close>, \<open>Ipc_Sem\<close>, \<open>Ipc_Msg\<close>, \<open>Ipc_Shm\<close>, \<open>Ipc\<close> (\<open>xkernel/src/ipc\<close>, \<open>xkernel/src/syscall/ipc\<close>, \<open>BiBTreeMap\<close> of \<open>xmodules/xutils\<close>):
    the managers and their system calls. \<open>sys_semop\<close> is split where it releases the lock, and \<open>sem_step\<close> interleaves any number of
    processes. Semaphore operations are atomic and keep values in range; message selection and attach, detach, exit and
    fork of shared memory are correct; creation keeps the limits. Several theorems prove defects of the code.
  \<^item> \<open>Assembler\<close>, \<open>Ring_Buffer\<close>, \<open>Packet_Buffer\<close> (\<open>crates/smoltcp/src/storage\<close>): reassembly refines the set of offsets received, the ring
    buffer a queue, the packet buffer a queue of packets.
  \<^item> \<open>Mem_Addr\<close>: the interface of the address crate.
  \<^item> \<open>Page_Entry\<close> (\<open>crates/page_table_multiarch/page_table_entry\<close>): entries of RISC-V and LoongArch as 64-bit words.
  \<^item> \<open>Page_Alloc\<close> (\<open>crates/allocator/src/bitmap.rs\<close>, \<open>PagingHandlerImpl\<close> in \<open>xcore/xhal/src/paging.rs\<close>): the page allocator as a source of frames.
  \<^item> \<open>Page_Table\<close>, \<open>Page_Map\<close>, \<open>Page_Region\<close> (\<open>crates/page_table_multiarch/page_table_multiarch/src/bits64.rs\<close>): the page table refines a partial
    map from addresses to frames; walking a range, sharing root entries, dropping a table and mapping a region are exact.
  \<^item> \<open>Frame\<close> (\<open>xcore/xmm/src/frame.rs\<close>): counted frames. \<open>own\<close>, the multiset of the references that handles and page-table entries hold,
    is specification state; the counts always equal its multiplicities.
  \<^item> \<open>Address_Space\<close> (\<open>xcore/xmm/src/aspace.rs\<close>, \<open>utils.rs\<close>, \<open>lib.rs\<close>): the operations of an address space, its protection transactions and the
    construction of the kernel address space.
  \<^item> \<open>Address_Map\<close>, \<open>Address_Safety\<close>: the invariant \<open>as_inv\<close> of an address space, the effect of its operations on the page map and the owners, and
    the guarantees: no mapped frame is free, unmapping is exact, transactions roll back, bytes written are read back.

  \<^bold>\<open>Loops.\<close> Loops over a list or a bounded index are structural or have a termination proof. \<open>while\<close> loops whose end is not evident are
  partial functions into \<open>option\<close>: the region operations of \<open>Page_Region\<close> and \<open>process_chunks\<close> of \<open>Address_Space\<close>. That \<open>map_region\<close> and
  the byte copies return is part of the theorems about them. There is no fuel.

  \<^bold>\<open>Limits of the theorems.\<close> The invariant of an address space asks for a page-aligned range in the lower half of the addresses, as user
  spaces have it. Operations are sequential and counts plain numbers, which is adequate for one hart, the only setting \<open>new_user\<close> accepts. Static mappings, \<open>copy_static_mappings_from\<close>, \<open>mapped_frames\<close>, \<open>frame_if_shared\<close>, the
  kernel address space, \<open>unmap_region\<close> and \<open>protect_region\<close> are defined, but no theorem is about them. The TLB is not modelled.

  \<^bold>\<open>Not modelled.\<close>
  \<^item> Hardware access, interrupts, context switches, drivers and start-up (\<open>xcore/xhal\<close> apart from the files above, \<open>xcore/xtask\<close>,
    \<open>xcore/xdriver\<close>, \<open>drivers\<close>, \<open>xcore/xruntime\<close>): effects on devices and registers.
  \<^item> File systems (\<open>xcore/xfs\<close>, \<open>crates/lwext4_rust\<close>) and the byte allocators (\<open>xcore/xalloc\<close>, the rest of \<open>crates/allocator\<close>): they mostly
    wrap code that is not part of the sources.
  \<^item> Not yet modelled, although nothing prevents it: the virtual memory areas (\<open>xmodules/xvma\<close>), the process tree (\<open>xmodules/xprocess\<close>),
    signals (\<open>xmodules/xsignal\<close>), paths and the page cache (\<open>xmodules/xvfs\<close>, \<open>xmodules/xcache\<close>), the sockets and wire formats of the TCP/IP
    stack (the rest of \<open>crates/smoltcp\<close>, \<open>xcore/xnet\<close>), and the system calls other than IPC (\<open>xkernel\<close>).
\<close>

end
